(* ===== verification/Prelude.thy ===== *)
theory Prelude
  imports Complex_Main "HOL-Library.Signed_Division"
begin

text \<open>
  Shared base of the development: the failures a C++ operation of the program can end in, the
  result type that carries them, checked 32-bit \<^verbatim>\<open>int\<close> arithmetic, and the list lemmas that the
  component theories rely on.

  A call that can fail returns \<^typ>\<open>'e + 'a\<close>: \<open>Inl e\<close> is the exception (or the undefined
  behaviour) it ends in and \<open>Inr x\<close> its normal result. The program throws only what
  \<open>cpp_error\<close> lists.
\<close>

section \<open>Failures and results\<close>

datatype ub = Signed_overflow | Float_to_int_range | Array_bounds | Division_by_zero

datatype cpp_error =
    Runtime_error string          \<comment> \<open>\<^verbatim>\<open>std::runtime_error\<close> thrown by the program\<close>
  | Invalid_argument              \<comment> \<open>\<^verbatim>\<open>std::stoi\<close> without a leading number\<close>
  | Out_of_range                  \<comment> \<open>\<^verbatim>\<open>std::stoi\<close> overflow, \<^verbatim>\<open>vector::at\<close>\<close>
  | Length_error                  \<comment> \<open>\<^verbatim>\<open>std::string\<close> of a negative length\<close>
  | Bad_optional_access           \<comment> \<open>\<^verbatim>\<open>std::optional::value\<close> on an empty optional\<close>
  | Json_type_error nat           \<comment> \<open>\<^verbatim>\<open>nlohmann::detail::type_error\<close> with its id\<close>
  | Json_out_of_range nat         \<comment> \<open>\<^verbatim>\<open>nlohmann::detail::out_of_range\<close> with its id\<close>
  | Json_parse_error              \<comment> \<open>\<^verbatim>\<open>nlohmann::detail::parse_error\<close>\<close>
  | System_error string           \<comment> \<open>\<^verbatim>\<open>asio::system_error\<close>, such as the end of a stream\<close>
  | Cli_error int                 \<comment> \<open>\<^verbatim>\<open>CLI::ParseError\<close> with its exit code\<close>
  | Assertion_failed              \<comment> \<open>\<^verbatim>\<open>JSON_ASSERT\<close>: the process aborts\<close>
  | Null_dereference              \<comment> \<open>use of an empty \<^verbatim>\<open>unique_ptr\<close> or \<^verbatim>\<open>shared_ptr\<close>\<close>
  | Undefined ub                  \<comment> \<open>undefined behaviour of the abstract machine\<close>

text \<open>What a handler for \<^verbatim>\<open>std::exception\<close> catches; the rest ends the process.\<close>

fun is_exception :: "cpp_error \<Rightarrow> bool" where
  "is_exception Assertion_failed \<longleftrightarrow> False"
| "is_exception Null_dereference \<longleftrightarrow> False"
| "is_exception (Undefined u) \<longleftrightarrow> False"
| "is_exception e \<longleftrightarrow> True"

type_synonym 'a res = "cpp_error + 'a"

definition bindR :: "'e + 'a \<Rightarrow> ('a \<Rightarrow> 'e + 'b) \<Rightarrow> 'e + 'b" where
  "bindR x f = (case x of Inl e \<Rightarrow> Inl e | Inr a \<Rightarrow> f a)"

definition mapR :: "('a \<Rightarrow> 'b) \<Rightarrow> 'e + 'a \<Rightarrow> 'e + 'b" where
  "mapR f x = bindR x (\<lambda>a. Inr (f a))"

named_theorems res_simps \<open>evaluation of the result monad\<close>

lemma bindR_Inl [simp, res_simps]: "bindR (Inl e) f = Inl e"
  by (simp add: bindR_def)

lemma bindR_Inr [simp, res_simps]: "bindR (Inr a) f = f a"
  by (simp add: bindR_def)

lemma mapR_Inl [simp, res_simps]: "mapR f (Inl e) = Inl e"
  by (simp add: mapR_def)

lemma mapR_Inr [simp, res_simps]: "mapR f (Inr a) = Inr (f a)"
  by (simp add: mapR_def)

lemma bindR_assoc: "bindR (bindR x f) g = bindR x (\<lambda>a. bindR (f a) g)"
  by (cases x) simp_all

lemma bindR_eq_Inr: "bindR x f = Inr b \<longleftrightarrow> (\<exists>a. x = Inr a \<and> f a = Inr b)"
  by (cases x) simp_all

lemma bindR_eq_Inl: "bindR x f = Inl e \<longleftrightarrow> x = Inl e \<or> (\<exists>a. x = Inr a \<and> f a = Inl e)"
  by (cases x) simp_all

lemma bindR_cong [fundef_cong]:
  "\<lbrakk>x = y; \<And>a. y = Inr a \<Longrightarrow> f a = g a\<rbrakk> \<Longrightarrow> bindR x f = bindR y g"
  by (cases y) simp_all

text \<open>A list of results, evaluated from the left and cut at the first failure.\<close>

fun sequenceR :: "('e + 'a) list \<Rightarrow> 'e + 'a list" where
  "sequenceR [] = Inr []"
| "sequenceR (x # xs) = bindR x (\<lambda>a. bindR (sequenceR xs) (\<lambda>as. Inr (a # as)))"

lemma sequenceR_Inr [simp]: "sequenceR (map (\<lambda>x. Inr (f x)) xs) = Inr (map f xs)"
  by (induction xs) simp_all

section \<open>C++ \<open>int\<close>\<close>

definition INT_MAX :: int where "INT_MAX = 2147483647"
definition INT_MIN :: int where "INT_MIN = - 2147483648"

definition int_ok :: "int \<Rightarrow> bool" where
  "int_ok x \<longleftrightarrow> INT_MIN \<le> x \<and> x \<le> INT_MAX"

text \<open>Every \<open>int\<close> expression is evaluated exactly; leaving the range is undefined behaviour.\<close>

definition chk_int :: "int \<Rightarrow> int res" where
  "chk_int x = (if int_ok x then Inr x else Inl (Undefined Signed_overflow))"

lemma chk_int_ok [simp]: "int_ok x \<Longrightarrow> chk_int x = Inr x"
  by (simp add: chk_int_def)

lemma int_okI: "\<lbrakk>- 2147483648 \<le> x; x \<le> 2147483647\<rbrakk> \<Longrightarrow> int_ok x"
  by (simp add: int_ok_def INT_MIN_def INT_MAX_def)

lemma int_okD: "int_ok x \<Longrightarrow> - 2147483648 \<le> x \<and> x \<le> 2147483647"
  by (simp add: int_ok_def INT_MIN_def INT_MAX_def)

text \<open>The C++ remainder truncates; on non-negative operands it is the mathematical one.\<close>

lemma smod_nonneg: "\<lbrakk>0 \<le> a; 0 < b\<rbrakk> \<Longrightarrow> a smod b = a mod (b :: int)"
  by (simp add: signed_modulo_int_def signed_divide_int_def sgn_if minus_mult_div_eq_mod)

lemma sdiv_nonneg: "\<lbrakk>0 \<le> a; 0 < b\<rbrakk> \<Longrightarrow> a sdiv b = a div (b :: int)"
  by (simp add: signed_divide_int_def sgn_if)

section \<open>Lists\<close>

lemma foldl_append_snoc: "foldl f a (xs @ [x]) = f (foldl f a xs) x"
  by simp

lemma list_update_same_length [simp]: "length (xs[i := v]) = length xs"
  by simp

lemma filter_list_update_length:
  assumes "i < length xs"
  shows "length (filter P (xs[i := v])) + (if P (xs ! i) then 1 else 0)
         = length (filter P xs) + (if P v then 1 else 0)"
  using assms
proof (induction xs arbitrary: i)
  case Nil
  then show ?case by simp
next
  case (Cons x xs)
  then show ?case by (cases i) (auto split: if_splits)
qed

lemma upt_blocks: "\<lbrakk>a \<le> b; b \<le> c\<rbrakk> \<Longrightarrow> [a..<b] @ [b..<c] = [a..<c]"
  by (metis le_Suc_ex upt_add_eq_append)

lemma upto_blocks: "\<lbrakk>a \<le> b; b \<le> c + 1\<rbrakk> \<Longrightarrow> [a..b - 1] @ [b..c] = [a..(c::int)]"
proof (cases "b \<le> c")
  case True
  moreover assume "a \<le> b"
  ultimately show ?thesis by (simp add: upto_split1)
next
  case False
  moreover assume "b \<le> c + 1"
  ultimately have "b = c + 1" by simp
  then show ?thesis by simp
qed

end
