(* ===== verification/Cpp_Double.thy ===== *)
theory Cpp_Double
  imports Prelude
begin

text \<open>
  The C++ type \<^verbatim>\<open>double\<close> as the program uses it: IEEE 754 binary64 with round-to-nearest-even.
  A finite value is a sign, a significand and an exponent over the integers, so every operation
  below evaluates exactly and then rounds once, as the hardware does. Scores are compared with
  \<open><\<close> only; that comparison is a strict weak order on the values that are not NaN, which is the
  interface \<open>score_order\<close> that the search and the coordinator rely on.
\<close>

section \<open>Values\<close>

text \<open>\<open>Fin s m e\<close> is \<open>(-1)^s * m * 2^e\<close>; \<open>s\<close> is true for a negative sign.\<close>

datatype dbl = NaN | Infinity bool | Fin bool int int

fun is_nan :: "dbl \<Rightarrow> bool" where
  "is_nan NaN \<longleftrightarrow> True"
| "is_nan (Infinity s) \<longleftrightarrow> False"
| "is_nan (Fin s m e) \<longleftrightarrow> False"

fun is_finite :: "dbl \<Rightarrow> bool" where
  "is_finite (Fin s m e) \<longleftrightarrow> True"
| "is_finite NaN \<longleftrightarrow> False"
| "is_finite (Infinity s) \<longleftrightarrow> False"

text \<open>The smallest exponent of a significand unit and the largest one.\<close>

definition EMIN :: int where "EMIN = - 1074"
definition EMAX :: int where "EMAX = 971"

text \<open>Powers of two over the integers (one for a negative exponent) and binary length.\<close>

function pow2 :: "int \<Rightarrow> int" where
  "pow2 k = (if k \<le> 0 then 1
             else let h = pow2 (k div 2) in if even k then h * h else 2 * (h * h))"
  by pat_completeness auto
termination
  by (relation "measure nat") auto

function bits :: "int \<Rightarrow> int" where
  "bits n = (if n \<le> 0 then 0 else 1 + bits (n div 2))"
  by pat_completeness auto
termination
  by (relation "measure nat") auto

declare bits.simps [simp del] pow2.simps [simp del]

section \<open>Rounding\<close>

text \<open>Round \<open>m / 2^t\<close> to the nearest integer, ties to even.\<close>

definition rne :: "int \<Rightarrow> int \<Rightarrow> int" where
  "rne m t =
     (let p = pow2 t; q = m div p; r = m mod p
      in if 2 * r > p \<or> (2 * r = p \<and> odd q) then q + 1 else q)"

text \<open>Normalise a significand of at most 53 bits that may have been rounded up to \<open>2^53\<close>.\<close>

definition finish :: "bool \<Rightarrow> int \<Rightarrow> int \<Rightarrow> dbl" where
  "finish s m e =
     (let (m', e') = (if m = 9007199254740992 then (4503599627370496, e + 1) else (m, e))
      in if e' > EMAX then Infinity s else Fin s m' e')"

text \<open>The nearest double of \<open>(-1)^s * m * 2^e\<close>.\<close>

definition round_dyadic :: "bool \<Rightarrow> int \<Rightarrow> int \<Rightarrow> dbl" where
  "round_dyadic s m e =
     (if m = 0 then Fin s 0 EMIN
      else let t = max (bits m - 53) (EMIN - e)
           in if t \<le> 0 then finish s (m * pow2 (- t)) (e + t)
              else finish s (rne m t) (e + t))"

section \<open>Arithmetic\<close>

definition sgnd :: "bool \<Rightarrow> int \<Rightarrow> int" where
  "sgnd s m = (if s then - m else m)"

text \<open>The numerator of a finite value over the common unit \<open>2^e0\<close>.\<close>

definition scaled :: "bool \<Rightarrow> int \<Rightarrow> int \<Rightarrow> int \<Rightarrow> int" where
  "scaled s m e e0 = sgnd s m * pow2 (e - e0)"

fun dbl_neg :: "dbl \<Rightarrow> dbl" where
  "dbl_neg NaN = NaN"
| "dbl_neg (Infinity s) = Infinity (\<not> s)"
| "dbl_neg (Fin s m e) = Fin (\<not> s) m e"

fun dbl_add :: "dbl \<Rightarrow> dbl \<Rightarrow> dbl" where
  "dbl_add NaN y = NaN"
| "dbl_add x NaN = NaN"
| "dbl_add (Infinity s) (Infinity s') = (if s = s' then Infinity s else NaN)"
| "dbl_add (Infinity s) (Fin s' m' e') = Infinity s"
| "dbl_add (Fin s m e) (Infinity s') = Infinity s'"
| "dbl_add (Fin s m e) (Fin s' m' e') =
     (let e0 = min e e'; n = scaled s m e e0 + scaled s' m' e' e0
      in if n = 0 then Fin (m = 0 \<and> m' = 0 \<and> s \<and> s') 0 EMIN
         else round_dyadic (n < 0) \<bar>n\<bar> e0)"

fun dbl_mul :: "dbl \<Rightarrow> dbl \<Rightarrow> dbl" where
  "dbl_mul NaN y = NaN"
| "dbl_mul x NaN = NaN"
| "dbl_mul (Infinity s) (Infinity s') = Infinity (s \<noteq> s')"
| "dbl_mul (Infinity s) (Fin s' m' e') = (if m' = 0 then NaN else Infinity (s \<noteq> s'))"
| "dbl_mul (Fin s m e) (Infinity s') = (if m = 0 then NaN else Infinity (s \<noteq> s'))"
| "dbl_mul (Fin s m e) (Fin s' m' e') = round_dyadic (s \<noteq> s') (m * m') (e + e')"

text \<open>
  The quotient is computed to at least 56 significant bits with a sticky bit for the remainder,
  which is enough for \<open>round_dyadic\<close> to round the exact quotient correctly.
\<close>

definition div_dyadic :: "bool \<Rightarrow> int \<Rightarrow> int \<Rightarrow> int \<Rightarrow> int \<Rightarrow> dbl" where
  "div_dyadic s m e m' e' =
     (let k = 56 + bits m'; n = m * pow2 k; q = n div m'; r = n mod m'
      in round_dyadic s (2 * q + (if r = 0 then 0 else 1)) (e - e' - k - 1))"

fun dbl_div :: "dbl \<Rightarrow> dbl \<Rightarrow> dbl" where
  "dbl_div NaN y = NaN"
| "dbl_div x NaN = NaN"
| "dbl_div (Infinity s) (Infinity s') = NaN"
| "dbl_div (Infinity s) (Fin s' m' e') = Infinity (s \<noteq> s')"
| "dbl_div (Fin s m e) (Infinity s') = Fin (s \<noteq> s') 0 EMIN"
| "dbl_div (Fin s m e) (Fin s' m' e') =
     (if m' = 0 then (if m = 0 then NaN else Infinity (s \<noteq> s'))
      else div_dyadic (s \<noteq> s') m e m' e')"

fun dbl_less :: "dbl \<Rightarrow> dbl \<Rightarrow> bool" where
  "dbl_less NaN y \<longleftrightarrow> False"
| "dbl_less x NaN \<longleftrightarrow> False"
| "dbl_less (Infinity s) (Infinity s') \<longleftrightarrow> s \<and> \<not> s'"
| "dbl_less (Infinity s) (Fin s' m' e') \<longleftrightarrow> s"
| "dbl_less (Fin s m e) (Infinity s') \<longleftrightarrow> \<not> s'"
| "dbl_less (Fin s m e) (Fin s' m' e') \<longleftrightarrow>
     (let e0 = min e e' in scaled s m e e0 < scaled s' m' e' e0)"

text \<open>C++ \<^verbatim>\<open>==\<close> on doubles: false on NaN, and the two zeros are equal.\<close>

definition dbl_eq :: "dbl \<Rightarrow> dbl \<Rightarrow> bool" where
  "dbl_eq x y \<longleftrightarrow> \<not> is_nan x \<and> \<not> is_nan y \<and> \<not> dbl_less x y \<and> \<not> dbl_less y x"

text \<open>The conversions: from an integer, from a decimal literal \<open>a / b\<close>, and to \<^verbatim>\<open>int\<close>.\<close>

definition dbl_of_int :: "int \<Rightarrow> dbl" where
  "dbl_of_int n = round_dyadic (n < 0) \<bar>n\<bar> 0"

definition dbl_lit :: "int \<Rightarrow> int \<Rightarrow> dbl" where
  "dbl_lit a b = div_dyadic False a 0 b 0"

text \<open>Truncation towards zero; outside the range of \<^verbatim>\<open>int\<close> the conversion is undefined.\<close>

fun dbl_to_int :: "dbl \<Rightarrow> int res" where
  "dbl_to_int (Fin s m e) =
     (let i = sgnd s (if e \<ge> 0 then m * pow2 e else m div pow2 (- e))
      in if int_ok i then Inr i else Inl (Undefined Float_to_int_range))"
| "dbl_to_int NaN = Inl (Undefined Float_to_int_range)"
| "dbl_to_int (Infinity s) = Inl (Undefined Float_to_int_range)"

text \<open>\<^verbatim>\<open>std::numeric_limits<double>::max()\<close>.\<close>

definition DBL_MAX :: dbl where "DBL_MAX = Fin False 9007199254740991 EMAX"

instantiation dbl :: "{zero, one, plus, minus, uminus, times, inverse, ord}"
begin

definition zero_dbl :: dbl where "0 = Fin False 0 EMIN"
definition one_dbl :: dbl where "1 = Fin False 4503599627370496 (- 52)"
definition plus_dbl :: "dbl \<Rightarrow> dbl \<Rightarrow> dbl" where "x + y = dbl_add x y"
definition uminus_dbl :: "dbl \<Rightarrow> dbl" where "- x = dbl_neg x"
definition minus_dbl :: "dbl \<Rightarrow> dbl \<Rightarrow> dbl" where "x - y = dbl_add x (dbl_neg y)"
definition times_dbl :: "dbl \<Rightarrow> dbl \<Rightarrow> dbl" where "x * y = dbl_mul x y"
definition divide_dbl :: "dbl \<Rightarrow> dbl \<Rightarrow> dbl" where "x div y = dbl_div x y"
definition inverse_dbl :: "dbl \<Rightarrow> dbl" where "inverse x = dbl_div 1 (x :: dbl)"
definition less_dbl :: "dbl \<Rightarrow> dbl \<Rightarrow> bool" where "x < y \<longleftrightarrow> dbl_less x y"
definition less_eq_dbl :: "dbl \<Rightarrow> dbl \<Rightarrow> bool" where "x \<le> y \<longleftrightarrow> dbl_less x y \<or> dbl_eq x y"

instance ..

end

lemmas dbl_ops = zero_dbl_def one_dbl_def plus_dbl_def uminus_dbl_def minus_dbl_def times_dbl_def
  divide_dbl_def less_dbl_def less_eq_dbl_def

section \<open>The order of scores\<close>

lemma pow2_eq: "pow2 k = 2 ^ nat k"
proof (induction k rule: pow2.induct)
  case (1 k)
  show ?case
  proof (cases "k \<le> 0")
    case True
    then show ?thesis by (simp add: pow2.simps [of k])
  next
    case False
    then have "nat k = 2 * nat (k div 2) + (if even k then 0 else 1)"
      by (cases "even k") (auto elim!: evenE oddE simp: nat_mult_distrib nat_add_distrib)
    then have "(2 :: int) ^ nat k
      = 2 ^ nat (k div 2) * 2 ^ nat (k div 2) * (if even k then 1 else 2)"
      by (simp add: power_add mult_2)
    then show ?thesis
      using False "1.IH" by (simp add: pow2.simps [of k] Let_def)
  qed
qed

lemma pow2_pos [simp]: "0 < pow2 k"
  by (simp add: pow2_eq)

lemma pow2_add: "\<lbrakk>0 \<le> a; 0 \<le> b\<rbrakk> \<Longrightarrow> pow2 (a + b) = pow2 a * pow2 b"
  by (simp add: pow2_eq nat_add_distrib power_add)

lemma scaled_shift:
  assumes "k \<le> e0" and "e0 \<le> e"
  shows "scaled s m e k = scaled s m e e0 * pow2 (e0 - k)"
proof -
  have "pow2 ((e - e0) + (e0 - k)) = pow2 (e - e0) * pow2 (e0 - k)"
    using assms by (intro pow2_add) auto
  then show ?thesis by (simp add: scaled_def)
qed

text \<open>Finite values may be compared over any unit below both exponents.\<close>

lemma dbl_less_Fin:
  assumes "k \<le> e" and "k \<le> e'"
  shows "dbl_less (Fin s m e) (Fin s' m' e') \<longleftrightarrow> scaled s m e k < scaled s' m' e' k"
proof -
  let ?e0 = "min e e'"
  have "scaled s m e k = scaled s m e ?e0 * pow2 (?e0 - k)"
    and "scaled s' m' e' k = scaled s' m' e' ?e0 * pow2 (?e0 - k)"
    using assms by (auto intro: scaled_shift)
  then show ?thesis by (simp add: Let_def)
qed

lemma dbl_less_irrefl: "\<not> dbl_less x x"
  by (cases x) (auto simp: Let_def)

lemma dbl_less_nan: "dbl_less x y \<Longrightarrow> \<not> is_nan x \<and> \<not> is_nan y"
  by (cases x; cases y) auto

lemma dbl_less_trans: "\<lbrakk>dbl_less x y; dbl_less y z\<rbrakk> \<Longrightarrow> dbl_less x z"
proof (cases "is_finite x \<and> is_finite y \<and> is_finite z")
  case True
  assume lt: "dbl_less x y" "dbl_less y z"
  from True obtain s m e s' m' e' s'' m'' e''
    where eq: "x = Fin s m e" "y = Fin s' m' e'" "z = Fin s'' m'' e''"
    by (cases x; cases y; cases z) auto
  define k where "k = min e (min e' e'')"
  then have "k \<le> e" "k \<le> e'" "k \<le> e''" by auto
  with lt show ?thesis unfolding eq by (simp add: dbl_less_Fin [of k] del: dbl_less.simps)
next
  case False
  assume "dbl_less x y" "dbl_less y z"
  with False show ?thesis by (cases x; cases y; cases z) auto
qed

lemma dbl_less_weak: "\<lbrakk>dbl_less x z; \<not> is_nan y\<rbrakk> \<Longrightarrow> dbl_less x y \<or> dbl_less y z"
proof (cases "is_finite x \<and> is_finite y \<and> is_finite z")
  case True
  assume lt: "dbl_less x z"
  from True obtain s m e s' m' e' s'' m'' e''
    where eq: "x = Fin s m e" "y = Fin s' m' e'" "z = Fin s'' m'' e''"
    by (cases x; cases y; cases z) auto
  define k where "k = min e (min e' e'')"
  then have "k \<le> e" "k \<le> e'" "k \<le> e''" by auto
  with lt show ?thesis unfolding eq by (simp add: dbl_less_Fin [of k] del: dbl_less.simps) linarith
next
  case False
  assume "dbl_less x z" "\<not> is_nan y"
  with False show ?thesis by (cases x; cases y; cases z) auto
qed

text \<open>
  The interface the search relies on: a comparison of scores that is a strict weak order on the
  scores that are not NaN and never holds for a NaN.
\<close>

locale score_order =
  fixes lt :: "'s \<Rightarrow> 's \<Rightarrow> bool" and nan :: "'s \<Rightarrow> bool"
  assumes lt_irrefl: "\<not> lt x x"
    and lt_trans: "\<lbrakk>lt x y; lt y z\<rbrakk> \<Longrightarrow> lt x z"
    and lt_nan: "lt x y \<Longrightarrow> \<not> nan x \<and> \<not> nan y"
    and lt_weak: "\<lbrakk>lt x z; \<not> nan y\<rbrakk> \<Longrightarrow> lt x y \<or> lt y z"
begin

lemma not_lt_trans: "\<lbrakk>\<not> nan y; \<not> lt x y; \<not> lt y z\<rbrakk> \<Longrightarrow> \<not> lt x z"
  using lt_weak by blast

lemma lt_asym: "lt x y \<Longrightarrow> \<not> lt y x"
  using lt_irrefl lt_trans by blast

end

interpretation dbl_ord: score_order dbl_less is_nan
  by unfold_locales (use dbl_less_irrefl dbl_less_trans dbl_less_nan dbl_less_weak in blast)+

lemma not_nan_round [simp]: "\<not> is_nan (round_dyadic s m e)"
  by (simp add: round_dyadic_def finish_def Let_def split: prod.splits)

lemma not_nan_DBL_MAX [simp]: "\<not> is_nan DBL_MAX"
  by (simp add: DBL_MAX_def)

text \<open>Integers of at most 53 bits convert exactly.\<close>

lemma bits_bounds: "0 < n \<Longrightarrow> 0 < bits n \<and> pow2 (bits n - 1) \<le> n \<and> n < pow2 (bits n)"
proof (induction n rule: bits.induct)
  case (1 n)
  show ?case
  proof (cases "n = 1")
    case True
    then show ?thesis by (simp add: bits.simps [of 1] bits.simps [of 0] pow2_eq)
  next
    case False
    with "1.prems" have pos: "0 < n div 2" by simp
    with "1.prems" "1.IH" have ih: "0 < bits (n div 2)" "pow2 (bits (n div 2) - 1) \<le> n div 2"
      "n div 2 < pow2 (bits (n div 2))" by simp_all
    have b: "bits n = 1 + bits (n div 2)"
      using "1.prems" by (simp add: bits.simps [of n])
    have "pow2 (bits n - 1) = 2 * pow2 (bits (n div 2) - 1)"
      and "pow2 (bits n) = 2 * pow2 (bits (n div 2))"
      using ih(1) pow2_add [of 1 "bits (n div 2) - 1"] pow2_add [of 1 "bits (n div 2)"]
      by (simp_all add: b pow2_eq [of 1])
    with ih b show ?thesis by simp linarith
  qed
qed

lemma bits_le: "\<lbrakk>0 < n; n < 2 ^ k\<rbrakk> \<Longrightarrow> bits n \<le> int k"
proof (rule ccontr)
  assume n: "0 < n" "n < 2 ^ k" and "\<not> bits n \<le> int k"
  then have "k \<le> nat (bits n - 1)" by simp
  then have "(2 :: int) ^ k \<le> 2 ^ nat (bits n - 1)" by (rule power_increasing) simp
  also have "\<dots> \<le> n" using bits_bounds [OF n(1)] by (simp add: pow2_eq)
  finally show False using n(2) by simp
qed

lemma round_dyadic_int:
  assumes "0 < n" and "n < 2 ^ 53"
  shows "round_dyadic s n 0 = Fin s (n * pow2 (53 - bits n)) (bits n - 53)"
proof -
  have b: "bits n \<le> 53" "0 < bits n"
    using bits_le [of n 53] bits_bounds [of n] assms by auto
  have "n * pow2 (53 - bits n) < pow2 (bits n) * pow2 (53 - bits n)"
    using bits_bounds [of n] assms by simp
  also have "\<dots> = pow2 53" using b pow2_add [of "bits n" "53 - bits n"] by simp
  finally have "n * pow2 (53 - bits n) \<noteq> 9007199254740992" by (simp add: pow2_eq)
  with b show ?thesis
    using assms by (simp add: round_dyadic_def finish_def Let_def max_def EMIN_def EMAX_def)
qed

lemma dbl_to_int_of_int:
  assumes "int_ok n"
  shows "dbl_to_int (dbl_of_int n) = Inr n"
proof (cases "n = 0")
  case True
  then show ?thesis
    by (simp add: dbl_of_int_def round_dyadic_def sgnd_def EMIN_def int_ok_def INT_MIN_def INT_MAX_def)
next
  case False
  let ?m = "\<bar>n\<bar>"
  have m: "0 < ?m" "?m < 2 ^ 53" using assms False by (auto dest: int_okD)
  have "?m < 2 ^ 32" using int_okD [OF assms] by (simp add: abs_if)
  then have b: "bits ?m < 53" using bits_le [of ?m 32] m by simp
  have "dbl_of_int n = Fin (n < 0) (?m * pow2 (53 - bits ?m)) (bits ?m - 53)"
    using round_dyadic_int [OF m] by (simp add: dbl_of_int_def)
  moreover have "sgnd (n < 0) ?m = n" by (simp add: sgnd_def)
  ultimately show ?thesis using b assms pow2_pos [of "53 - bits ?m"] by (simp add: Let_def del: pow2_pos)
qed

section \<open>Exact sums\<close>

lemma bits_unique:
  assumes "0 < k" and "pow2 (k - 1) \<le> n" and "n < pow2 k"
  shows "bits n = k"
proof -
  have n: "0 < n" using assms(2) pow2_pos [of "k - 1"] by linarith
  note b = bits_bounds [OF n]
  have mono: "x \<le> y \<Longrightarrow> pow2 x \<le> pow2 y" for x y
    by (simp add: pow2_eq nat_mono power_increasing)
  have "\<not> bits n < k" using mono [of "bits n" "k - 1"] b assms by auto
  moreover have "\<not> k < bits n" using mono [of k "bits n - 1"] b assms by auto
  ultimately show ?thesis by simp
qed

lemma bits_shift:
  assumes "0 < n" and "0 \<le> k"
  shows "bits (n * pow2 k) = bits n + k"
proof (rule bits_unique)
  note b = bits_bounds [OF assms(1)]
  show "0 < bits n + k" using b assms by simp
  have "pow2 (bits n + k - 1) = pow2 (bits n - 1) * pow2 k"
    using b assms pow2_add [of "bits n - 1" k] by (simp add: algebra_simps)
  then show "pow2 (bits n + k - 1) \<le> n * pow2 k" using b by simp
  have "pow2 (bits n + k) = pow2 (bits n) * pow2 k" using b assms by (simp add: pow2_add)
  then show "n * pow2 k < pow2 (bits n + k)" using b by simp
qed

lemma rne_exact: "rne (q * pow2 t) t = q"
proof -
  have "0 < pow2 t" by simp
  then have "q * pow2 t div pow2 t = q" "q * pow2 t mod pow2 t = 0" by (simp_all add: less_imp_neq [symmetric])
  then show ?thesis using pow2_pos [of t] by (simp add: rne_def Let_def del: pow2_pos)
qed

text \<open>Rounding depends on the value, not on how it is split into significand and exponent.\<close>

lemma round_dyadic_shift:
  assumes n: "0 < n" "n < 2 ^ 53" and k: "0 \<le> k" "k \<le> 1074"
  shows "round_dyadic s (n * pow2 k) (- k) = round_dyadic s n 0"
proof -
  have b: "bits n \<le> 53" "0 < bits n" using bits_le [of n 53] bits_bounds [of n] n by auto
  define t where "t = bits n + k - 53"
  have t: "max (bits (n * pow2 k) - 53) (EMIN - - k) = t"
    using b k by (simp add: t_def bits_shift [OF n(1) k(1)] EMIN_def)
  have "0 < n * pow2 k" using n by (intro mult_pos_pos) simp_all
  then have pos: "n * pow2 k \<noteq> 0" by linarith
  have "(if t \<le> 0 then finish s (n * pow2 k * pow2 (- t)) (- k + t) else finish s (rne (n * pow2 k) t) (- k + t))
      = finish s (n * pow2 (53 - bits n)) (bits n - 53)"
  proof (cases "t \<le> 0")
    case True
    then have "pow2 k * pow2 (- t) = pow2 (53 - bits n)" using k(1) pow2_add [of k "- t"] by (simp add: t_def)
    then show ?thesis using True by (simp add: t_def mult.assoc)
  next
    case False
    then have "n * pow2 k = n * pow2 (53 - bits n) * pow2 t"
      using b(1) pow2_add [of "53 - bits n" t] by (simp add: t_def mult.assoc)
    then have "rne (n * pow2 k) t = n * pow2 (53 - bits n)"
      using rne_exact [of "n * pow2 (53 - bits n)" t] by (simp only:)
    then show ?thesis using False by (simp add: t_def)
  qed
  moreover have "finish s (n * pow2 (53 - bits n)) (bits n - 53) = round_dyadic s n 0"
    using b n by (simp add: round_dyadic_def Let_def max_def EMIN_def)
  ultimately show ?thesis using pos t by (simp add: round_dyadic_def Let_def)
qed

text \<open>Sums of small natural numbers are exact.\<close>

lemma dbl_of_nat_Fin:
  assumes "0 \<le> a" and "a < 2 ^ 53"
  obtains m e where "dbl_of_int a = Fin False m e" "EMIN \<le> e" "e \<le> 0" "\<And>k. k \<le> e \<Longrightarrow> m * pow2 (e - k) = a * pow2 (- k)"
proof (cases "a = 0")
  case True
  then show ?thesis using that [of 0 EMIN] by (simp add: dbl_of_int_def round_dyadic_def EMIN_def)
next
  case False
  have b: "bits a \<le> 53" "0 < bits a" using bits_le [of a 53] bits_bounds [of a] assms False by auto
  show ?thesis
  proof (rule that)
    show "dbl_of_int a = Fin False (a * pow2 (53 - bits a)) (bits a - 53)"
      using round_dyadic_int [of a False] assms False by (simp add: dbl_of_int_def)
    show "a * pow2 (53 - bits a) * pow2 (bits a - 53 - k) = a * pow2 (- k)" if "k \<le> bits a - 53" for k
      using that b pow2_add [of "53 - bits a" "bits a - 53 - k"] by (simp add: mult.assoc)
  qed (use b in \<open>simp_all add: EMIN_def\<close>)
qed

lemma dbl_add_nat:
  assumes "0 \<le> a" and "0 \<le> b" and "a + b < 2 ^ 53"
  shows "dbl_of_int a + dbl_of_int b = dbl_of_int (a + b)"
proof -
  obtain m e where x: "dbl_of_int a = Fin False m e" "EMIN \<le> e" "e \<le> 0" "\<And>k. k \<le> e \<Longrightarrow> m * pow2 (e - k) = a * pow2 (- k)"
    using dbl_of_nat_Fin [of a] assms by auto
  obtain m' e' where y: "dbl_of_int b = Fin False m' e'" "EMIN \<le> e'" "e' \<le> 0" "\<And>k. k \<le> e' \<Longrightarrow> m' * pow2 (e' - k) = b * pow2 (- k)"
    using dbl_of_nat_Fin [of b] assms by auto
  define k where "k = - min e e'"
  have n: "scaled False m e (- k) + scaled False m' e' (- k) = (a + b) * pow2 k"
    using x(4) [of "- k"] y(4) [of "- k"] by (simp add: scaled_def sgnd_def k_def distrib_right)
  have k: "min e e' = - k" "0 \<le> k" "k \<le> 1074" using x y by (auto simp: k_def EMIN_def)
  have sum: "dbl_of_int a + dbl_of_int b = (if (a + b) * pow2 k = 0 then Fin False 0 EMIN
      else round_dyadic ((a + b) * pow2 k < 0) \<bar>(a + b) * pow2 k\<bar> (- k))"
    using x(1) y(1) k(1) n by (simp add: plus_dbl_def Let_def)
  show ?thesis
  proof (cases "a + b = 0")
    case True
    then show ?thesis using sum by (simp add: dbl_of_int_def round_dyadic_def)
  next
    case False
    then have "0 < (a + b) * pow2 k" using assms by (intro mult_pos_pos) simp_all
    then have "(a + b) * pow2 k \<noteq> 0" "\<not> (a + b) * pow2 k < 0" "\<bar>(a + b) * pow2 k\<bar> = (a + b) * pow2 k" by linarith+
    then have "dbl_of_int a + dbl_of_int b = round_dyadic False ((a + b) * pow2 k) (- k)"
      using sum by (simp only: if_False)
    then show ?thesis using round_dyadic_shift [of "a + b" k False] k assms False
      by (simp add: dbl_of_int_def)
  qed
qed

lemma dbl_of_int_0: "dbl_of_int 0 = 0"
  by (simp add: dbl_of_int_def round_dyadic_def zero_dbl_def)

text \<open>Zero is neutral for normal numbers and less than the positive ones.\<close>

lemma dbl_zero_add:
  assumes "2 ^ 52 \<le> m" and "m < 2 ^ 53" and "EMIN \<le> e" and "e \<le> EMAX"
  shows "0 + Fin False m e = Fin False m e"
proof -
  define k where "k = e - EMIN"
  have k: "0 \<le> k" "EMIN = e - k" using assms by (simp_all add: k_def)
  have m: "0 < m" using assms(1) by simp
  have "bits m = 53" using assms by (intro bits_unique) (simp_all add: pow2_eq)
  then have b: "bits (m * pow2 k) = 53 + k" using bits_shift [OF m k(1)] by simp
  have pos: "0 < m * pow2 k" using m by (intro mult_pos_pos) simp_all
  have "round_dyadic False (m * pow2 k) EMIN = finish False m e"
  proof (cases "k = 0")
    case True
    then show ?thesis using b m k by (simp add: round_dyadic_def Let_def pow2_eq)
  next
    case False
    have "EMIN + k = e" using k by simp
    moreover have "m * pow2 k \<noteq> 0" using pos by linarith
    ultimately show ?thesis using False b k(1) rne_exact [of m k]
      by (simp add: round_dyadic_def Let_def del: mult_eq_0_iff)
  qed
  moreover have "finish False m e = Fin False m e" using assms by (simp add: finish_def)
  moreover have "0 + Fin False m e = round_dyadic False (m * pow2 k) EMIN"
    using pos assms(3) by (simp add: plus_dbl_def zero_dbl_def scaled_def sgnd_def Let_def k_def round_dyadic_def [of _ 0])
  ultimately show ?thesis by simp
qed

lemma dbl_zero_less: "0 < Fin False m e \<longleftrightarrow> 0 < m"
proof -
  have "0 < m * pow2 (e - min EMIN e) \<longleftrightarrow> 0 < m" using pow2_pos [of "e - min EMIN e"] by (simp add: zero_less_mult_iff del: pow2_pos)
  then show ?thesis by (simp add: less_dbl_def zero_dbl_def scaled_def sgnd_def Let_def)
qed

end
