(* ===== verification/Cpp_String.thy ===== *)
theory Cpp_String
  imports Prelude "HOL-Library.Char_ord" "HOL-Library.List_Lexorder"
begin

text \<open>
  The character and string functions of the C++ library that the program calls, in the
  \<^verbatim>\<open>"C"\<close> locale (no code calls \<^verbatim>\<open>setlocale\<close>): classification and case conversion of a
  \<^verbatim>\<open>char\<close>, \<^verbatim>\<open>std::string::find\<close>, \<^verbatim>\<open>std::to_string\<close>, \<^verbatim>\<open>std::stoi\<close> and the
  extraction of words by \<^verbatim>\<open>operator>>\<close>. A \<^verbatim>\<open>std::string\<close> is a list of bytes, here
  \<^typ>\<open>string\<close>; a \<^verbatim>\<open>char\<close> is signed, so a byte above 127 reads as a negative \<^verbatim>\<open>int\<close> and is
  no letter, space or digit.
\<close>

section \<open>Characters\<close>

definition schar :: "char \<Rightarrow> int" where
  "schar c = (let n = of_char c in if n < 128 then n else n - 256)"

definition to_char :: "int \<Rightarrow> char" where
  "to_char i = char_of i"

definition isupper :: "char \<Rightarrow> bool" where
  "isupper c \<longleftrightarrow> 65 \<le> schar c \<and> schar c \<le> 90"

definition islower :: "char \<Rightarrow> bool" where
  "islower c \<longleftrightarrow> 97 \<le> schar c \<and> schar c \<le> 122"

definition isalpha :: "char \<Rightarrow> bool" where
  "isalpha c \<longleftrightarrow> isupper c \<or> islower c"

definition isdigit :: "char \<Rightarrow> bool" where
  "isdigit c \<longleftrightarrow> 48 \<le> schar c \<and> schar c \<le> 57"

definition isspace :: "char \<Rightarrow> bool" where
  "isspace c \<longleftrightarrow> schar c = 32 \<or> (9 \<le> schar c \<and> schar c \<le> 13)"

text \<open>\<^verbatim>\<open>std::toupper\<close> and \<^verbatim>\<open>std::tolower\<close> return an \<^verbatim>\<open>int\<close>.\<close>

definition toupper :: "char \<Rightarrow> int" where
  "toupper c = (if islower c then schar c - 32 else schar c)"

definition tolower :: "char \<Rightarrow> int" where
  "tolower c = (if isupper c then schar c + 32 else schar c)"

lemmas ctype_defs = schar_def to_char_def isupper_def islower_def isalpha_def isdigit_def
  isspace_def toupper_def tolower_def

lemma of_char_range: "0 \<le> (of_char c :: int) \<and> (of_char c :: int) \<le> 255"
proof -
  have "0 \<le> (of_char c mod 256 :: int) \<and> (of_char c mod 256 :: int) < 256"
    by (simp del: of_char_mod_256)
  then show ?thesis by simp
qed

lemma schar_range: "- 128 \<le> schar c \<and> schar c \<le> 127"
  using of_char_range [of c] by (auto simp: schar_def Let_def)

lemma char_of_int_mod: "(char_of (i mod 256 :: int) :: char) = char_of i"
  by simp

lemma to_char_schar [simp]: "to_char (schar c) = c"
proof -
  have "schar c mod 256 = of_char c"
    using of_char_range [of c] by (auto simp: schar_def Let_def)
  then have "char_of (schar c) = (char_of (of_char c :: int) :: char)"
    by (metis char_of_int_mod)
  then show ?thesis by (simp add: to_char_def)
qed

lemma schar_to_char: "\<lbrakk>0 \<le> i; i < 128\<rbrakk> \<Longrightarrow> schar (to_char i) = i"
  by (simp add: schar_def to_char_def Let_def of_char_of)

lemma schar_eq_iff: "schar a = schar b \<longleftrightarrow> a = b"
  by (metis to_char_schar)

section \<open>Letters and their positions\<close>

text \<open>The base of a letter's case and the position of a letter in the alphabet.\<close>

definition offset :: "char \<Rightarrow> int" where
  "offset c = (if islower c then 97 else 65)"

definition pos :: "char \<Rightarrow> int" where
  "pos c = schar c - offset c"

lemma isalpha_cases:
  "isalpha c \<Longrightarrow> (islower c \<and> offset c = 97 \<and> schar c = 97 + pos c)
     \<or> (isupper c \<and> \<not> islower c \<and> offset c = 65 \<and> schar c = 65 + pos c)"
  by (auto simp: isalpha_def offset_def pos_def isupper_def islower_def)

lemma pos_range: "isalpha c \<Longrightarrow> 0 \<le> pos c \<and> pos c < 26"
  by (auto simp: isalpha_def isupper_def islower_def pos_def offset_def)

lemma tolower_pos: "isalpha c \<Longrightarrow> tolower c = 97 + pos c"
  by (auto simp: isalpha_def isupper_def islower_def pos_def offset_def tolower_def)

lemma toupper_pos: "isalpha c \<Longrightarrow> toupper c = 65 + pos c"
  by (auto simp: isalpha_def isupper_def islower_def pos_def offset_def toupper_def)

text \<open>A letter with the same case at another position of the alphabet.\<close>

definition letter_at :: "int \<Rightarrow> char \<Rightarrow> char" where
  "letter_at p c = to_char (p + offset c)"

lemma schar_letter_at: "\<lbrakk>0 \<le> p; p < 26\<rbrakk> \<Longrightarrow> schar (letter_at p c) = p + offset c"
  by (simp add: letter_at_def schar_to_char offset_def)

lemma letter_at_alpha:
  assumes "0 \<le> p" "p < 26" "isalpha c"
  shows "isalpha (letter_at p c)" "islower (letter_at p c) \<longleftrightarrow> islower c"
    "offset (letter_at p c) = offset c" "pos (letter_at p c) = p"
  using assms isalpha_cases [OF assms(3)] schar_letter_at [OF assms(1,2), of c]
  by (auto simp: isalpha_def islower_def isupper_def offset_def pos_def)

lemma letter_at_pos: "letter_at (pos c) c = c"
  by (simp add: letter_at_def pos_def)

lemma letter_at_letter_at:
  "\<lbrakk>0 \<le> p; p < 26; isalpha c\<rbrakk> \<Longrightarrow> letter_at q (letter_at p c) = letter_at q c"
  by (simp add: letter_at_def [of q] letter_at_alpha)

section \<open>Strings\<close>

text \<open>\<^verbatim>\<open>s.find(c)\<close>: the first position of a character, \<^verbatim>\<open>npos\<close> is \<open>None\<close>.\<close>

fun find_char :: "char \<Rightarrow> string \<Rightarrow> nat option" where
  "find_char c [] = None"
| "find_char c (x # xs) = (if x = c then Some 0 else map_option Suc (find_char c xs))"

lemma find_char_Some:
  "find_char c s = Some n \<Longrightarrow> n < length s \<and> s ! n = c \<and> c \<notin> set (take n s)"
  by (induction s arbitrary: n) (auto split: if_splits)

lemma find_char_None: "find_char c s = None \<longleftrightarrow> c \<notin> set s"
  by (induction s) auto

text \<open>\<^verbatim>\<open>std::to_string\<close> on integers.\<close>

definition digit_char :: "int \<Rightarrow> char" where
  "digit_char d = to_char (48 + d)"

function digits_of :: "int \<Rightarrow> string" where
  "digits_of n = (if n < 10 then [digit_char n] else digits_of (n div 10) @ [digit_char (n mod 10)])"
  by pat_completeness auto
termination
  by (relation "measure nat") auto

declare digits_of.simps [simp del]

definition to_string :: "int \<Rightarrow> string" where
  "to_string n = (if n < 0 then CHR ''-'' # digits_of (- n) else digits_of n)"

text \<open>
  \<^verbatim>\<open>std::stoi\<close>: leading white space, an optional sign and as many digits as follow; what comes
  after them is ignored.
\<close>

fun read_digits :: "int \<Rightarrow> string \<Rightarrow> int" where
  "read_digits acc [] = acc"
| "read_digits acc (c # cs) = (if isdigit c then read_digits (10 * acc + (schar c - 48)) cs else acc)"

definition stoi :: "string \<Rightarrow> int res" where
  "stoi str =
     (let s = dropWhile isspace str;
          neg = (s \<noteq> [] \<and> hd s = CHR ''-'');
          t = (if s \<noteq> [] \<and> (hd s = CHR ''-'' \<or> hd s = CHR ''+'') then tl s else s)
      in if t = [] \<or> \<not> isdigit (hd t) then Inl Invalid_argument
         else let v = (if neg then - read_digits 0 t else read_digits 0 t)
              in if int_ok v then Inr v else Inl Out_of_range)"

text \<open>Repeated \<^verbatim>\<open>stream >> word\<close>: the maximal runs of characters that are not spaces.\<close>

function words_of :: "string \<Rightarrow> string list" where
  "words_of s =
     (let t = dropWhile isspace s
      in if t = [] then [] else takeWhile (\<lambda>c. \<not> isspace c) t # words_of (dropWhile (\<lambda>c. \<not> isspace c) t))"
  by pat_completeness auto
termination
proof (relation "measure length")
  fix s t
  assume t: "t = dropWhile isspace s" "t \<noteq> []"
  then have "\<not> isspace (hd t)" by (metis hd_dropWhile)
  with t(2) have "length (dropWhile (\<lambda>c. \<not> isspace c) t) < length t"
    by (cases t) (simp_all add: le_imp_less_Suc length_dropWhile_le)
  also have "\<dots> \<le> length s" using t(1) by (simp add: length_dropWhile_le)
  finally show "(dropWhile (\<lambda>c. \<not> isspace c) t, s) \<in> measure length" by simp
qed simp

declare words_of.simps [simp del]

lemma read_digits_append:
  "\<forall>c \<in> set ds. isdigit c \<Longrightarrow> read_digits a (ds @ ts) = read_digits (read_digits a ds) ts"
  by (induction ds arbitrary: a) auto

lemma digit_char_props:
  "\<lbrakk>0 \<le> d; d < 10\<rbrakk> \<Longrightarrow> isdigit (digit_char d) \<and> schar (digit_char d) = 48 + d"
  by (simp add: digit_char_def isdigit_def schar_to_char)

lemma digits_of_props:
  "0 \<le> n \<Longrightarrow> digits_of n \<noteq> [] \<and> (\<forall>c \<in> set (digits_of n). isdigit c) \<and> read_digits 0 (digits_of n) = n"
proof (induction n rule: digits_of.induct)
  case (1 n)
  show ?case
  proof (cases "n < 10")
    case True
    then show ?thesis using "1.prems" digit_char_props [of n] by (simp add: digits_of.simps [of n])
  next
    case False
    then have ih: "digits_of (n div 10) \<noteq> []" "\<forall>c \<in> set (digits_of (n div 10)). isdigit c"
      "read_digits 0 (digits_of (n div 10)) = n div 10"
      using "1.IH" "1.prems" by auto
    moreover have "isdigit (digit_char (n mod 10))" "schar (digit_char (n mod 10)) = 48 + n mod 10"
      using digit_char_props [of "n mod 10"] by simp_all
    ultimately show ?thesis
      using False by (simp add: digits_of.simps [of n] read_digits_append)
  qed
qed

lemma isdigit_not_space: "isdigit c \<Longrightarrow> \<not> isspace c \<and> c \<noteq> CHR ''-'' \<and> c \<noteq> CHR ''+''"
  by (auto simp: ctype_defs Let_def)

lemma stoi_digits:
  assumes "0 \<le> n" and "int_ok n"
  shows "stoi (digits_of n) = Inr n"
proof -
  obtain c cs where eq: "digits_of n = c # cs" and c: "isdigit c"
    using digits_of_props [OF assms(1)] by (metis list.set_intros(1) neq_Nil_conv)
  have "read_digits 0 (c # cs) = n" using digits_of_props [OF assms(1)] eq by metis
  then show ?thesis
    using isdigit_not_space [OF c] c assms(2) by (simp add: stoi_def eq Let_def del: read_digits.simps)
qed

text \<open>Printing an \<^verbatim>\<open>int\<close> and reading it back gives the same value.\<close>

lemma stoi_to_string:
  assumes "int_ok n"
  shows "stoi (to_string n) = Inr n"
proof (cases "n < 0")
  case False
  then show ?thesis using assms by (simp add: to_string_def stoi_digits)
next
  case True
  then have n: "0 \<le> - n" by simp
  obtain c cs where eq: "digits_of (- n) = c # cs" and c: "isdigit c"
    using digits_of_props [OF n] by (metis list.set_intros(1) neq_Nil_conv)
  have "read_digits 0 (c # cs) = - n" using digits_of_props [OF n] eq by metis
  moreover have "\<not> isspace CHR ''-''" by (simp add: ctype_defs)
  ultimately show ?thesis
    using True c assms by (simp add: stoi_def to_string_def eq Let_def del: read_digits.simps)
qed

end
