(* ===== verification/Json.thy ===== *)
theory Json
  imports Cpp_Double Cpp_String
begin

text \<open>
  The JSON values that the program builds and reads through the bundled
  \<^verbatim>\<open>nlohmann::json\<close> (\<^verbatim>\<open>include/nlohmann/json.hpp\<close>): the value type, the element accesses with
  their failures, the conversions of \<^verbatim>\<open>get<T>()\<close>, and the UTF-8 check of the serializer that decides
  whether \<^verbatim>\<open>dump\<close> throws. Objects are kept as association lists sorted by key, as the
  \<^verbatim>\<open>std::map\<close> of the library is. The concrete text syntax is not modelled here: the functions
  that read or write text take \<open>dump\<close> and \<open>parse\<close> as arguments.
\<close>

section \<open>Values\<close>

datatype json =
    JNull
  | JBool bool
  | JInt int                          \<comment> \<open>\<^verbatim>\<open>number_integer\<close> and \<^verbatim>\<open>number_unsigned\<close>\<close>
  | JFloat dbl
  | JStr string
  | JArr "json list"
  | JObj "(string \<times> json) list"

text \<open>An object from an initializer list.\<close>

definition mk_obj :: "(string \<times> json) list \<Rightarrow> json" where
  "mk_obj kvs = JObj (sort_key fst kvs)"

lemma map_of_insort_key: "map_of (insort_key fst p xs) = (map_of xs)(fst p \<mapsto> snd p)"
  by (induction xs) (auto simp: fun_eq_iff)

lemma map_of_sort_key [simp]: "map_of (sort_key fst kvs) = map_of kvs"
  by (induction kvs) (auto simp: map_of_insort_key)

section \<open>Element access\<close>

text \<open>\<^verbatim>\<open>at(key)\<close>, which checks its key.\<close>

fun json_at :: "string \<Rightarrow> json \<Rightarrow> json res" where
  "json_at k (JObj kvs) =
     (case map_of kvs k of None \<Rightarrow> Inl (Json_out_of_range 403) | Some v \<Rightarrow> Inr v)"
| "json_at k j = Inl (Json_type_error 304)"

text \<open>\<^verbatim>\<open>operator[]\<close> on a constant value: a missing key is an assertion failure.\<close>

fun json_index :: "string \<Rightarrow> json \<Rightarrow> json res" where
  "json_index k (JObj kvs) =
     (case map_of kvs k of None \<Rightarrow> Inl Assertion_failed | Some v \<Rightarrow> Inr v)"
| "json_index k j = Inl (Json_type_error 305)"

text \<open>
  \<^verbatim>\<open>operator[]\<close> on a mutable value: null becomes an empty object and a missing key is inserted with
  the value null, which is what the read returns.
\<close>

fun json_index_mut :: "string \<Rightarrow> json \<Rightarrow> json res" where
  "json_index_mut k (JObj kvs) = (case map_of kvs k of None \<Rightarrow> Inr JNull | Some v \<Rightarrow> Inr v)"
| "json_index_mut k JNull = Inr JNull"
| "json_index_mut k j = Inl (Json_type_error 305)"

text \<open>\<^verbatim>\<open>value(key, default)\<close>.\<close>

fun json_value :: "string \<Rightarrow> (json \<Rightarrow> 'a res) \<Rightarrow> 'a \<Rightarrow> json \<Rightarrow> 'a res" where
  "json_value k get d (JObj kvs) = (case map_of kvs k of None \<Rightarrow> Inr d | Some v \<Rightarrow> get v)"
| "json_value k get d j = Inl (Json_type_error 306)"

section \<open>Conversions\<close>

text \<open>\<^verbatim>\<open>static_cast<int>\<close> of a 64-bit integer keeps the low 32 bits.\<close>

definition wrap32 :: "int \<Rightarrow> int" where
  "wrap32 i = (i + 2147483648) mod 4294967296 - 2147483648"

lemma wrap32_id [simp]: "int_ok i \<Longrightarrow> wrap32 i = i"
  by (auto simp: wrap32_def dest!: int_okD)

fun get_int :: "json \<Rightarrow> int res" where
  "get_int (JInt i) = Inr (wrap32 i)"
| "get_int (JFloat d) = dbl_to_int d"
| "get_int (JBool b) = Inr (if b then 1 else 0)"
| "get_int j = Inl (Json_type_error 302)"

fun get_double :: "json \<Rightarrow> dbl res" where
  "get_double (JInt i) = Inr (dbl_of_int i)"
| "get_double (JFloat d) = Inr d"
| "get_double j = Inl (Json_type_error 302)"

fun get_string :: "json \<Rightarrow> string res" where
  "get_string (JStr s) = Inr s"
| "get_string j = Inl (Json_type_error 302)"

section \<open>UTF-8 check of the serializer\<close>

text \<open>The transition table \<^verbatim>\<open>utf8d\<close> of \<^verbatim>\<open>serializer::decode\<close>: the class of a byte \<dots>\<close>

definition utf8_class :: "int \<Rightarrow> int" where
  "utf8_class b =
     (if b < 128 then 0
      else if b < 144 then 1 else if b < 160 then 9 else if b < 192 then 7
      else if b < 194 then 8 else if b < 224 then 2
      else if b = 224 then 10 else if b = 237 then 4 else if b < 240 then 3
      else if b = 240 then 11 else if b < 244 then 6 else if b = 244 then 5 else 8)"

text \<open>\<dots> and the successor of a state on a class, rows \<open>s0\<close> to \<open>s8\<close> of the table.\<close>

definition utf8_rows :: "int list list" where
  "utf8_rows =
    [[0, 1, 2, 3, 5, 8, 7, 1, 1, 1, 4, 6, 1, 1, 1, 1],
     [1, 1, 1, 1, 1, 1, 1, 1, 1, 1, 1, 1, 1, 1, 1, 1],
     [1, 0, 1, 1, 1, 1, 1, 0, 1, 0, 1, 1, 1, 1, 1, 1],
     [1, 2, 1, 1, 1, 1, 1, 2, 1, 2, 1, 1, 1, 1, 1, 1],
     [1, 1, 1, 1, 1, 1, 1, 2, 1, 1, 1, 1, 1, 1, 1, 1],
     [1, 2, 1, 1, 1, 1, 1, 1, 1, 2, 1, 1, 1, 1, 1, 1],
     [1, 1, 1, 1, 1, 1, 1, 3, 1, 3, 1, 1, 1, 1, 1, 1],
     [1, 3, 1, 1, 1, 1, 1, 3, 1, 3, 1, 1, 1, 1, 1, 1],
     [1, 3, 1, 1, 1, 1, 1, 1, 1, 1, 1, 1, 1, 1, 1, 1]]"

definition utf8_decode :: "int \<Rightarrow> char \<Rightarrow> int" where
  "utf8_decode state c = utf8_rows ! nat state ! nat (utf8_class (of_char c))"

text \<open>
  \<^verbatim>\<open>dump_escaped\<close> with the strict error handler: it throws \<^verbatim>\<open>type_error\<close> 316 at the first byte
  that leads to the reject state 1, and after the last byte if the state is not the accepting 0.
\<close>

fun utf8_run :: "int \<Rightarrow> string \<Rightarrow> unit res" where
  "utf8_run st [] = (if st = 0 then Inr () else Inl (Json_type_error 316))"
| "utf8_run st (c # cs) =
     (let st' = utf8_decode st c in if st' = 1 then Inl (Json_type_error 316) else utf8_run st' cs)"

definition utf8_ok :: "string \<Rightarrow> bool" where
  "utf8_ok s \<longleftrightarrow> utf8_run 0 s = Inr ()"

text \<open>The strings that \<^verbatim>\<open>dump\<close> has to escape in a value, keys included.\<close>

fun json_strings :: "json \<Rightarrow> string list" where
  "json_strings (JStr s) = [s]"
| "json_strings (JArr js) = concat (map json_strings js)"
| "json_strings (JObj kvs) = concat (map (\<lambda>(k, v). k # json_strings v) kvs)"
| "json_strings j = []"

text \<open>\<^verbatim>\<open>dump\<close> succeeds exactly on the values whose strings are all valid UTF-8.\<close>

definition dump_ok :: "json \<Rightarrow> bool" where
  "dump_ok j \<longleftrightarrow> list_all utf8_ok (json_strings j)"

text \<open>
  The serializer with the strict error handler, up to the text \<open>ser\<close> that it writes for a value whose
  strings are valid.
\<close>

definition strict_dump :: "(json \<Rightarrow> string) \<Rightarrow> json \<Rightarrow> string res" where
  "strict_dump ser j = (if dump_ok j then Inr (ser j) else Inl (Json_type_error 316))"

lemma dump_ok_simps [simp]:
  "dump_ok JNull" "dump_ok (JBool b)" "dump_ok (JInt i)" "dump_ok (JFloat d)"
  "dump_ok (JStr s) \<longleftrightarrow> utf8_ok s" "dump_ok (JArr js) \<longleftrightarrow> (\<forall>j \<in> set js. dump_ok j)"
  "dump_ok (mk_obj kvs) \<longleftrightarrow> (\<forall>(k, v) \<in> set kvs. utf8_ok k \<and> dump_ok v)"
  by (auto simp: dump_ok_def mk_obj_def list_all_iff)

text \<open>Plain ASCII text is valid; so is what remains of it after any cut.\<close>

definition ascii :: "string \<Rightarrow> bool" where
  "ascii s \<longleftrightarrow> list_all (\<lambda>c. (of_char c :: int) < 128) s"

lemma utf8_decode_ascii: "(of_char c :: int) < 128 \<Longrightarrow> utf8_decode 0 c = 0"
  by (simp add: utf8_decode_def utf8_class_def utf8_rows_def)

lemma utf8_run_ascii: "ascii s \<Longrightarrow> utf8_run 0 s = Inr ()"
  by (induction s) (simp_all add: ascii_def utf8_decode_ascii)

lemma ascii_utf8_ok: "ascii s \<Longrightarrow> utf8_ok s"
  by (simp add: utf8_ok_def utf8_run_ascii)

lemma ascii_append [simp]: "ascii (s @ t) \<longleftrightarrow> ascii s \<and> ascii t"
  by (simp add: ascii_def)

lemma ascii_take [simp]: "ascii s \<Longrightarrow> ascii (take n s)"
  by (auto simp: ascii_def list_all_iff dest: in_set_takeD)

lemma utf8_run_append_ascii: "ascii s \<Longrightarrow> utf8_run 0 (s @ t) = utf8_run 0 t"
  by (induction s) (simp_all add: ascii_def utf8_decode_ascii)

text \<open>Non-finite numbers are written as \<^verbatim>\<open>null\<close>, so they are not read back.\<close>

fun json_finite :: "json \<Rightarrow> bool" where
  "json_finite (JFloat d) = is_finite d"
| "json_finite (JArr js) = list_all json_finite js"
| "json_finite (JObj kvs) = list_all (\<lambda>(k, v). json_finite v) kvs"
| "json_finite j = True"

end
