(* ===== verification/Search.thy ===== *)
theory Search
  imports Cpp_Double
begin

text \<open>
  Keeping the best candidate seen so far. The worker's loop over keys
  (\<^verbatim>\<open>PolyAlphabeticDecryptor::process_unit\<close>) and the coordinator's merge of worker results
  (\<^verbatim>\<open>Coordinator::cand_to_best\<close>) are both folds of one comparison with \<open><\<close> on the score. This theory
  states once, over the interface \<open>score_order\<close>, what such a fold returns and why the best of the
  workers' results is the best of all the keys.
\<close>

section \<open>The fold and its specification\<close>

definition keep_better :: "('s \<Rightarrow> 's \<Rightarrow> bool) \<Rightarrow> ('a \<Rightarrow> 's) \<Rightarrow> 'a \<Rightarrow> 'a \<Rightarrow> 'a" where
  "keep_better lt f best cand = (if lt (f cand) (f best) then cand else best)"

text \<open>
  \<open>r\<close> is a best choice for the start value \<open>b\<close> and the candidates \<open>C\<close>: one of them, with a score
  that is not NaN, and no other has a smaller score.
\<close>

definition is_best :: "('s \<Rightarrow> 's \<Rightarrow> bool) \<Rightarrow> ('s \<Rightarrow> bool) \<Rightarrow> ('a \<Rightarrow> 's) \<Rightarrow> 'a \<Rightarrow> 'a set \<Rightarrow> 'a \<Rightarrow> bool" where
  "is_best lt nan f b C r \<longleftrightarrow>
     r \<in> insert b C \<and> \<not> nan (f r) \<and> (\<forall>c \<in> insert b C. \<not> lt (f c) (f r))"

lemma foldl_keep_better_map:
  "foldl (keep_better lt f) b (map g cs) = foldl (\<lambda>a c. keep_better lt f a (g c)) b cs"
  by (simp add: foldl_map)

section \<open>Facts over a score order\<close>

context score_order
begin

lemma keep_better_best:
  assumes "is_best lt nan f b C r"
  shows "is_best lt nan f b (insert c C) (keep_better lt f r c)"
proof (cases "lt (f c) (f r)")
  case True
  then have "\<not> nan (f c)" and "\<not> lt (f r) (f c)"
    using lt_nan lt_asym by blast+
  moreover have "\<not> lt (f x) (f c)" if "x \<in> insert b C" for x
    using that assms True lt_trans unfolding is_best_def by blast
  ultimately show ?thesis
    using True lt_irrefl by (auto simp: is_best_def keep_better_def)
next
  case False
  then show ?thesis using assms by (auto simp: is_best_def keep_better_def)
qed

lemma fold_keep_better_best:
  assumes "is_best lt nan f b C r"
  shows "is_best lt nan f b (C \<union> set cs) (foldl (keep_better lt f) r cs)"
  using assms
proof (induction cs arbitrary: C r)
  case Nil
  then show ?case by simp
next
  case (Cons c cs)
  from Cons.IH [OF keep_better_best [OF Cons.prems, of c]] show ?case
    by simp
qed

lemma is_best_start: "\<not> nan (f b) \<Longrightarrow> is_best lt nan f b {} b"
  by (simp add: is_best_def lt_irrefl)

lemma foldl_best: "\<not> nan (f b) \<Longrightarrow> is_best lt nan f b (set cs) (foldl (keep_better lt f) b cs)"
  using fold_keep_better_best [OF is_best_start, of f b cs] by simp

text \<open>The first of several equally good candidates wins.\<close>

lemma foldl_first:
  assumes "\<not> nan (f b)" and "\<forall>x \<in> insert b (set as). lt (f c) (f x)"
    and "\<forall>x \<in> set bs. \<not> lt (f x) (f c)"
  shows "foldl (keep_better lt f) b (as @ c # bs) = c"
proof -
  let ?r = "foldl (keep_better lt f) b as"
  have "?r \<in> insert b (set as)"
    using foldl_best [of f b as] assms(1) unfolding is_best_def by blast
  with assms(2) have "lt (f c) (f ?r)" by blast
  then have "keep_better lt f ?r c = c" by (simp add: keep_better_def)
  moreover have "foldl (keep_better lt f) c bs = c"
    using assms(3) by (induction bs) (simp_all add: keep_better_def)
  ultimately show ?thesis by simp
qed

text \<open>The best of the bests of the blocks is a best of their union.\<close>

lemma is_best_blocks:
  assumes blocks: "\<And>i. i \<in> I \<Longrightarrow> is_best lt nan f b (C i) (r i)"
    and top: "is_best lt nan f b (r ` I) x"
  shows "is_best lt nan f b (\<Union>i \<in> I. C i) x"
proof -
  have "x \<in> insert b (\<Union>i \<in> I. C i)"
    using top blocks unfolding is_best_def by blast
  moreover have "\<not> lt (f c) (f x)" if i: "i \<in> I" and c: "c \<in> C i" for i c
  proof -
    have "\<not> lt (f c) (f (r i))" "\<not> nan (f (r i))" "\<not> lt (f (r i)) (f x)"
      using blocks [OF i] c top i unfolding is_best_def by blast+
    then show ?thesis using not_lt_trans by blast
  qed
  ultimately show ?thesis
    using top unfolding is_best_def by blast
qed

text \<open>Two best choices have the same score: neither is smaller.\<close>

lemma is_best_unique:
  "\<lbrakk>is_best lt nan f b C x; is_best lt nan f b C y\<rbrakk> \<Longrightarrow> \<not> lt (f x) (f y) \<and> \<not> lt (f y) (f x)"
  unfolding is_best_def by blast

end

end
