(* ===== verification/Units.thy ===== *)
theory Units
  imports Json Search
begin

text \<open>
  The work items: \<^verbatim>\<open>include/enums.hpp\<close> (cipher and mode) and \<^verbatim>\<open>include/Unit.hpp\<close> (a
  \<^verbatim>\<open>Unit\<close> is a closed range of key indices with its status; a \<^verbatim>\<open>Result\<close> is the best key of a
  range with its score and text), with their JSON forms used by the checkpoint file.

  A C++ scoped enumeration can hold any value of its underlying \<^verbatim>\<open>int\<close>: \<^verbatim>\<open>from_json\<close> casts
  whatever number the file has. The constructors with suffix \<open>_raw\<close> stand for the values that are
  not enumerators.
\<close>

section \<open>Enumerations\<close>

datatype CipherType = CAESAR | VIGENERE | CIPHER_XOR | CIPHER_UNKNOWN | CIPHER_raw int

datatype VigenereMode = BRUTE | FAST | MODE_UNKNOWN | MODE_raw int

datatype UnitStatus = Unassigned | Leased | Done | STATUS_raw int

text \<open>The conversions \<^verbatim>\<open>static_cast<int>\<close> and \<^verbatim>\<open>static_cast<Enum>\<close>.\<close>

fun cipher_to_int :: "CipherType \<Rightarrow> int" where
  "cipher_to_int CAESAR = 0"
| "cipher_to_int VIGENERE = 1"
| "cipher_to_int CIPHER_XOR = 2"
| "cipher_to_int CIPHER_UNKNOWN = 3"
| "cipher_to_int (CIPHER_raw i) = i"

definition int_to_cipher :: "int \<Rightarrow> CipherType" where
  "int_to_cipher i = (if i = 0 then CAESAR else if i = 1 then VIGENERE
     else if i = 2 then CIPHER_XOR else if i = 3 then CIPHER_UNKNOWN else CIPHER_raw i)"

fun mode_to_int :: "VigenereMode \<Rightarrow> int" where
  "mode_to_int BRUTE = 0"
| "mode_to_int FAST = 1"
| "mode_to_int MODE_UNKNOWN = 2"
| "mode_to_int (MODE_raw i) = i"

definition int_to_mode :: "int \<Rightarrow> VigenereMode" where
  "int_to_mode i = (if i = 0 then BRUTE else if i = 1 then FAST
     else if i = 2 then MODE_UNKNOWN else MODE_raw i)"

fun status_to_int :: "UnitStatus \<Rightarrow> int" where
  "status_to_int Unassigned = 0"
| "status_to_int Leased = 1"
| "status_to_int Done = 2"
| "status_to_int (STATUS_raw i) = i"

definition int_to_status :: "int \<Rightarrow> UnitStatus" where
  "int_to_status i = (if i = 0 then Unassigned else if i = 1 then Leased
     else if i = 2 then Done else STATUS_raw i)"

text \<open>The values a cast can produce: a raw value is not the number of an enumerator.\<close>

fun cipher_wf :: "CipherType \<Rightarrow> bool" where
  "cipher_wf (CIPHER_raw i) \<longleftrightarrow> int_ok i \<and> \<not> (0 \<le> i \<and> i \<le> 3)"
| "cipher_wf c \<longleftrightarrow> True"

fun mode_wf :: "VigenereMode \<Rightarrow> bool" where
  "mode_wf (MODE_raw i) \<longleftrightarrow> int_ok i \<and> \<not> (0 \<le> i \<and> i \<le> 2)"
| "mode_wf m \<longleftrightarrow> True"

fun status_wf :: "UnitStatus \<Rightarrow> bool" where
  "status_wf (STATUS_raw i) \<longleftrightarrow> int_ok i \<and> \<not> (0 \<le> i \<and> i \<le> 2)"
| "status_wf s \<longleftrightarrow> True"

lemma int_ok_small [simp]: "int_ok 0" "int_ok 1" "int_ok 2" "int_ok 3" "int_ok (- 1)"
  by (simp_all add: int_ok_def INT_MIN_def INT_MAX_def)

lemma cipher_cast [simp]:
  "cipher_wf c \<Longrightarrow> int_ok (cipher_to_int c) \<and> int_to_cipher (cipher_to_int c) = c"
  by (cases c) (auto simp: int_to_cipher_def)

lemma mode_cast [simp]: "mode_wf m \<Longrightarrow> int_ok (mode_to_int m) \<and> int_to_mode (mode_to_int m) = m"
  by (cases m) (auto simp: int_to_mode_def)

lemma status_cast [simp]:
  "status_wf s \<Longrightarrow> int_ok (status_to_int s) \<and> int_to_status (status_to_int s) = s"
  by (cases s) (auto simp: int_to_status_def)

section \<open>Results\<close>

record Result =
  res_key :: string
  res_score :: dbl
  res_text :: string

text \<open>The initial best result of a coordinator and of a worker.\<close>

definition init_result :: Result where
  "init_result = \<lparr>res_key = ''-1'', res_score = DBL_MAX, res_text = []\<rparr>"

definition result_to_json :: "Result \<Rightarrow> json" where
  "result_to_json r = mk_obj [(''key'', JStr (res_key r)), (''score'', JFloat (res_score r)),
                              (''text'', JStr (res_text r))]"

definition result_from_json :: "json \<Rightarrow> Result res" where
  "result_from_json j =
     bindR (bindR (json_index ''key'' j) get_string) (\<lambda>k.
     bindR (bindR (json_index ''score'' j) get_double) (\<lambda>s.
     bindR (bindR (json_index ''text'' j) get_string) (\<lambda>t.
     Inr \<lparr>res_key = k, res_score = s, res_text = t\<rparr>)))"

lemma result_json_roundtrip [simp]: "result_from_json (result_to_json r) = Inr r"
  by (cases r) (simp add: result_from_json_def result_to_json_def mk_obj_def)

section \<open>Units\<close>

record Unit =
  m_start :: int
  m_end :: int
  m_status :: UnitStatus
  m_cipher :: CipherType
  m_mode :: VigenereMode
  m_key_length :: int
  m_noise :: dbl

text \<open>The constructor: a new unit is unassigned.\<close>

definition new_Unit :: "int \<Rightarrow> int \<Rightarrow> CipherType \<Rightarrow> VigenereMode \<Rightarrow> int \<Rightarrow> dbl \<Rightarrow> Unit" where
  "new_Unit start end' cipher mode key_length noise =
     \<lparr>m_start = start, m_end = end', m_status = Unassigned, m_cipher = cipher, m_mode = mode,
      m_key_length = key_length, m_noise = noise\<rparr>"

definition is_end :: "Unit \<Rightarrow> bool" where
  "is_end u \<longleftrightarrow> m_start u = - 1 \<and> m_end u = - 1"

definition mark_as_leased :: "Unit \<Rightarrow> Unit" where
  "mark_as_leased u = u\<lparr>m_status := Leased\<rparr>"

definition mark_as_unassigned :: "Unit \<Rightarrow> Unit" where
  "mark_as_unassigned u = u\<lparr>m_status := Unassigned\<rparr>"

definition mark_as_done :: "Unit \<Rightarrow> Unit" where
  "mark_as_done u = u\<lparr>m_status := Done\<rparr>"

definition unit_to_json :: "Unit \<Rightarrow> json" where
  "unit_to_json u = mk_obj
     [(''start'', JInt (m_start u)), (''end'', JInt (m_end u)),
      (''status'', JInt (status_to_int (m_status u))),
      (''cipher'', JInt (cipher_to_int (m_cipher u))),
      (''mode'', JInt (mode_to_int (m_mode u))),
      (''key_length'', JInt (m_key_length u)), (''noise'', JFloat (m_noise u))]"

text \<open>A unit that was leased when it was saved is unassigned when it is loaded.\<close>

definition unlease :: "UnitStatus \<Rightarrow> UnitStatus" where
  "unlease s = (if s = Leased then Unassigned else s)"

definition unit_from_json :: "json \<Rightarrow> Unit res" where
  "unit_from_json j =
     bindR (bindR (json_index ''start'' j) get_int) (\<lambda>st.
     bindR (bindR (json_index ''end'' j) get_int) (\<lambda>en.
     bindR (bindR (json_index ''cipher'' j) get_int) (\<lambda>ci.
     bindR (bindR (json_index ''mode'' j) get_int) (\<lambda>mo.
     bindR (bindR (json_index ''key_length'' j) get_int) (\<lambda>kl.
     bindR (bindR (json_index ''noise'' j) get_double) (\<lambda>no.
     bindR (bindR (json_index ''status'' j) get_int) (\<lambda>stat.
     Inr ((new_Unit st en (int_to_cipher ci) (int_to_mode mo) kl no)
            \<lparr>m_status := unlease (int_to_status stat)\<rparr>))))))))"

definition unit_wf :: "Unit \<Rightarrow> bool" where
  "unit_wf u \<longleftrightarrow> int_ok (m_start u) \<and> int_ok (m_end u) \<and> int_ok (m_key_length u) \<and>
     status_wf (m_status u) \<and> cipher_wf (m_cipher u) \<and> mode_wf (m_mode u)"

text \<open>Saving and loading keeps a unit, but for the lease.\<close>

lemma unit_json_roundtrip:
  "unit_wf u \<Longrightarrow> unit_from_json (unit_to_json u) = Inr (u\<lparr>m_status := unlease (m_status u)\<rparr>)"
  by (cases u)
    (simp add: unit_from_json_def unit_to_json_def mk_obj_def unit_wf_def new_Unit_def)

lemma mark_simps [simp]:
  "m_status (mark_as_leased u) = Leased" "m_status (mark_as_unassigned u) = Unassigned"
  "m_status (mark_as_done u) = Done"
  "m_start (mark_as_leased u) = m_start u" "m_start (mark_as_unassigned u) = m_start u"
  "m_start (mark_as_done u) = m_start u"
  "m_end (mark_as_leased u) = m_end u" "m_end (mark_as_unassigned u) = m_end u"
  "m_end (mark_as_done u) = m_end u"
  by (simp_all add: mark_as_leased_def mark_as_unassigned_def mark_as_done_def)

text \<open>The key indices a unit covers.\<close>

definition unit_keys :: "Unit \<Rightarrow> int list" where
  "unit_keys u = [m_start u..m_end u]"

lemma unit_keys_mark [simp]:
  "unit_keys (mark_as_leased u) = unit_keys u" "unit_keys (mark_as_unassigned u) = unit_keys u"
  "unit_keys (mark_as_done u) = unit_keys u" "unit_keys (u\<lparr>m_status := s\<rparr>) = unit_keys u"
  by (simp_all add: unit_keys_def)

end
