(* ===== verification/Policy.thy ===== *)
theory Policy
  imports Units
begin

text \<open>
  How the key space is cut into units: the interface \<^verbatim>\<open>include/Policy.hpp\<close> as the locale
  \<open>policy\<close>, its implementation \<^verbatim>\<open>src/StaticPolicy.cpp\<close> (consecutive ranges of a fixed size) and
  the proof that the implementation keeps the contract.
\<close>

section \<open>StaticPolicy\<close>

record StaticPolicy =
  sp_total_keys :: int
  sp_unit_size :: int
  sp_current_start :: int
  sp_noise :: dbl
  sp_cipher :: CipherType
  sp_mode :: VigenereMode
  sp_key_length :: int

definition new_StaticPolicy ::
    "int \<Rightarrow> int \<Rightarrow> dbl \<Rightarrow> CipherType \<Rightarrow> VigenereMode \<Rightarrow> int \<Rightarrow> StaticPolicy" where
  "new_StaticPolicy total_keys unit_size noise cipher mode key_length =
     \<lparr>sp_total_keys = total_keys, sp_unit_size = unit_size, sp_current_start = 0,
      sp_noise = noise, sp_cipher = cipher, sp_mode = mode, sp_key_length = key_length\<rparr>"

text \<open>The unit after the last one is the end marker \<open>(-1, -1)\<close>.\<close>

definition get_next_unit :: "StaticPolicy \<Rightarrow> (Unit \<times> StaticPolicy) res" where
  "get_next_unit p =
     (if sp_current_start p \<ge> sp_total_keys p
      then Inr (new_Unit (- 1) (- 1) (sp_cipher p) (sp_mode p) (sp_key_length p) 0, p)
      else
        bindR (chk_int (sp_current_start p + sp_unit_size p)) (\<lambda>upper.
        bindR (chk_int (min upper (sp_total_keys p) - 1)) (\<lambda>end'.
        bindR (chk_int (end' + 1)) (\<lambda>start'.
        Inr (new_Unit (sp_current_start p) end' (sp_cipher p) (sp_mode p) (sp_key_length p)
               (sp_noise p),
             p\<lparr>sp_current_start := start'\<rparr>)))))"

section \<open>The interface\<close>

text \<open>
  A policy hands out the indices from \<open>lo\<close> up to, but not including, \<open>hi\<close>: as long as some are
  left, the next unit is a non-empty range that starts where the last one ended and carries the
  parameters of the task; then the end marker is returned for ever.
\<close>

definition unit_task :: "Unit \<Rightarrow> CipherType \<times> VigenereMode \<times> int \<times> dbl" where
  "unit_task u = (m_cipher u, m_mode u, m_key_length u, m_noise u)"

locale policy =
  fixes nxt :: "'p \<Rightarrow> (Unit \<times> 'p) res"
    and valid :: "'p \<Rightarrow> bool"
    and lo :: "'p \<Rightarrow> int"
    and hi :: "'p \<Rightarrow> int"
    and task :: "'p \<Rightarrow> CipherType \<times> VigenereMode \<times> int \<times> dbl"
  assumes lo_nonneg: "valid p \<Longrightarrow> 0 \<le> lo p"
    and next_end: "\<lbrakk>valid p; hi p \<le> lo p\<rbrakk> \<Longrightarrow> \<exists>u. nxt p = Inr (u, p) \<and> is_end u"
    and next_unit: "\<lbrakk>valid p; lo p < hi p\<rbrakk> \<Longrightarrow>
       \<exists>u p'. nxt p = Inr (u, p') \<and> valid p' \<and> hi p' = hi p \<and> lo p' = m_end u + 1
              \<and> m_start u = lo p \<and> lo p \<le> m_end u \<and> m_end u < hi p \<and> m_status u = Unassigned
              \<and> unit_task u = task p \<and> task p' = task p"
begin

lemma next_not_end: "\<lbrakk>valid p; lo p < hi p; nxt p = Inr (u, p')\<rbrakk> \<Longrightarrow> \<not> is_end u"
  using lo_nonneg [of p] next_unit [of p] by (auto simp: is_end_def)

end

text \<open>No sum of the static policy leaves the range of \<^verbatim>\<open>int\<close>.\<close>

definition sp_valid :: "StaticPolicy \<Rightarrow> bool" where
  "sp_valid p \<longleftrightarrow> 0 < sp_unit_size p \<and> 0 \<le> sp_current_start p
     \<and> int_ok (sp_total_keys p + sp_unit_size p)"

lemma get_next_unit_step:
  assumes "sp_valid p" and "sp_current_start p < sp_total_keys p"
  defines "e \<equiv> min (sp_current_start p + sp_unit_size p) (sp_total_keys p) - 1"
  shows "get_next_unit p =
    Inr (new_Unit (sp_current_start p) e (sp_cipher p) (sp_mode p) (sp_key_length p) (sp_noise p),
         p\<lparr>sp_current_start := e + 1\<rparr>)"
proof -
  have "int_ok (sp_current_start p + sp_unit_size p)" "int_ok e" "int_ok (e + 1)"
    using assms by (auto simp: sp_valid_def e_def intro!: int_okI dest!: int_okD)
  then show ?thesis using assms(2) by (simp add: get_next_unit_def e_def)
qed

definition sp_task :: "StaticPolicy \<Rightarrow> CipherType \<times> VigenereMode \<times> int \<times> dbl" where
  "sp_task p = (sp_cipher p, sp_mode p, sp_key_length p, sp_noise p)"

interpretation static: policy get_next_unit sp_valid sp_current_start sp_total_keys sp_task
proof unfold_locales
  fix p
  assume v: "sp_valid p"
  then show "0 \<le> sp_current_start p" by (simp add: sp_valid_def)
  show "\<exists>u. get_next_unit p = Inr (u, p) \<and> is_end u" if "sp_total_keys p \<le> sp_current_start p"
    using that by (simp add: get_next_unit_def is_end_def new_Unit_def)
  show "\<exists>u p'. get_next_unit p = Inr (u, p') \<and> sp_valid p' \<and> sp_total_keys p' = sp_total_keys p
      \<and> sp_current_start p' = m_end u + 1 \<and> m_start u = sp_current_start p
      \<and> sp_current_start p \<le> m_end u \<and> m_end u < sp_total_keys p \<and> m_status u = Unassigned
      \<and> unit_task u = sp_task p \<and> sp_task p' = sp_task p"
    if "sp_current_start p < sp_total_keys p"
    using v that by (simp add: get_next_unit_step new_Unit_def sp_valid_def unit_task_def sp_task_def)
qed

text \<open>Every unit has at most \<open>sp_unit_size\<close> keys.\<close>

lemma get_next_unit_fields:
  assumes "sp_valid p" and "get_next_unit p = Inr (u, p')" and "\<not> is_end u"
  shows "m_end u - m_start u < sp_unit_size p \<and> p' = p\<lparr>sp_current_start := sp_current_start p'\<rparr>"
proof (cases "sp_current_start p < sp_total_keys p")
  case True
  then show ?thesis using assms by (auto simp: get_next_unit_step new_Unit_def)
next
  case False
  then show ?thesis using assms by (auto simp: get_next_unit_def is_end_def new_Unit_def)
qed

end
