(* ===== verification/Ciphers.thy ===== *)
theory Ciphers
  imports Units
begin

text \<open>
  The encrypted messages of \<^verbatim>\<open>src/CaesarEncryptedMessage.cpp\<close> and
  \<^verbatim>\<open>src/VigenereEncryptedMessage.cpp\<close>: \<^verbatim>\<open>get_text\<close>, \<^verbatim>\<open>generate_key_space\<close> and
  \<^verbatim>\<open>decrypt\<close>. Each cipher is related to the textbook encryption it is meant to undo, through the
  interface \<open>letter_cipher\<close> that both implement.
\<close>

section \<open>Messages\<close>

datatype EncryptedMessage =
    CaesarEncryptedMessage string
  | VigenereEncryptedMessage string

fun get_text :: "EncryptedMessage \<Rightarrow> string" where
  "get_text (CaesarEncryptedMessage t) = t"
| "get_text (VigenereEncryptedMessage t) = t"

fun generate_key_space :: "EncryptedMessage \<Rightarrow> int list" where
  "generate_key_space (CaesarEncryptedMessage t) = [0..25]"
| "generate_key_space (VigenereEncryptedMessage t) = []"

subsection \<open>Caesar\<close>

text \<open>A key is one letter, or else a decimal number that \<^verbatim>\<open>std::stoi\<close> reads.\<close>

definition caesar_shift :: "string \<Rightarrow> int res" where
  "caesar_shift key =
     (if length key = 1 \<and> isalpha (hd key) then Inr (toupper (hd key) - 65) else stoi key)"

definition caesar_char :: "int \<Rightarrow> char \<Rightarrow> char res" where
  "caesar_char shift c =
     (if isalpha c then
        bindR (chk_int (schar c - offset c - shift)) (\<lambda>d.
        bindR (chk_int (d + 26)) (\<lambda>e.
        Inr (to_char (e smod 26 + offset c))))
      else Inr c)"

definition caesar_decrypt :: "string \<Rightarrow> string \<Rightarrow> string res" where
  "caesar_decrypt text key =
     bindR (caesar_shift key) (\<lambda>shift. sequenceR (map (caesar_char shift) text))"

subsection \<open>Vigenere\<close>

text \<open>
  The loop over the text: \<open>i\<close> is \<^verbatim>\<open>key_index\<close>, which only letters advance. All intermediate
  values are small, so no \<^verbatim>\<open>int\<close> overflows.
\<close>

fun vigenere_loop :: "string \<Rightarrow> nat \<Rightarrow> string \<Rightarrow> string" where
  "vigenere_loop key i [] = []"
| "vigenere_loop key i (c # cs) =
     (if isalpha c then
        (let shift = tolower (key ! (i mod length key)) - 97
         in to_char ((schar c - offset c - shift + 26) smod 26 + offset c)
              # vigenere_loop key (i + 1) cs)
      else c # vigenere_loop key i cs)"

definition vigenere_decrypt :: "string \<Rightarrow> string \<Rightarrow> string" where
  "vigenere_decrypt text key = (if length key = 0 then text else vigenere_loop key 0 text)"

text \<open>The virtual method \<^verbatim>\<open>EncryptedMessage::decrypt\<close>.\<close>

fun decrypt :: "EncryptedMessage \<Rightarrow> string \<Rightarrow> string res" where
  "decrypt (CaesarEncryptedMessage t) key = caesar_decrypt t key"
| "decrypt (VigenereEncryptedMessage t) key = Inr (vigenere_decrypt t key)"

section \<open>The textbook ciphers\<close>

text \<open>Move a letter by \<open>k\<close> positions within its case; other characters stay.\<close>

definition move :: "int \<Rightarrow> char \<Rightarrow> char" where
  "move k c = (if isalpha c then letter_at ((pos c + k) mod 26) c else c)"

text \<open>The shift that a key letter stands for.\<close>

abbreviation key_shift :: "char \<Rightarrow> int" where
  "key_shift k \<equiv> pos k"

definition caesar_encrypt :: "string \<Rightarrow> string \<Rightarrow> string" where
  "caesar_encrypt text key = map (move (key_shift (hd key))) text"

fun vigenere_encrypt_loop :: "string \<Rightarrow> nat \<Rightarrow> string \<Rightarrow> string" where
  "vigenere_encrypt_loop key i [] = []"
| "vigenere_encrypt_loop key i (c # cs) =
     (if isalpha c then move (key_shift (key ! (i mod length key))) c
                        # vigenere_encrypt_loop key (i + 1) cs
      else c # vigenere_encrypt_loop key i cs)"

definition vigenere_encrypt :: "string \<Rightarrow> string \<Rightarrow> string" where
  "vigenere_encrypt text key = vigenere_encrypt_loop key 0 text"

definition caesar_key :: "string \<Rightarrow> bool" where
  "caesar_key key \<longleftrightarrow> length key = 1 \<and> isalpha (hd key)"

definition vigenere_key :: "string \<Rightarrow> bool" where
  "vigenere_key key \<longleftrightarrow> key \<noteq> [] \<and> list_all isalpha key"

subsection \<open>Moving letters\<close>

lemma move_alpha [simp]: "isalpha (move k c) \<longleftrightarrow> isalpha c"
  by (simp add: move_def letter_at_alpha)

lemma islower_move [simp]: "isalpha c \<Longrightarrow> islower (move k c) \<longleftrightarrow> islower c"
  by (simp add: move_def letter_at_alpha)

lemma move_move [simp]: "move j (move k c) = move (j + k) c"
proof (cases "isalpha c")
  case True
  then have "pos (letter_at ((pos c + k) mod 26) c) = (pos c + k) mod 26"
    by (simp add: letter_at_alpha)
  moreover have "((pos c + k) mod 26 + j) mod 26 = (pos c + (j + k)) mod 26"
    by (simp add: mod_add_right_eq ac_simps)
  ultimately show ?thesis
    using True by (simp add: move_def letter_at_alpha letter_at_letter_at)
next
  case False
  then show ?thesis by (simp add: move_def)
qed

lemma move_0 [simp]: "move 0 c = c"
  using pos_range [of c] by (auto simp: move_def letter_at_pos)

text \<open>The expression of the source is a move back by the shift.\<close>

lemma shift_expr:
  assumes "isalpha c" and "s \<le> 26"
  shows "to_char ((schar c - offset c - s + 26) smod 26 + offset c) = move (- s) c"
proof -
  have "0 \<le> pos c - s + 26" using pos_range [OF assms(1)] assms by simp
  then have "(pos c - s + 26) smod 26 = (pos c + - s) mod 26"
    by (simp add: smod_nonneg)
  then show ?thesis using assms(1) by (simp add: move_def letter_at_def pos_def [symmetric])
qed

lemma caesar_char_move:
  assumes "- 1000 \<le> s" and "s < 26"
  shows "caesar_char s c = Inr (move (- s) c)"
proof (cases "isalpha c")
  case True
  then have "int_ok (schar c - offset c - s)" "int_ok (schar c - offset c - s + 26)"
    using assms pos_range [OF True] by (auto intro!: int_okI simp: pos_def)
  then show ?thesis using True assms by (simp add: caesar_char_def shift_expr)
next
  case False
  then show ?thesis by (simp add: caesar_char_def move_def)
qed

lemma caesar_shift_letter: "caesar_key key \<Longrightarrow> caesar_shift key = Inr (key_shift (hd key))"
  by (simp add: caesar_key_def caesar_shift_def toupper_pos)

lemma caesar_decrypt_map:
  "caesar_key key \<Longrightarrow> caesar_decrypt text key = Inr (map (move (- key_shift (hd key))) text)"
  using pos_range [of "hd key"]
  by (simp add: caesar_decrypt_def caesar_shift_letter caesar_char_move caesar_key_def
      cong: map_cong)

lemma vigenere_key_nth: "vigenere_key key \<Longrightarrow> isalpha (key ! (i mod length key))"
  by (simp add: vigenere_key_def list_all_length)

lemma vigenere_loop_Cons:
  assumes "vigenere_key key"
  shows "vigenere_loop key i (c # cs) =
    (if isalpha c then move (- key_shift (key ! (i mod length key))) c # vigenere_loop key (i + 1) cs
     else c # vigenere_loop key i cs)"
  using pos_range [OF vigenere_key_nth [OF assms, of i]] tolower_pos [OF vigenere_key_nth [OF assms, of i]]
  by (simp add: Let_def shift_expr)

declare vigenere_loop.simps(2) [simp del]

section \<open>The interface of a cipher\<close>

text \<open>
  A cipher over texts: decryption succeeds on every valid key, undoes encryption and is undone by
  it, and touches letters only, keeping their case.
\<close>

definition same_shape :: "string \<Rightarrow> string \<Rightarrow> bool" where
  "same_shape s t \<longleftrightarrow> list_all2 (\<lambda>a b. if isalpha a then isalpha b \<and> (islower b \<longleftrightarrow> islower a) else b = a) s t"

lemma same_shape_Cons [simp]:
  "same_shape (a # s) (b # t) \<longleftrightarrow>
     (if isalpha a then isalpha b \<and> (islower b \<longleftrightarrow> islower a) else b = a) \<and> same_shape s t"
  by (simp add: same_shape_def)

lemma same_shape_Nil [simp]: "same_shape [] []"
  by (simp add: same_shape_def)

lemma same_shape_length: "same_shape s t \<Longrightarrow> length s = length t"
  by (simp add: same_shape_def list_all2_lengthD)

locale letter_cipher =
  fixes dec :: "string \<Rightarrow> string \<Rightarrow> string res"
    and enc :: "string \<Rightarrow> string \<Rightarrow> string"
    and valid :: "string \<Rightarrow> bool"
  assumes dec_enc: "valid k \<Longrightarrow> dec (enc t k) k = Inr t"
    and enc_dec: "\<lbrakk>valid k; dec t k = Inr p\<rbrakk> \<Longrightarrow> enc p k = t"
    and dec_total: "valid k \<Longrightarrow> \<exists>p. dec t k = Inr p"
    and dec_shape: "\<lbrakk>valid k; dec t k = Inr p\<rbrakk> \<Longrightarrow> same_shape t p"
begin

lemma dec_length: "\<lbrakk>valid k; dec t k = Inr p\<rbrakk> \<Longrightarrow> length p = length t"
  using dec_shape same_shape_length by metis

lemma dec_iff: "valid k \<Longrightarrow> dec t k = Inr p \<longleftrightarrow> t = enc p k"
  using dec_enc enc_dec by blast

lemma enc_inj: "\<lbrakk>valid k; enc s k = enc t k\<rbrakk> \<Longrightarrow> s = t"
  using dec_enc by (metis sum.inject(2))

end

interpretation caesar: letter_cipher caesar_decrypt caesar_encrypt caesar_key
proof unfold_locales
  fix k t p
  assume k: "caesar_key k"
  show "caesar_decrypt (caesar_encrypt t k) k = Inr t"
    using k by (simp add: caesar_decrypt_map caesar_encrypt_def comp_def)
  show "\<exists>p. caesar_decrypt t k = Inr p"
    using k by (simp add: caesar_decrypt_map)
  assume p: "caesar_decrypt t k = Inr p"
  show "caesar_encrypt p k = t"
    using p k by (auto simp: caesar_decrypt_map caesar_encrypt_def comp_def)
  have "same_shape t (map (move n) t)" for n
    by (induction t) (auto simp: move_def letter_at_alpha)
  then show "same_shape t p"
    using p k by (auto simp: caesar_decrypt_map)
qed

lemma vigenere_dec_enc:
  "vigenere_key k \<Longrightarrow> vigenere_loop k i (vigenere_encrypt_loop k i t) = t"
  by (induction t arbitrary: i) (simp_all add: vigenere_loop_Cons)

lemma vigenere_enc_dec:
  "vigenere_key k \<Longrightarrow> vigenere_encrypt_loop k i (vigenere_loop k i t) = t"
  by (induction t arbitrary: i) (simp_all add: vigenere_loop_Cons)

lemma vigenere_loop_shape: "vigenere_key k \<Longrightarrow> same_shape t (vigenere_loop k i t)"
  by (induction t arbitrary: i) (simp_all add: vigenere_loop_Cons)

lemma vigenere_decrypt_loop: "vigenere_key k \<Longrightarrow> vigenere_decrypt t k = vigenere_loop k 0 t"
  by (simp add: vigenere_decrypt_def vigenere_key_def)

interpretation vigenere: letter_cipher "\<lambda>t k. Inr (vigenere_decrypt t k)" vigenere_encrypt vigenere_key
  by unfold_locales
    (auto simp: vigenere_decrypt_loop vigenere_encrypt_def vigenere_dec_enc vigenere_enc_dec
      vigenere_loop_shape)

section \<open>Properties\<close>

text \<open>On a single letter as key the two ciphers agree.\<close>

lemma vigenere_loop_single:
  "isalpha k \<Longrightarrow> vigenere_loop [k] i t = map (move (- key_shift k)) t"
  by (induction t arbitrary: i) (simp_all add: vigenere_loop_Cons vigenere_key_def move_def)

text \<open>Decrypting a Caesar message with the letter it was encrypted with gives the plain text.\<close>

theorem caesar_roundtrip:
  assumes "caesar_key k"
  shows "decrypt (CaesarEncryptedMessage (caesar_encrypt t k)) k = Inr t"
  using caesar.dec_enc [OF assms] by simp

theorem caesar_roundtrip_witness:
  "decrypt (CaesarEncryptedMessage ''Khoor, Zruog!'') ''D'' = Inr ''Hello, World!''"
proof -
  have "caesar_key ''D''" by code_simp
  from caesar_roundtrip [OF this, of "''Hello, World!''"]
  have "decrypt (CaesarEncryptedMessage (caesar_encrypt ''Hello, World!'' ''D'')) ''D''
        = Inr ''Hello, World!''" .
  moreover have "caesar_encrypt ''Hello, World!'' ''D'' = ''Khoor, Zruog!''" by code_simp
  ultimately show ?thesis by (simp only:)
qed

text \<open>C24. Decrypting a Vigenere message with the key word it was encrypted with gives the plain
  text, whatever the case of the key letters and however punctuation interrupts the letters.\<close>

theorem vigenere_roundtrip:
  assumes "vigenere_key k"
  shows "decrypt (VigenereEncryptedMessage (vigenere_encrypt t k)) k = Inr t"
  using vigenere.dec_enc [OF assms] by simp

theorem vigenere_roundtrip_witness:
  "decrypt (VigenereEncryptedMessage ''Hfnlp, Yosnd!'') ''abC'' = Inr ''Hello, World!''"
proof -
  have "vigenere_key ''abC''" by code_simp
  from vigenere_roundtrip [OF this, of "''Hello, World!''"]
  have "decrypt (VigenereEncryptedMessage (vigenere_encrypt ''Hello, World!'' ''abC'')) ''abC''
        = Inr ''Hello, World!''" .
  moreover have "vigenere_encrypt ''Hello, World!'' ''abC'' = ''Hfnlp, Yosnd!''" by code_simp
  ultimately show ?thesis by (simp only:)
qed

text \<open>With a valid key, decryption never fails and keeps the length of the text, every character
  that is no letter, and the case of every letter.\<close>

theorem decrypt_keeps_shape:
  assumes "case m of CaesarEncryptedMessage t \<Rightarrow> caesar_key k | VigenereEncryptedMessage t \<Rightarrow> vigenere_key k"
  shows "\<exists>p. decrypt m k = Inr p \<and> same_shape (get_text m) p"
proof (cases m)
  case (CaesarEncryptedMessage t)
  then show ?thesis using assms caesar.dec_total caesar.dec_shape by fastforce
next
  case (VigenereEncryptedMessage t)
  then show ?thesis using assms vigenere.dec_shape by simp
qed

theorem decrypt_keeps_shape_witness:
  "\<exists>p. decrypt (VigenereEncryptedMessage ''Hfnlp, Yosnd!'') ''ABC'' = Inr p
       \<and> same_shape ''Hfnlp, Yosnd!'' p"
proof -
  have "vigenere_key ''ABC''" by code_simp
  then show ?thesis
    using decrypt_keeps_shape [where m = "VigenereEncryptedMessage ''Hfnlp, Yosnd!''" and k = "''ABC''"]
    by (simp only: EncryptedMessage.case get_text.simps)
qed

text \<open>A Caesar message and a Vigenere message with the same text decrypt alike under a
  one-letter key, so the coordinator may search Caesar keys as Vigenere keys of length one.\<close>

theorem caesar_is_vigenere_1:
  assumes "isalpha k"
  shows "decrypt (CaesarEncryptedMessage t) [k] = decrypt (VigenereEncryptedMessage t) [k]"
  using assms
  by (simp add: caesar_decrypt_map caesar_key_def vigenere_decrypt_def vigenere_loop_single)

theorem caesar_is_vigenere_1_witness:
  "decrypt (CaesarEncryptedMessage ''Khoor'') ''d'' = decrypt (VigenereEncryptedMessage ''Khoor'') ''d''"
proof -
  have "isalpha CHR ''d''" by code_simp
  then show ?thesis by (rule caesar_is_vigenere_1)
qed

end
