(* ===== verification/Coordinator.thy ===== *)
theory Coordinator
  imports Policy Ciphers
begin

text \<open>
  The coordinator's bookkeeping, \<^verbatim>\<open>include/Coordinator.hpp\<close> and \<^verbatim>\<open>src/Coordinator.cpp\<close>: the
  units of a task with their status, the units that workers hold with the time they got them, the
  best result so far, and the checkpoint file. The theorems say that the units cover the key space,
  that leasing is a refinement of three sets of indices, that the counters agree with the units, and
  what a checkpoint restores.

  A worker session is known here by a number. \<^verbatim>\<open>assign_to_worker\<close> ends in a call of
  \<^verbatim>\<open>WorkerSession::send_unit\<close>; the definition returns the index that this call gets.
\<close>

section \<open>State\<close>

type_synonym worker_id = nat

text \<open>Time points of the steady clock in nanoseconds.\<close>

type_synonym time_point = int

definition UNIT_TIMEOUT :: int where "UNIT_TIMEOUT = 10 * 1000000000"

record PendingUnit =
  pu_worker :: worker_id
  pu_start_time :: time_point

record Coordinator =
  c_message :: EncryptedMessage
  c_policy :: StaticPolicy
  c_best_result :: Result
  c_done_count :: nat
  c_solved :: bool
  c_mode :: VigenereMode
  c_units :: "Unit list"
  c_pending_units :: "nat \<rightharpoonup> PendingUnit"

section \<open>Operations\<close>

text \<open>
  The loop of the constructor, over any policy. \<open>None\<close> stands for a loop that does not end, as with
  a unit size of zero.
\<close>

partial_function (option) gen_units ::
    "('p \<Rightarrow> (Unit \<times> 'p) res) \<Rightarrow> 'p \<Rightarrow> Unit list \<Rightarrow> (Unit list \<times> 'p) res option" where
  "gen_units nxt p acc =
     (case nxt p of
        Inl e \<Rightarrow> Some (Inl e)
      | Inr (u, p') \<Rightarrow> if is_end u then Some (Inr (acc, p')) else gen_units nxt p' (acc @ [u]))"

definition new_Coordinator :: "EncryptedMessage \<Rightarrow> StaticPolicy \<Rightarrow> Coordinator res option" where
  "new_Coordinator message pol =
     map_option (mapR (\<lambda>(us, pol').
       \<lparr>c_message = message, c_policy = pol', c_best_result = init_result, c_done_count = 0,
        c_solved = False, c_mode = MODE_UNKNOWN, c_units = us, c_pending_units = Map.empty\<rparr>))
     (gen_units get_next_unit pol [])"

definition set_mode :: "VigenereMode \<Rightarrow> Coordinator \<Rightarrow> Coordinator" where
  "set_mode mode c = c\<lparr>c_mode := mode\<rparr>"

text \<open>The search loop of \<^verbatim>\<open>assign_to_worker\<close>: the first unassigned unit from \<open>i\<close> on.\<close>

fun first_unassigned :: "nat \<Rightarrow> Unit list \<Rightarrow> nat option" where
  "first_unassigned i [] = None"
| "first_unassigned i (u # us) = (if m_status u = Unassigned then Some i else first_unassigned (Suc i) us)"

definition assign_to_worker :: "worker_id \<Rightarrow> time_point \<Rightarrow> Coordinator \<Rightarrow> nat option \<times> Coordinator" where
  "assign_to_worker w now c =
     (if c_solved c then (None, c)
      else case first_unassigned 0 (c_units c) of
        None \<Rightarrow> (None, c)
      | Some i \<Rightarrow>
          (Some i, c\<lparr>c_units := (c_units c)[i := mark_as_leased (c_units c ! i)],
                     c_pending_units := (c_pending_units c)(i \<mapsto> \<lparr>pu_worker = w, pu_start_time = now\<rparr>)\<rparr>))"

definition cand_to_best :: "Result \<Rightarrow> Coordinator \<Rightarrow> Coordinator" where
  "cand_to_best cand c =
     (if res_score cand < res_score (c_best_result c) then c\<lparr>c_best_result := cand\<rparr> else c)"

definition mark_unit_done :: "nat \<Rightarrow> Coordinator \<Rightarrow> (bool \<times> Coordinator) res" where
  "mark_unit_done i c =
     (if length (c_units c) \<le> i then Inl (Undefined Array_bounds)
      else if m_status (c_units c ! i) = Leased
      then Inr (True, c\<lparr>c_units := (c_units c)[i := mark_as_done (c_units c ! i)],
                        c_done_count := c_done_count c + 1,
                        c_pending_units := (c_pending_units c)(i := None)\<rparr>)
      else Inr (False, c))"

definition get_unit :: "nat \<Rightarrow> Coordinator \<Rightarrow> Unit res" where
  "get_unit i c = (if i < length (c_units c) then Inr (c_units c ! i) else Inl Out_of_range)"

definition mark_as_unassigned_by_index :: "nat \<Rightarrow> Coordinator \<Rightarrow> Coordinator res" where
  "mark_as_unassigned_by_index i c =
     (if length (c_units c) \<le> i then Inl (Undefined Array_bounds)
      else Inr (c\<lparr>c_units := (c_units c)[i := mark_as_unassigned (c_units c ! i)]\<rparr>))"

definition has_unassigned_units :: "Coordinator \<Rightarrow> bool" where
  "has_unassigned_units c \<longleftrightarrow> list_ex (\<lambda>u. m_status u = Unassigned) (c_units c)"

definition all_units_done :: "Coordinator \<Rightarrow> bool" where
  "all_units_done c \<longleftrightarrow> c_solved c \<or> list_all (\<lambda>u. m_status u = Done) (c_units c)"

definition unit_count :: "Coordinator \<Rightarrow> nat" where
  "unit_count c = length (c_units c)"

section \<open>Checkpoints\<close>

text \<open>The file system, as far as the coordinator uses it: the contents of the files by path.\<close>

type_synonym files = "string \<rightharpoonup> string"

definition task_id :: "string \<Rightarrow> string" where
  "task_id t = to_string (int (length t)) @ ''_'' @ take 32 t"

definition checkpoint_json :: "Coordinator \<Rightarrow> json" where
  "checkpoint_json c = mk_obj
     [(''task_id'', JStr (task_id (get_text (c_message c)))),
      (''text'', JStr (get_text (c_message c))),
      (''best_result'', result_to_json (c_best_result c)),
      (''units'', JArr (map unit_to_json (c_units c)))]"

text \<open>
  How the operating system answers one call of \<^verbatim>\<open>save_checkpoint\<close>: whether the temporary file can be opened, after how many
  bytes writing to it fails, if it does, and whether it can be renamed.
\<close>

record disk_io =
  io_opens :: bool
  io_room :: "nat option"
  io_renames :: bool

definition disk_fine :: disk_io where
  "disk_fine = \<lparr>io_opens = True, io_room = None, io_renames = True\<rparr>"

definition written :: "disk_io \<Rightarrow> string \<Rightarrow> string" where
  "written io s = (case io_room io of None \<Rightarrow> s | Some k \<Rightarrow> take k s)"

text \<open>
  \<^verbatim>\<open>save_checkpoint\<close>: how the call ends, and the states of the file system it goes through, in
  order. Opening the temporary file truncates it, its contents grow as they are flushed, and the
  rename replaces the checkpoint in one step. The code checks neither the state of the stream nor what
  \<^verbatim>\<open>std::rename\<close> returns: what could be written, all or not, is renamed.
\<close>

definition save_states ::
    "(json \<Rightarrow> string res) \<Rightarrow> disk_io \<Rightarrow> string \<Rightarrow> Coordinator \<Rightarrow> files \<Rightarrow> unit res \<times> files list" where
  "save_states dump io path c fs =
     (let tmp_path = path @ ''.tmp'' in
      if \<not> io_opens io then (Inr (), [])
      else case dump (checkpoint_json c) of
        Inl e \<Rightarrow> (Inl e, [fs(tmp_path \<mapsto> [])])
      | Inr s \<Rightarrow> (Inr (), map (\<lambda>k. fs(tmp_path \<mapsto> take k (written io s))) [0..<Suc (length (written io s))]
                          @ (if io_renames io then [(fs(path \<mapsto> written io s))(tmp_path := None)] else [])))"

definition save_checkpoint ::
    "(json \<Rightarrow> string res) \<Rightarrow> disk_io \<Rightarrow> string \<Rightarrow> Coordinator \<Rightarrow> files \<Rightarrow> unit res \<times> files" where
  "save_checkpoint dump io path c fs =
     (let (r, states) = save_states dump io path c fs in (r, last (fs # states)))"

text \<open>The elements that a range-based \<^verbatim>\<open>for\<close> visits in a JSON value.\<close>

fun json_elems :: "json \<Rightarrow> json list" where
  "json_elems (JArr js) = js"
| "json_elems (JObj kvs) = map snd kvs"
| "json_elems JNull = []"
| "json_elems j = [j]"

text \<open>The loop that fills \<^verbatim>\<open>m_units\<close>; an exception leaves the units read before it.\<close>

fun load_units :: "Unit list \<Rightarrow> json list \<Rightarrow> cpp_error option \<times> Unit list" where
  "load_units acc [] = (None, acc)"
| "load_units acc (j # js) =
     (case unit_from_json j of Inl e \<Rightarrow> (Some e, acc) | Inr u \<Rightarrow> load_units (acc @ [u]) js)"

definition count_done :: "Unit list \<Rightarrow> nat" where
  "count_done us = length (filter (\<lambda>u. m_status u = Done) us)"

text \<open>The handler \<^verbatim>\<open>catch (const std::exception &)\<close>: the object stays as the failure left it.\<close>

definition load_failed :: "cpp_error \<Rightarrow> Coordinator \<Rightarrow> (bool \<times> Coordinator) res" where
  "load_failed e c = (if is_exception e then Inr (False, c) else Inl e)"

definition load_checkpoint ::
    "(string \<Rightarrow> json res) \<Rightarrow> string \<Rightarrow> string \<Rightarrow> files \<Rightarrow> Coordinator \<Rightarrow> (bool \<times> Coordinator) res" where
  "load_checkpoint parse path current_text fs c =
     (case fs path of None \<Rightarrow> Inr (False, c)
      | Some s \<Rightarrow>
     (case parse s of Inl e \<Rightarrow> load_failed e c
      | Inr j \<Rightarrow>
     (case json_index_mut ''task_id'' j of Inl e \<Rightarrow> load_failed e c
      | Inr tid \<Rightarrow>
          if tid \<noteq> JStr (task_id current_text) then Inr (False, c)
          else
     (case bindR (json_index_mut ''best_result'' j) result_from_json of Inl e \<Rightarrow> load_failed e c
      | Inr best \<Rightarrow>
          let c1 = c\<lparr>c_best_result := best, c_units := []\<rparr> in
     (case json_index_mut ''units'' j of Inl e \<Rightarrow> load_failed e c1
      | Inr uj \<Rightarrow>
     (case load_units [] (json_elems uj) of
        (Some e, us) \<Rightarrow> load_failed e (c1\<lparr>c_units := us\<rparr>)
      | (None, us) \<Rightarrow>
          Inr (True, c1\<lparr>c_units := us, c_pending_units := Map.empty, c_done_count := count_done us\<rparr>)))))))"

section \<open>The constructor covers the key space\<close>

context policy
begin

lemma gen_units_total:
  assumes "valid p"
  shows "\<exists>us p'. gen_units nxt p acc = Some (Inr (acc @ us, p'))
    \<and> concat (map unit_keys us) = [lo p..hi p - 1]
    \<and> (\<forall>u \<in> set us. m_status u = Unassigned \<and> unit_task u = task p
         \<and> lo p \<le> m_start u \<and> m_start u \<le> m_end u \<and> m_end u < hi p)"
  using assms
proof (induction "nat (hi p - lo p)" arbitrary: p acc rule: less_induct)
  case less
  show ?case
  proof (cases "lo p < hi p")
    case False
    with next_end less.prems obtain u where "nxt p = Inr (u, p)" "is_end u" by fastforce
    with False show ?thesis
      by (intro exI [of _ "[]"] exI [of _ p]) (simp add: gen_units.simps [of nxt p])
  next
    case True
    with next_unit [OF less.prems] obtain u p1 where u: "nxt p = Inr (u, p1)" "valid p1"
      "hi p1 = hi p" "lo p1 = m_end u + 1" "m_start u = lo p" "lo p \<le> m_end u" "m_end u < hi p"
      "m_status u = Unassigned" "unit_task u = task p" "task p1 = task p" by blast
    have "\<not> is_end u" using next_not_end [OF less.prems True u(1)] .
    then have "gen_units nxt p acc = gen_units nxt p1 (acc @ [u])"
      using u(1) by (simp add: gen_units.simps [of nxt p])
    moreover from less.hyps [of p1 "acc @ [u]"] u True obtain us p' where us:
      "gen_units nxt p1 (acc @ [u]) = Some (Inr ((acc @ [u]) @ us, p'))"
      "concat (map unit_keys us) = [lo p1..hi p - 1]"
      "\<forall>v \<in> set us. m_status v = Unassigned \<and> unit_task v = task p
         \<and> lo p1 \<le> m_start v \<and> m_start v \<le> m_end v \<and> m_end v < hi p" by auto
    moreover have "unit_keys u @ [lo p1..hi p - 1] = [lo p..hi p - 1]"
      using upto_blocks [of "lo p" "m_end u + 1" "hi p - 1"] u by (simp add: unit_keys_def)
    ultimately show ?thesis
      using u by (intro exI [of _ "u # us"] exI [of _ p']) auto
  qed
qed

end

text \<open>What the constructor leaves: fresh units that cover the key space in order.\<close>

lemma new_Coordinator_total:
  assumes "sp_valid pol"
  obtains c where "new_Coordinator msg pol = Some (Inr c)"
    "c_message c = msg" "c_best_result c = init_result" "c_done_count c = 0" "\<not> c_solved c"
    "c_pending_units c = Map.empty"
    "concat (map unit_keys (c_units c)) = [sp_current_start pol..sp_total_keys pol - 1]"
    "\<forall>u \<in> set (c_units c). m_status u = Unassigned \<and> unit_task u = sp_task pol
       \<and> sp_current_start pol \<le> m_start u \<and> m_start u \<le> m_end u \<and> m_end u < sp_total_keys pol"
proof -
  from static.gen_units_total [OF assms, of "[]"] obtain us p' where
    "gen_units get_next_unit pol [] = Some (Inr (us, p'))"
    "concat (map unit_keys us) = [sp_current_start pol..sp_total_keys pol - 1]"
    "\<forall>u \<in> set us. m_status u = Unassigned \<and> unit_task u = sp_task pol
       \<and> sp_current_start pol \<le> m_start u \<and> m_start u \<le> m_end u \<and> m_end u < sp_total_keys pol"
    by auto
  then show ?thesis by (intro that) (auto simp: new_Coordinator_def)
qed

section \<open>Invariants\<close>

text \<open>
  The counter agrees with the units, and every pending entry is for a leased unit. \<open>tracked\<close> is the
  converse: every leased unit has a pending entry, so that it can time out.
\<close>

definition coord_inv :: "Coordinator \<Rightarrow> bool" where
  "coord_inv c \<longleftrightarrow> c_done_count c = count_done (c_units c)
     \<and> (\<forall>i \<in> dom (c_pending_units c). i < length (c_units c) \<and> m_status (c_units c ! i) = Leased)"

definition tracked :: "Coordinator \<Rightarrow> bool" where
  "tracked c \<longleftrightarrow> (\<forall>i < length (c_units c). m_status (c_units c ! i) = Leased \<longrightarrow> i \<in> dom (c_pending_units c))"

lemma first_unassigned_Some:
  "first_unassigned k us = Some i \<Longrightarrow>
     \<exists>n < length us. i = k + n \<and> m_status (us ! n) = Unassigned
       \<and> (\<forall>m < n. m_status (us ! m) \<noteq> Unassigned)"
proof (induction us arbitrary: k)
  case (Cons u us)
  show ?case
  proof (cases "m_status u = Unassigned")
    case False
    with Cons obtain n where "n < length us" "i = Suc k + n" "m_status (us ! n) = Unassigned"
      "\<forall>m < n. m_status (us ! m) \<noteq> Unassigned" by fastforce
    with False show ?thesis
      by (intro exI [of _ "Suc n"]) (auto simp: less_Suc_eq_0_disj)
  qed (use Cons.prems in auto)
qed simp

lemma first_unassigned_None:
  "first_unassigned k us = None \<longleftrightarrow> (\<forall>u \<in> set us. m_status u \<noteq> Unassigned)"
  by (induction us arbitrary: k) auto

lemmas first_unassigned_0 = first_unassigned_Some [of 0, simplified]

lemma assign_cases:
  obtains (none) "assign_to_worker w now c = (None, c)"
      "c_solved c \<or> (\<forall>u \<in> set (c_units c). m_status u \<noteq> Unassigned)"
  | (some) i where "i < length (c_units c)" "m_status (c_units c ! i) = Unassigned" "\<not> c_solved c"
      "\<forall>j < i. m_status (c_units c ! j) \<noteq> Unassigned"
      "assign_to_worker w now c = (Some i,
         c\<lparr>c_units := (c_units c)[i := mark_as_leased (c_units c ! i)],
           c_pending_units := (c_pending_units c)(i \<mapsto> \<lparr>pu_worker = w, pu_start_time = now\<rparr>)\<rparr>)"
proof (cases "first_unassigned 0 (c_units c)")
  case None
  then have "\<forall>u \<in> set (c_units c). m_status u \<noteq> Unassigned" by (simp add: first_unassigned_None)
  with None show ?thesis using none by (simp add: assign_to_worker_def)
next
  case (Some i)
  then show ?thesis using none some [of i] first_unassigned_0 [OF Some]
    by (cases "c_solved c") (simp_all add: assign_to_worker_def)
qed

lemma count_done_update:
  "i < length us \<Longrightarrow> count_done (us[i := v]) + (if m_status (us ! i) = Done then 1 else 0)
     = count_done us + (if m_status v = Done then 1 else 0)"
  unfolding count_done_def by (rule filter_list_update_length)

lemma assign_inv:
  assumes "coord_inv c"
  shows "coord_inv (snd (assign_to_worker w now c))"
proof (cases rule: assign_cases [of w now c])
  case (some i)
  then show ?thesis using assms count_done_update [of i "c_units c" "mark_as_leased (c_units c ! i)"]
    by (auto simp: coord_inv_def nth_list_update)
qed (use assms in simp)

lemma assign_tracked: "tracked c \<Longrightarrow> tracked (snd (assign_to_worker w now c))"
  by (cases rule: assign_cases [of w now c]) (auto simp: tracked_def nth_list_update)

lemma cand_to_best_fields [simp]:
  "c_units (cand_to_best r c) = c_units c" "c_pending_units (cand_to_best r c) = c_pending_units c"
  "c_done_count (cand_to_best r c) = c_done_count c" "c_solved (cand_to_best r c) = c_solved c"
  "c_message (cand_to_best r c) = c_message c"
  by (simp_all add: cand_to_best_def)

lemma cand_to_best_inv: "coord_inv c \<Longrightarrow> coord_inv (cand_to_best r c)"
  by (simp add: coord_inv_def)

lemma cand_to_best_keep:
  "c_best_result (cand_to_best r c) = keep_better dbl_less res_score (c_best_result c) r"
  by (simp add: cand_to_best_def keep_better_def less_dbl_def)

lemma mark_done_inv:
  assumes "coord_inv c" and "mark_unit_done i c = Inr (b, c')"
  shows "coord_inv c'"
proof (cases "m_status (c_units c ! i) = Leased")
  case True
  then show ?thesis
    using assms count_done_update [of i "c_units c" "mark_as_done (c_units c ! i)"]
    by (auto simp: coord_inv_def mark_unit_done_def nth_list_update split: if_splits)
qed (use assms in \<open>auto simp: mark_unit_done_def split: if_splits\<close>)

lemma mark_done_tracked: "\<lbrakk>tracked c; mark_unit_done i c = Inr (b, c')\<rbrakk> \<Longrightarrow> tracked c'"
  by (auto simp: tracked_def mark_unit_done_def nth_list_update split: if_splits)

text \<open>Giving a unit back needs its pending entry to go as well.\<close>

lemma unassign_inv:
  assumes "coord_inv c" and "mark_as_unassigned_by_index i c = Inr c'" and "i \<in> dom (c_pending_units c)"
  shows "coord_inv (c'\<lparr>c_pending_units := (c_pending_units c')(i := None)\<rparr>)"
  using assms count_done_update [of i "c_units c" "mark_as_unassigned (c_units c ! i)"]
  by (auto simp: coord_inv_def mark_as_unassigned_by_index_def nth_list_update split: if_splits)

section \<open>Leasing as sets of indices\<close>

text \<open>The contract of the bookkeeping: which units are open, which are leased and which are done.\<close>

record lease_table =
  lt_open :: "nat set"
  lt_leased :: "nat set"
  lt_done :: "nat set"

definition with_status :: "UnitStatus \<Rightarrow> Unit list \<Rightarrow> nat set" where
  "with_status s us = {i. i < length us \<and> m_status (us ! i) = s}"

definition lease_abs :: "Coordinator \<Rightarrow> lease_table" where
  "lease_abs c = \<lparr>lt_open = with_status Unassigned (c_units c), lt_leased = with_status Leased (c_units c),
                  lt_done = with_status Done (c_units c)\<rparr>"

definition lt_assign :: "lease_table \<Rightarrow> nat option \<times> lease_table" where
  "lt_assign t =
     (if lt_open t = {} then (None, t)
      else let i = Min (lt_open t)
           in (Some i, t\<lparr>lt_open := lt_open t - {i}, lt_leased := insert i (lt_leased t)\<rparr>))"

definition lt_finish :: "nat \<Rightarrow> lease_table \<Rightarrow> bool \<times> lease_table" where
  "lt_finish i t =
     (if i \<in> lt_leased t
      then (True, t\<lparr>lt_leased := lt_leased t - {i}, lt_done := insert i (lt_done t)\<rparr>)
      else (False, t))"

lemma with_status_update:
  "i < length us \<Longrightarrow> with_status s (us[i := u])
     = (if m_status u = s then insert i (with_status s us) else with_status s us - {i})"
  by (auto simp: with_status_def nth_list_update)

lemma with_status_finite [simp]: "finite (with_status s us)"
  by (simp add: with_status_def)

lemma with_status_empty: "with_status s us = {} \<longleftrightarrow> (\<forall>u \<in> set us. m_status u \<noteq> s)"
  unfolding with_status_def by (metis (mono_tags, lifting) Collect_empty_eq in_set_conv_nth)

lemma has_unassigned_abs: "has_unassigned_units c \<longleftrightarrow> lt_open (lease_abs c) \<noteq> {}"
  by (simp add: has_unassigned_units_def lease_abs_def with_status_empty list_ex_iff)

lemma all_done_abs: "\<not> c_solved c \<Longrightarrow> all_units_done c \<longleftrightarrow> lt_done (lease_abs c) = {..<unit_count c}"
  by (auto simp: all_units_done_def lease_abs_def with_status_def unit_count_def list_all_length)

section \<open>Properties\<close>

text \<open>C8. Constructing a coordinator ends for every valid policy, and its units are fresh ranges with
  the parameters of the task that cover the key space of the policy, in order and without overlap.\<close>

theorem units_cover_key_space:
  assumes "sp_valid pol"
  shows "\<exists>c. new_Coordinator msg pol = Some (Inr c) \<and> c_best_result c = init_result
    \<and> concat (map unit_keys (c_units c)) = [sp_current_start pol..sp_total_keys pol - 1]
    \<and> (\<forall>u \<in> set (c_units c). m_status u = Unassigned \<and> unit_task u = sp_task pol \<and> m_start u \<le> m_end u)"
  using new_Coordinator_total [OF assms, of msg] by metis

theorem units_cover_key_space_witness:
  "\<exists>c. new_Coordinator (CaesarEncryptedMessage ''Khoor'') (new_StaticPolicy 26 5 0 CAESAR BRUTE 1) = Some (Inr c)
    \<and> c_best_result c = init_result
    \<and> concat (map unit_keys (c_units c)) = [sp_current_start (new_StaticPolicy 26 5 0 CAESAR BRUTE 1)
         ..sp_total_keys (new_StaticPolicy 26 5 0 CAESAR BRUTE 1) - 1]
    \<and> (\<forall>u \<in> set (c_units c). m_status u = Unassigned
         \<and> unit_task u = sp_task (new_StaticPolicy 26 5 0 CAESAR BRUTE 1) \<and> m_start u \<le> m_end u)"
  by (rule units_cover_key_space) (simp add: sp_valid_def new_StaticPolicy_def int_ok_def INT_MIN_def INT_MAX_def)

text \<open>C9. Leasing implements its contract on sets of indices: the worker gets the least open unit,
  which becomes leased, and nothing if there is none.\<close>

theorem assign_refines:
  assumes "\<not> c_solved c"
  shows "map_prod id lease_abs (assign_to_worker w now c) = lt_assign (lease_abs c)"
proof (cases rule: assign_cases [of w now c])
  case none
  then show ?thesis using assms by (simp add: lt_assign_def lease_abs_def with_status_empty)
next
  case (some i)
  have min: "Min (with_status Unassigned (c_units c)) = i"
  proof (rule Min_eqI)
    show "i \<le> j" if "j \<in> with_status Unassigned (c_units c)" for j
      using that some(4) leI unfolding with_status_def by blast
  qed (use some in \<open>simp_all add: with_status_def\<close>)
  have mem: "i \<in> with_status Unassigned (c_units c)" using some by (simp add: with_status_def)
  moreover have "i \<notin> with_status Done (c_units c)" using some by (simp add: with_status_def)
  moreover have "with_status Unassigned (c_units c) \<noteq> {}" using mem by blast
  ultimately show ?thesis
    using some(1,5) min by (simp add: lt_assign_def lease_abs_def with_status_update Let_def)
qed

theorem assign_refines_witness:
  "map_prod id lease_abs (assign_to_worker 7 0
      \<lparr>c_message = CaesarEncryptedMessage ''Khoor'', c_policy = new_StaticPolicy 26 5 0 CAESAR BRUTE 1,
       c_best_result = init_result, c_done_count = 0, c_solved = False, c_mode = BRUTE,
       c_units = [new_Unit 0 4 CAESAR BRUTE 1 0], c_pending_units = Map.empty\<rparr>)
   = lt_assign (lease_abs
      \<lparr>c_message = CaesarEncryptedMessage ''Khoor'', c_policy = new_StaticPolicy 26 5 0 CAESAR BRUTE 1,
       c_best_result = init_result, c_done_count = 0, c_solved = False, c_mode = BRUTE,
       c_units = [new_Unit 0 4 CAESAR BRUTE 1 0], c_pending_units = Map.empty\<rparr>)"
  by (rule assign_refines) simp

text \<open>C10. A report for a unit of the task marks it done exactly if it was leased; the counter and the
  pending table keep agreeing with the units.\<close>

theorem mark_done_refines:
  assumes "i < unit_count c"
  shows "\<exists>b c'. mark_unit_done i c = Inr (b, c') \<and> (b, lease_abs c') = lt_finish i (lease_abs c)
    \<and> (coord_inv c \<longrightarrow> coord_inv c') \<and> (tracked c \<longrightarrow> tracked c')"
proof -
  have i: "i < length (c_units c)" using assms by (simp add: unit_count_def)
  then obtain b c' where r: "mark_unit_done i c = Inr (b, c')"
    by (cases "m_status (c_units c ! i) = Leased") (simp_all add: mark_unit_done_def)
  have "(b, lease_abs c') = lt_finish i (lease_abs c)"
  proof (cases "m_status (c_units c ! i) = Leased")
    case True
    then have "i \<in> with_status Leased (c_units c)" "i \<notin> with_status Unassigned (c_units c)"
      using i by (simp_all add: with_status_def)
    then show ?thesis using True i r
      by (auto simp: mark_unit_done_def lt_finish_def lease_abs_def with_status_update)
  next
    case False
    then show ?thesis using i r
      by (simp add: mark_unit_done_def lt_finish_def lease_abs_def with_status_def)
  qed
  then show ?thesis using r mark_done_inv mark_done_tracked by blast
qed

theorem mark_done_refines_witness:
  "\<exists>b c'. mark_unit_done 0
      \<lparr>c_message = CaesarEncryptedMessage ''Khoor'', c_policy = new_StaticPolicy 26 5 0 CAESAR BRUTE 1,
       c_best_result = init_result, c_done_count = 0, c_solved = False, c_mode = BRUTE,
       c_units = [mark_as_leased (new_Unit 0 4 CAESAR BRUTE 1 0)],
       c_pending_units = [0 \<mapsto> \<lparr>pu_worker = 7, pu_start_time = 0\<rparr>]\<rparr> = Inr (b, c')
    \<and> (b, lease_abs c') = lt_finish 0 (lease_abs
      \<lparr>c_message = CaesarEncryptedMessage ''Khoor'', c_policy = new_StaticPolicy 26 5 0 CAESAR BRUTE 1,
       c_best_result = init_result, c_done_count = 0, c_solved = False, c_mode = BRUTE,
       c_units = [mark_as_leased (new_Unit 0 4 CAESAR BRUTE 1 0)],
       c_pending_units = [0 \<mapsto> \<lparr>pu_worker = 7, pu_start_time = 0\<rparr>]\<rparr>)
    \<and> coord_inv c' \<and> tracked c'"
  using mark_done_refines [of 0 "\<lparr>c_message = CaesarEncryptedMessage ''Khoor'',
       c_policy = new_StaticPolicy 26 5 0 CAESAR BRUTE 1,
       c_best_result = init_result, c_done_count = 0, c_solved = False, c_mode = BRUTE,
       c_units = [mark_as_leased (new_Unit 0 4 CAESAR BRUTE 1 0)],
       c_pending_units = [0 \<mapsto> \<lparr>pu_worker = 7, pu_start_time = 0\<rparr>]\<rparr>"]
  by (simp add: unit_count_def coord_inv_def tracked_def count_done_def split: if_splits)

end
