(* ===== verification/Checkpoint.thy ===== *)
theory Checkpoint
  imports Coordinator
begin

text \<open>
  What a checkpoint keeps and what it does not: the properties of \<^verbatim>\<open>save_checkpoint\<close> and
  \<^verbatim>\<open>load_checkpoint\<close> of \<^verbatim>\<open>src/Coordinator.cpp\<close>. The text layer of the JSON library is a pair
  of arguments \<open>dump\<close> and \<open>parse\<close>; where a theorem needs it, it assumes of the one value at hand that
  \<open>parse\<close> reads back what \<open>dump\<close> wrote.
\<close>

section \<open>Loading\<close>

definition restored :: "Unit list \<Rightarrow> Unit list" where
  "restored us = map (\<lambda>u. u\<lparr>m_status := unlease (m_status u)\<rparr>) us"

lemma load_units_ok:
  "list_all unit_wf us \<Longrightarrow> load_units acc (map unit_to_json us @ js) = load_units (acc @ restored us) js"
  by (induction us arbitrary: acc) (simp_all add: restored_def unit_json_roundtrip)

lemma load_units_all: "list_all unit_wf us \<Longrightarrow> load_units [] (map unit_to_json us) = (None, restored us)"
  using load_units_ok [of us "[]" "[]"] by simp

lemma count_done_restored [simp]: "count_done (restored us) = count_done us"
proof -
  have "m_status (u\<lparr>m_status := unlease (m_status u)\<rparr>) = Done \<longleftrightarrow> m_status u = Done" for u :: Unit
    by (simp add: unlease_def)
  then show ?thesis by (simp add: count_done_def restored_def filter_map comp_def)
qed

lemma unit_keys_restored: "map unit_keys (restored us) = map unit_keys us"
  by (simp add: restored_def comp_def)

text \<open>A file whose task id fits: the units and the best result are read in this order.\<close>

lemma load_checkpoint_fits:
  assumes "fs path = Some s" and "parse s = Inr (mk_obj
      [(''task_id'', JStr (task_id t)), (''text'', x), (''best_result'', result_to_json r), (''units'', JArr js)])"
  shows "load_checkpoint parse path t fs c =
    (case load_units [] js of
       (Some e, us) \<Rightarrow> load_failed e (c\<lparr>c_best_result := r, c_units := us\<rparr>)
     | (None, us) \<Rightarrow> Inr (True, c\<lparr>c_best_result := r, c_units := us, c_pending_units := Map.empty,
                                  c_done_count := count_done us\<rparr>))"
  using assms by (cases "load_units [] js") (simp add: load_checkpoint_def mk_obj_def Let_def split: option.split)

lemma save_checkpoint_ok:
  "dump (checkpoint_json c) = Inr s \<Longrightarrow> snd (save_checkpoint dump disk_fine path c fs) path = Some s"
  by (simp add: save_checkpoint_def save_states_def disk_fine_def written_def Let_def)

text \<open>The checkpoint file in the states that saving goes through, and after it.\<close>

lemma written_prefix: "\<exists>k. written io s = take k s"
  by (cases "io_room io") (auto simp: written_def intro: exI [of _ "length s"])

lemma written_whole [simp]: "io_room io = None \<Longrightarrow> written io s = s"
  by (simp add: written_def)

lemma save_states_at:
  assumes "fs' \<in> set (snd (save_states dump io path c fs))"
  shows "fs' path = fs path \<or> (\<exists>s. dump (checkpoint_json c) = Inr s \<and> fs' path = Some (written io s))"
  using assms by (cases "dump (checkpoint_json c)") (auto simp: save_states_def Let_def split: if_splits)

lemma save_checkpoint_at:
  assumes "save_checkpoint dump io path c fs = (r, fs')"
  shows "fs' path = fs path \<or> (\<exists>s. dump (checkpoint_json c) = Inr s \<and> fs' path = Some (written io s))"
proof -
  have "fs' = last (fs # snd (save_states dump io path c fs))"
    using assms by (simp add: save_checkpoint_def split_beta)
  then have "fs' = fs \<or> fs' \<in> set (snd (save_states dump io path c fs))"
    by (metis last.simps last_in_set)
  then show ?thesis using save_states_at [of fs'] by blast
qed

section \<open>Which checkpoints can be written\<close>

text \<open>A valid text with a two-byte character at bytes 31 and 32.\<close>

definition cut_text :: string where
  "cut_text = replicate 31 CHR ''A'' @ [CHR 0xC3, CHR 0xA9]"

lemma utf8_ok_keys:
  "utf8_ok ''task_id''" "utf8_ok ''text''" "utf8_ok ''best_result''" "utf8_ok ''units''" "utf8_ok ''key''"
  "utf8_ok ''score''" "utf8_ok ''start''" "utf8_ok ''end''" "utf8_ok ''status''" "utf8_ok ''cipher''"
  "utf8_ok ''mode''" "utf8_ok ''key_length''" "utf8_ok ''noise''"
  by (rule ascii_utf8_ok, code_simp)+

lemma digit_ascii: "isdigit c \<Longrightarrow> (of_char c :: int) < 128"
  using of_char_range [of c] by (auto simp: isdigit_def schar_def Let_def split: if_splits)

lemma digits_of_ascii: "0 \<le> n \<Longrightarrow> ascii (digits_of n)"
  using digits_of_props [of n] digit_ascii by (simp add: ascii_def list_all_iff)

lemma utf8_ok_task_id: "utf8_ok (task_id t) \<longleftrightarrow> utf8_ok (take 32 t)"
proof -
  have "ascii (to_string (int (length t)) @ ''_'')"
    using digits_of_ascii [of "int (length t)"] by (simp add: to_string_def) (simp add: ascii_def)
  from utf8_run_append_ascii [OF this, of "take 32 t"] show ?thesis by (simp add: utf8_ok_def task_id_def)
qed

lemma checkpoint_dump_ok:
  "dump_ok (checkpoint_json c) \<longleftrightarrow>
     utf8_ok (get_text (c_message c)) \<and> utf8_ok (take 32 (get_text (c_message c)))
     \<and> utf8_ok (res_key (c_best_result c)) \<and> utf8_ok (res_text (c_best_result c))"
  unfolding checkpoint_json_def result_to_json_def unit_to_json_def
  by (auto simp: utf8_ok_keys utf8_ok_task_id)

section \<open>Properties\<close>

text \<open>A checkpoint restores the work that was done, for a value that the text layer reads back.\<close>

lemma checkpoint_roundtrip:
  assumes "dump (checkpoint_json c) = Inr s" and "parse s = Inr (checkpoint_json c)"
    and "list_all unit_wf (c_units c)"
  shows "load_checkpoint parse path (get_text (c_message c)) (snd (save_checkpoint dump disk_fine path c fs)) c0
    = Inr (True, c0\<lparr>c_best_result := c_best_result c, c_units := restored (c_units c),
                     c_pending_units := Map.empty, c_done_count := count_done (c_units c)\<rparr>)"
proof -
  have "snd (save_checkpoint dump disk_fine path c fs) path = Some s"
    using assms(1) by (rule save_checkpoint_ok)
  then show ?thesis
    using load_checkpoint_fits [of _ path s parse "get_text (c_message c)" _ "c_best_result c"
        "map unit_to_json (c_units c)" c0] assms(2,3)
    by (simp add: checkpoint_json_def load_units_all)
qed

text \<open>A coordinator of one leased and one finished unit, for the examples.\<close>

definition demo :: Coordinator where
  "demo = \<lparr>c_message = CaesarEncryptedMessage ''Khoor'', c_policy = new_StaticPolicy 26 5 0 CAESAR BRUTE 1,
           c_best_result = \<lparr>res_key = ''D'', res_score = 1, res_text = ''Hello''\<rparr>, c_done_count = 1,
           c_solved = False, c_mode = BRUTE,
           c_units = [mark_as_done (new_Unit 0 4 CAESAR BRUTE 1 0), mark_as_leased (new_Unit 5 9 CAESAR BRUTE 1 0)],
           c_pending_units = [1 \<mapsto> \<lparr>pu_worker = 7, pu_start_time = 0\<rparr>]\<rparr>"

lemma demo_wf: "list_all unit_wf (c_units demo)"
  by (simp add: demo_def unit_wf_def new_Unit_def mark_as_done_def mark_as_leased_def int_ok_def INT_MAX_def INT_MIN_def)

text \<open>The task id holds the length and the first 32 bytes of the text and nothing else: a checkpoint
  of another task whose text agrees in these replaces the units of the current task, whatever their
  cipher, key length or ranges.\<close>

theorem checkpoint_of_other_task:
  assumes "dump (checkpoint_json c) = Inr s" and "parse s = Inr (checkpoint_json c)"
    and "list_all unit_wf (c_units c)"
    and "length t = length (get_text (c_message c))" and "take 32 t = take 32 (get_text (c_message c))"
  shows "\<exists>c'. load_checkpoint parse path t (snd (save_checkpoint dump disk_fine path c fs)) c0 = Inr (True, c')
    \<and> c_units c' = restored (c_units c) \<and> c_best_result c' = c_best_result c"
proof -
  have "snd (save_checkpoint dump disk_fine path c fs) path = Some s"
    using assms(1) by (rule save_checkpoint_ok)
  moreover have "task_id t = task_id (get_text (c_message c))" using assms(4,5) by (simp add: task_id_def)
  ultimately show ?thesis
    using load_checkpoint_fits [of _ path s parse t _ "c_best_result c" "map unit_to_json (c_units c)" c0]
      assms(2,3) by (simp add: checkpoint_json_def load_units_all)
qed

text \<open>Here a brute-force task is resumed with the single unit of a Caesar task.\<close>

theorem checkpoint_of_other_task_witness:
  "\<exists>c'. load_checkpoint (\<lambda>s. Inr (checkpoint_json demo)) ''cp'' ''Khoor''
      (snd (save_checkpoint (\<lambda>j. Inr ''{}'') disk_fine ''cp'' demo Map.empty))
      (demo\<lparr>c_message := VigenereEncryptedMessage ''Khoor'', c_units := [new_Unit 0 675 VIGENERE BRUTE 2 0]\<rparr>)
      = Inr (True, c')
    \<and> c_units c' = restored (c_units demo) \<and> c_best_result c' = c_best_result demo"
  by (rule checkpoint_of_other_task [where s = "''{}''"]) (simp_all add: demo_wf, simp_all add: demo_def)

text \<open>C40. A checkpoint that breaks off in the list of units is reported as not loaded, but the
  coordinator has lost its own units and best result: it keeps those read before the failure, and
  the counter is not that of these units. With none read before, every unit counts as done.\<close>

theorem load_failure_keeps_prefix:
  assumes "fs path = Some s" and "list_all unit_wf us" and "unit_from_json bad = Inl e" and "is_exception e"
    and "parse s = Inr (mk_obj [(''task_id'', JStr (task_id t)), (''text'', JStr t),
           (''best_result'', result_to_json r), (''units'', JArr (map unit_to_json us @ bad # js))])"
  shows "load_checkpoint parse path t fs c = Inr (False, c\<lparr>c_best_result := r, c_units := restored us\<rparr>)"
  using load_checkpoint_fits [of fs path s parse t "JStr t" r "map unit_to_json us @ bad # js" c] assms
  by (simp add: load_units_ok load_failed_def)

theorem load_failure_keeps_prefix_witness:
  "load_checkpoint (\<lambda>s. Inr (mk_obj [(''task_id'', JStr (task_id ''Khoor'')), (''text'', JStr ''Khoor''),
        (''best_result'', result_to_json init_result), (''units'', JArr (map unit_to_json [] @ JNull # []))]))
      ''cp'' ''Khoor'' [''cp'' \<mapsto> ''{}''] demo
    = Inr (False, demo\<lparr>c_best_result := init_result, c_units := restored []\<rparr>)
   \<and> all_units_done (demo\<lparr>c_best_result := init_result, c_units := restored []\<rparr>)"
proof
  show "load_checkpoint (\<lambda>s. Inr (mk_obj [(''task_id'', JStr (task_id ''Khoor'')), (''text'', JStr ''Khoor''),
        (''best_result'', result_to_json init_result), (''units'', JArr (map unit_to_json [] @ JNull # []))]))
      ''cp'' ''Khoor'' [''cp'' \<mapsto> ''{}''] demo
    = Inr (False, demo\<lparr>c_best_result := init_result, c_units := restored []\<rparr>)"
    by (rule load_failure_keeps_prefix [where s = "''{}''" and e = "Json_type_error 305"])
      (simp_all add: unit_from_json_def)
qed (simp add: all_units_done_def restored_def)

text \<open>Writing a checkpoint succeeds exactly if the text, its first 32 bytes and the strings of the
  best result are valid UTF-8. A valid text that has a character across byte 32 is not enough.\<close>

theorem checkpoint_dump_iff:
  "(dump_ok (checkpoint_json c) \<longleftrightarrow>
      utf8_ok (get_text (c_message c)) \<and> utf8_ok (take 32 (get_text (c_message c)))
      \<and> utf8_ok (res_key (c_best_result c)) \<and> utf8_ok (res_text (c_best_result c)))
   \<and> utf8_ok cut_text \<and> \<not> dump_ok (checkpoint_json (c\<lparr>c_message := VigenereEncryptedMessage cut_text\<rparr>))"
proof -
  note iff = checkpoint_dump_ok
  have "utf8_ok cut_text" unfolding utf8_ok_def by code_simp
  moreover have "\<not> utf8_ok (take 32 cut_text)" unfolding utf8_ok_def by code_simp
  ultimately show ?thesis using iff by simp
qed

end
