(* ===== verification/Keys.thy ===== *)
theory Keys
  imports Units
begin

text \<open>
  Keys as numbers: the lambdas \<^verbatim>\<open>index_to_key\<close> and \<^verbatim>\<open>increment_key\<close> of
  \<^verbatim>\<open>PolyAlphabeticDecryptor::process_unit\<close>, \<^verbatim>\<open>index_to_vigenere_key\<close> of
  \<^verbatim>\<open>WorkerSession::send_unit\<close> (the same code) and \<^verbatim>\<open>key_to_index\<close> of
  \<^verbatim>\<open>Worker::handle_message\<close>. A key of length \<open>n\<close> is a number below \<open>26^n\<close> in base 26 with the
  digits \<^verbatim>\<open>A\<close> to \<^verbatim>\<open>Z\<close>, most significant first; the coordinator sends ranges as keys and the
  worker enumerates them by incrementing, so the three conversions have to agree.
\<close>

section \<open>The conversions\<close>

fun index_to_key :: "int \<Rightarrow> nat \<Rightarrow> string" where
  "index_to_key idx 0 = []"
| "index_to_key idx (Suc n) = index_to_key (idx sdiv 26) n @ [to_char (65 + idx smod 26)]"

text \<open>\<^verbatim>\<open>increment_key\<close> walks from the last letter to the first.\<close>

fun increment_rev :: "string \<Rightarrow> string" where
  "increment_rev [] = []"
| "increment_rev (c # cs) =
     (if schar c < 90 then to_char (schar c + 1) # cs else CHR ''A'' # increment_rev cs)"

definition increment_key :: "string \<Rightarrow> string" where
  "increment_key key = rev (increment_rev (rev key))"

text \<open>\<^verbatim>\<open>key_to_index\<close> computes in \<^verbatim>\<open>int\<close>.\<close>

fun key_to_index_loop :: "int \<Rightarrow> string \<Rightarrow> int res" where
  "key_to_index_loop idx [] = Inr idx"
| "key_to_index_loop idx (c # cs) =
     bindR (chk_int (idx * 26)) (\<lambda>m.
     bindR (chk_int (m + (schar c - 65))) (\<lambda>i. key_to_index_loop i cs))"

definition key_to_index :: "string \<Rightarrow> int res" where
  "key_to_index key = key_to_index_loop 0 key"

section \<open>Base 26\<close>

definition upper_key :: "string \<Rightarrow> bool" where
  "upper_key k \<longleftrightarrow> list_all isupper k"

definition key_value :: "string \<Rightarrow> int" where
  "key_value k = foldl (\<lambda>i c. i * 26 + (schar c - 65)) 0 k"

lemma key_value_snoc [simp]: "key_value (k @ [c]) = key_value k * 26 + (schar c - 65)"
  by (simp add: key_value_def)

lemma key_value_Nil [simp]: "key_value [] = 0"
  by (simp add: key_value_def)

lemma digit_letter:
  assumes "0 \<le> i"
  shows "schar (to_char (65 + i smod 26)) = 65 + i mod 26" "isupper (to_char (65 + i smod 26))"
proof -
  have "schar (to_char (65 + i smod 26)) = 65 + i mod 26"
    using assms by (simp add: smod_nonneg schar_to_char)
  then show "schar (to_char (65 + i smod 26)) = 65 + i mod 26"
    "isupper (to_char (65 + i smod 26))" by (simp_all add: isupper_def)
qed

lemma length_index_to_key [simp]: "length (index_to_key i n) = n"
  by (induction n arbitrary: i) simp_all

lemma index_to_key_upper: "0 \<le> i \<Longrightarrow> upper_key (index_to_key i n)"
  by (induction n arbitrary: i) (simp_all add: upper_key_def digit_letter sdiv_nonneg)

lemma key_value_index: "\<lbrakk>0 \<le> i; i < 26 ^ n\<rbrakk> \<Longrightarrow> key_value (index_to_key i n) = i"
proof (induction n arbitrary: i)
  case 0
  then show ?case by simp
next
  case (Suc n)
  then have "key_value (index_to_key (i div 26) n) = i div 26"
    by (intro Suc.IH) (simp_all add: div_less_iff_less_mult mult.commute)
  then show ?case using Suc.prems by (simp add: digit_letter sdiv_nonneg)
qed

lemma upper_key_snoc [simp]: "upper_key (k @ [c]) \<longleftrightarrow> upper_key k \<and> isupper c"
  by (simp add: upper_key_def)

lemma key_value_bounds: "upper_key k \<Longrightarrow> 0 \<le> key_value k \<and> key_value k < 26 ^ length k"
  by (induction k rule: rev_induct) (auto simp: isupper_def)

lemma index_key_value: "upper_key k \<Longrightarrow> index_to_key (key_value k) (length k) = k"
proof (induction k rule: rev_induct)
  case Nil
  then show ?case by simp
next
  case (snoc c k)
  then have k: "upper_key k" and c: "65 \<le> schar c" "schar c \<le> 90"
    by (auto simp: isupper_def)
  let ?v = "key_value k * 26 + (schar c - 65)"
  have v: "0 \<le> ?v" "?v div 26 = key_value k" "?v mod 26 = schar c - 65"
    using key_value_bounds [OF k] c by simp_all
  then show ?case
    using snoc.IH [OF k] by (simp add: sdiv_nonneg smod_nonneg)
qed

lemma upper_keys_eq_iff:
  "\<lbrakk>upper_key k; upper_key k'; length k = length k'; key_value k = key_value k'\<rbrakk> \<Longrightarrow> k = k'"
  by (metis index_key_value)

section \<open>Agreement of the conversions\<close>

lemma increment_snoc:
  "increment_key (k @ [c]) =
     (if schar c < 90 then k @ [to_char (schar c + 1)] else increment_key k @ [CHR ''A''])"
  by (simp add: increment_key_def)

lemma increment_value:
  "\<lbrakk>upper_key k; key_value k + 1 < 26 ^ length k\<rbrakk>
     \<Longrightarrow> upper_key (increment_key k) \<and> length (increment_key k) = length k
         \<and> key_value (increment_key k) = key_value k + 1"
proof (induction k rule: rev_induct)
  case Nil
  then show ?case by simp
next
  case (snoc c k)
  then have k: "upper_key k" and c: "65 \<le> schar c" "schar c \<le> 90"
    by (auto simp: isupper_def)
  show ?case
  proof (cases "schar c < 90")
    case True
    then have "schar (to_char (schar c + 1)) = schar c + 1"
      using c by (simp add: schar_to_char)
    then show ?thesis using True k c by (simp add: increment_snoc isupper_def)
  next
    case False
    then have c90: "schar c = 90" using c by simp
    then have "key_value k + 1 < 26 ^ length k" using snoc.prems by simp
    then have "upper_key (increment_key k)" "length (increment_key k) = length k"
      "key_value (increment_key k) = key_value k + 1"
      using snoc.IH k by blast+
    moreover have "schar CHR ''A'' = 65" by (simp add: schar_def)
    ultimately show ?thesis using c90 by (simp add: increment_snoc isupper_def)
  qed
qed

lemma increment_index:
  assumes "0 \<le> i" and "i + 1 < 26 ^ n"
  shows "increment_key (index_to_key i n) = index_to_key (i + 1) n"
proof -
  let ?k = "index_to_key i n"
  have v: "key_value ?k = i" using assms by (simp add: key_value_index)
  then have "upper_key (increment_key ?k)" "length (increment_key ?k) = n"
    "key_value (increment_key ?k) = i + 1"
    using increment_value [of ?k] assms index_to_key_upper [of i n] by simp_all
  moreover have "key_value (index_to_key (i + 1) n) = i + 1" "upper_key (index_to_key (i + 1) n)"
    using assms by (simp_all add: key_value_index index_to_key_upper)
  ultimately show ?thesis by (intro upper_keys_eq_iff) simp_all
qed

lemma key_to_index_loop_snoc:
  "key_to_index_loop i (k @ [c]) =
     bindR (key_to_index_loop i k) (\<lambda>j.
     bindR (chk_int (j * 26)) (\<lambda>m. chk_int (m + (schar c - 65))))"
proof (induction k arbitrary: i)
  case Nil
  then show ?case by (simp add: bindR_def split: sum.splits)
next
  case (Cons a k)
  then show ?case by (simp add: bindR_assoc)
qed

lemma key_to_index_upper:
  "\<lbrakk>upper_key k; int_ok (key_value k)\<rbrakk> \<Longrightarrow> key_to_index k = Inr (key_value k)"
proof (induction k rule: rev_induct)
  case Nil
  then show ?case by (simp add: key_to_index_def)
next
  case (snoc c k)
  then have k: "upper_key k" and c: "65 \<le> schar c"
    by (auto simp: isupper_def)
  have "0 \<le> key_value k" using key_value_bounds [OF k] by simp
  then have "int_ok (key_value k)" "int_ok (key_value k * 26)"
    "int_ok (key_value k * 26 + (schar c - 65))"
    using int_okD [OF snoc.prems(2)] c by (auto intro!: int_okI)
  then show ?case
    using snoc.IH [OF k] by (simp add: key_to_index_def key_to_index_loop_snoc)
qed

lemma key_to_index_of_index:
  assumes "0 \<le> i" and "i < 26 ^ n" and "int_ok i"
  shows "key_to_index (index_to_key i n) = Inr i"
  using assms key_to_index_upper [of "index_to_key i n"]
  by (simp add: index_to_key_upper key_value_index)

section \<open>Properties\<close>

text \<open>C25. The bounds of a range survive the wire: the worker's \<^verbatim>\<open>key_to_index\<close> reads back the index
  from the key that the coordinator's \<^verbatim>\<open>index_to_vigenere_key\<close> wrote, without overflow.\<close>

theorem key_index_roundtrip:
  assumes "0 \<le> i" and "i < 26 ^ n" and "int_ok i"
  shows "key_to_index (index_to_key i n) = Inr i"
  using assms by (rule key_to_index_of_index)

theorem key_index_roundtrip_witness:
  "index_to_key 1354 3 = ''CAC'' \<and> key_to_index ''CAC'' = Inr 1354"
proof -
  have "index_to_key 1354 3 = ''CAC''" by code_simp
  moreover have "int_ok 1354" by (simp add: int_ok_def INT_MIN_def INT_MAX_def)
  then have "key_to_index (index_to_key 1354 3) = Inr 1354"
    by (intro key_index_roundtrip) simp_all
  ultimately show ?thesis by (simp only: conj_absorb simp_thms)
qed

text \<open>The keys of length \<open>n\<close> with indices \<open>0\<close> to \<open>26^n - 1\<close> are exactly the words of \<open>n\<close> capital
  letters, each once: the key space the policy divides is complete and has no repetition.\<close>

theorem index_to_key_enumerates:
  "set (map (\<lambda>i. index_to_key i n) [0..26 ^ n - 1]) = {k. length k = n \<and> upper_key k}
   \<and> distinct (map (\<lambda>i. index_to_key i n) [0..26 ^ n - 1])"
proof
  have "k \<in> (\<lambda>i. index_to_key i n) ` {0..26 ^ n - 1}" if "length k = n" "upper_key k" for k
    using that index_key_value [of k] key_value_bounds [of k] by (intro image_eqI [of _ _ "key_value k"]) auto
  then show "set (map (\<lambda>i. index_to_key i n) [0..26 ^ n - 1]) = {k. length k = n \<and> upper_key k}"
    by (auto simp: index_to_key_upper)
  have "inj_on (\<lambda>i. index_to_key i n) {0..26 ^ n - 1}"
    by (rule inj_on_inverseI [of _ key_value]) (simp add: key_value_index)
  then show "distinct (map (\<lambda>i. index_to_key i n) [0..26 ^ n - 1])"
    by (simp add: distinct_map)
qed

end
