(* ===== verification/Scoring.thy ===== *)
theory Scoring
  imports Ciphers Keys
begin

text \<open>
  The three ways a candidate text is scored: letter frequencies (\<^verbatim>\<open>calculate_score\<close> on a decrypted
  text and \<^verbatim>\<open>score_for_key\<close> on the streams of the cipher text, \<^verbatim>\<open>src/Decryptor.cpp\<close>), trigrams
  (\<^verbatim>\<open>load_trigrams\<close>, \<^verbatim>\<open>trigram_score\<close>) and the dictionary (\<^verbatim>\<open>src/Dictionary.cpp\<close>).
  The sums are over doubles in the order of the source. Letter and word counters are kept as
  unbounded integers: a text is at most one message (1000 KB), far below the range of \<^verbatim>\<open>int\<close>.
\<close>

section \<open>Dictionary\<close>

definition upcase :: "string \<Rightarrow> string" where
  "upcase w = map (\<lambda>c. to_char (toupper c)) w"

text \<open>\<^verbatim>\<open>load\<close>: the content of the file, or \<open>None\<close> when it cannot be opened.\<close>

definition dict_load :: "string option \<Rightarrow> string set \<Rightarrow> string set" where
  "dict_load file words =
     (case file of None \<Rightarrow> words
      | Some content \<Rightarrow> foldl (\<lambda>ws w. insert (upcase w) ws) words (words_of content))"

text \<open>A word counts when it, or it without a last character that is no letter, is in the dictionary.\<close>

definition word_found :: "string set \<Rightarrow> string \<Rightarrow> bool" where
  "word_found words w \<longleftrightarrow>
     (let word = upcase w
      in if word \<in> words then True
         else \<not> isalpha (last word) \<and> butlast word \<in> words)"

definition dict_score :: "string set \<Rightarrow> string \<Rightarrow> dbl" where
  "dict_score words text =
     (let (total, found) =
        foldl (\<lambda>(total, found) w. (total + 1, if word_found words w then found + 1 else found))
              (0, 0) (words_of text)
      in if total = 0 then 0 else dbl_of_int found / dbl_of_int total)"

section \<open>Letter frequencies\<close>

definition ENGLISH_FREQS :: "dbl list" where
  "ENGLISH_FREQS = map (\<lambda>a. dbl_lit a 100000)
     [8167, 1492, 2782, 4253, 12702, 2228, 2015,
      6094, 6966, 153, 772, 4025, 2406, 6749,
      7507, 1929, 95, 5987, 6327, 9056, 2758,
      978, 2360, 150, 1974, 74]"

text \<open>One summand of the chi-square statistic: \<open>n\<close> letters of which \<open>observed\<close> are the letter \<open>c\<close>.\<close>

definition chi_term :: "int \<Rightarrow> int \<Rightarrow> int \<Rightarrow> dbl" where
  "chi_term n observed c =
     (let expected = dbl_of_int n * ENGLISH_FREQS ! nat c;
          diff = dbl_of_int observed - expected
      in diff * diff / expected)"

definition chi_sum :: "dbl \<Rightarrow> int \<Rightarrow> (int \<Rightarrow> int) \<Rightarrow> dbl" where
  "chi_sum tot n observed = foldl (\<lambda>t c. t + chi_term n (observed c) c) tot [0..25]"

subsection \<open>On a decrypted text\<close>

fun count_loop :: "string \<Rightarrow> int list \<Rightarrow> int \<Rightarrow> int list \<times> int" where
  "count_loop [] count tot = (count, tot)"
| "count_loop (c # cs) count tot =
     (if isalpha c then
        (let index = tolower c - 97
         in if index \<ge> 0 \<and> index < 26
            then count_loop cs (count[nat index := count ! nat index + 1]) (tot + 1)
            else count_loop cs count tot)
      else count_loop cs count tot)"

definition calculate_score :: "string \<Rightarrow> dbl" where
  "calculate_score text =
     (let (count, total_letters) = count_loop text (replicate 26 0) 0
      in if total_letters = 0 then DBL_MAX
         else chi_sum 0 total_letters (\<lambda>i. count ! nat i))"

subsection \<open>On the streams of the cipher text\<close>

text \<open>
  \<^verbatim>\<open>streams_freq\<close> has seven rows of 26 counters and \<^verbatim>\<open>stream_size\<close> seven counters: letter number
  \<open>idx\<close> of the text belongs to stream \<open>idx mod key_len\<close>.
\<close>

fun fill_loop :: "int \<Rightarrow> string \<Rightarrow> int \<Rightarrow> int list list \<times> int list \<Rightarrow> (int list list \<times> int list) res" where
  "fill_loop key_len [] idx (fr, sz) = Inr (fr, sz)"
| "fill_loop key_len (c # cs) idx (fr, sz) =
     (if isalpha c then
        (if key_len = 0 then Inl (Undefined Division_by_zero)
         else let p = idx smod key_len; l = nat (tolower c - 97)
              in if p < 0 \<or> p \<ge> 7 then Inl (Undefined Array_bounds)
                 else fill_loop key_len cs (idx + 1)
                   (fr[nat p := (fr ! nat p)[l := fr ! nat p ! l + 1]],
                    sz[nat p := sz ! nat p + 1]))
      else fill_loop key_len cs idx (fr, sz))"

text \<open>The reset of the first \<open>key_len\<close> rows; row seven does not exist.\<close>

definition reset_streams :: "int \<Rightarrow> int list list \<times> int list \<Rightarrow> (int list list \<times> int list) res" where
  "reset_streams key_len fs =
     (if key_len > 7 then Inl (Undefined Array_bounds)
      else Inr (replicate (nat key_len) (replicate 26 0) @ drop (nat key_len) (fst fs),
                replicate (nat key_len) 0 @ drop (nat key_len) (snd fs)))"

definition fill_streams :: "int \<Rightarrow> string \<Rightarrow> int list list \<times> int list \<Rightarrow> (int list list \<times> int list) res" where
  "fill_streams key_len text fs =
     bindR (reset_streams key_len fs) (\<lambda>fs'. fill_loop key_len text 0 fs')"

text \<open>A key character below \<^verbatim>\<open>'A'\<close> gives a negative index for some letter.\<close>

fun score_for_key_loop :: "int list list \<times> int list \<Rightarrow> nat \<Rightarrow> string \<Rightarrow> dbl \<Rightarrow> dbl res" where
  "score_for_key_loop fs i [] tot = Inr tot"
| "score_for_key_loop fs i (k # ks) tot =
     (if i \<ge> 7 \<or> schar k < 65 then Inl (Undefined Array_bounds)
      else score_for_key_loop fs (i + 1) ks
        (chi_sum tot (snd fs ! i) (\<lambda>c. fst fs ! i ! nat ((c + (schar k - 65)) smod 26))))"

definition score_for_key :: "int list list \<times> int list \<Rightarrow> string \<Rightarrow> dbl res" where
  "score_for_key fs key = score_for_key_loop fs 0 key 0"

section \<open>Trigrams\<close>

text \<open>
  The lines of the trigram file as \<^verbatim>\<open>file >> tri >> log_prob\<close> reads them, or \<open>None\<close> when the
  file cannot be opened. Later lines overwrite earlier ones.
\<close>

record trigram_table =
  m_trigrams :: "string \<rightharpoonup> dbl"
  m_trigram_floor :: dbl
  m_has_trigrams :: bool

definition no_trigrams :: trigram_table where
  "no_trigrams = \<lparr>m_trigrams = Map.empty, m_trigram_floor = 0, m_has_trigrams = False\<rparr>"

definition load_trigrams :: "(string \<times> dbl) list option \<Rightarrow> trigram_table \<Rightarrow> trigram_table" where
  "load_trigrams file t =
     (case file of None \<Rightarrow> t
      | Some entries \<Rightarrow>
          (let (m, min_log) =
             foldl (\<lambda>(m, lo) (tri, lp). (m(tri \<mapsto> lp), if lp < lo then lp else lo)) (m_trigrams t, 0) entries
           in t\<lparr>m_trigrams := m, m_trigram_floor := min_log - 1,
                m_has_trigrams := (entries \<noteq> [] \<or> m_has_trigrams t)\<rparr>))"

definition trigram_score :: "trigram_table \<Rightarrow> string \<Rightarrow> dbl" where
  "trigram_score t text =
     (let clean = map (\<lambda>c. to_char (toupper c)) (filter isalpha text)
      in if length clean < 3 then m_trigram_floor t * dbl_of_int 10
         else foldl (\<lambda>s i. s + (case m_trigrams t (take 3 (drop i clean)) of
                                  Some lp \<Rightarrow> lp | None \<Rightarrow> m_trigram_floor t))
                    0 [0..<length clean - 2])"

section \<open>What is counted\<close>

text \<open>The letters of a text as positions of the alphabet, and one stream of them.\<close>

definition letters :: "string \<Rightarrow> int list" where
  "letters text = map pos (filter isalpha text)"

fun stream :: "nat \<Rightarrow> nat \<Rightarrow> nat \<Rightarrow> 'a list \<Rightarrow> 'a list" where
  "stream k i idx [] = []"
| "stream k i idx (x # xs) = (if idx mod k = i then x # stream k i (Suc idx) xs else stream k i (Suc idx) xs)"

lemma letters_Nil [simp]: "letters [] = []"
  by (simp add: letters_def)

lemma letters_Cons [simp]:
  "letters (c # cs) = (if isalpha c then pos c # letters cs else letters cs)"
  by (simp add: letters_def)

lemma letters_range: "x \<in> set (letters ts) \<Longrightarrow> 0 \<le> x \<and> x < 26"
  using pos_range by (auto simp: letters_def)

lemma set_stream_subset: "set (stream k i idx xs) \<subseteq> set xs"
  by (induction xs arbitrary: idx) auto

lemma stream_1 [simp]: "stream (Suc 0) 0 idx xs = xs"
  by (induction xs arbitrary: idx) auto

lemma count_loop_eq:
  assumes "length count = 26"
  shows "\<exists>count'. count_loop ts count tot = (count', tot + int (length (letters ts)))
    \<and> length count' = 26
    \<and> (\<forall>c. 0 \<le> c \<and> c < 26 \<longrightarrow> count' ! nat c = count ! nat c + int (count_list (letters ts) c))"
  using assms
proof (induction ts arbitrary: count tot)
  case Nil
  then show ?case by simp
next
  case (Cons a ts)
  show ?case
  proof (cases "isalpha a")
    case True
    then have p: "0 \<le> pos a" "pos a < 26" "tolower a - 97 = pos a"
      using pos_range [of a] tolower_pos [of a] by simp_all
    let ?count = "count[nat (pos a) := count ! nat (pos a) + 1]"
    have len: "length ?count = 26" using Cons.prems by simp
    from Cons.IH [OF this, of "tot + 1"] obtain count' where
      c': "count_loop ts ?count (tot + 1) = (count', tot + 1 + int (length (letters ts)))"
      "length count' = 26"
      "\<forall>c. 0 \<le> c \<and> c < 26 \<longrightarrow> count' ! nat c = ?count ! nat c + int (count_list (letters ts) c)"
      by blast
    have "count' ! nat c = count ! nat c + int (count_list (pos a # letters ts) c)"
      if "0 \<le> c" "c < 26" for c
      using c'(3) that p Cons.prems by (auto simp: nth_list_update nat_eq_iff)
    then show ?thesis using True p c'(1,2) by (simp add: Let_def)
  next
    case False
    then show ?thesis using Cons by simp
  qed
qed

lemma calculate_score_eq:
  "calculate_score ts =
     (if letters ts = [] then DBL_MAX
      else chi_sum 0 (int (length (letters ts))) (\<lambda>c. int (count_list (letters ts) c)))"
proof -
  obtain count' where c: "count_loop ts (replicate 26 0) 0 = (count', int (length (letters ts)))"
    "\<forall>c. 0 \<le> c \<and> c < 26 \<longrightarrow> count' ! nat c = int (count_list (letters ts) c)"
    using count_loop_eq [of "replicate 26 0" ts 0] by (auto simp: nat_less_iff)
  have "foldl (\<lambda>t c. t + chi_term n (count' ! nat c) c) 0 [0..25]
      = foldl (\<lambda>t c. t + chi_term n (int (count_list (letters ts) c)) c) 0 [0..25]" for n
    using c(2) by (intro foldl_cong) auto
  then show ?thesis using c(1) by (simp add: calculate_score_def chi_sum_def)
qed

subsection \<open>Filled streams\<close>

definition streams_wf :: "int list list \<times> int list \<Rightarrow> bool" where
  "streams_wf fs \<longleftrightarrow> length (fst fs) = 7 \<and> length (snd fs) = 7 \<and> (\<forall>r \<in> set (fst fs). length r = 26)"

text \<open>The counters \<open>fs\<close> after the letters \<open>ls\<close>, the first of them number \<open>idx\<close>, are added.\<close>

definition counted :: "nat \<Rightarrow> nat \<Rightarrow> int list \<Rightarrow> int list list \<times> int list \<Rightarrow> int list list \<times> int list \<Rightarrow> bool" where
  "counted k idx ls fs fs' \<longleftrightarrow> streams_wf fs' \<and>
     (\<forall>i < 7. snd fs' ! i = snd fs ! i + int (length (stream k i idx ls))) \<and>
     (\<forall>i < 7. \<forall>c. 0 \<le> c \<and> c < 26 \<longrightarrow>
        fst fs' ! i ! nat c = fst fs ! i ! nat c + int (count_list (stream k i idx ls) c))"

lemma streams_wf_update:
  assumes "streams_wf (f, z)" and "i < 7"
  shows "streams_wf (f[i := (f ! i)[l := x]], z[i := y])"
proof -
  have "f ! i \<in> set f" using assms by (simp add: streams_wf_def)
  then have "length ((f ! i)[l := x]) = 26" using assms(1) by (simp add: streams_wf_def)
  then show ?thesis
    using assms set_update_subset_insert [of f i "(f ! i)[l := x]"] by (auto simp: streams_wf_def)
qed

lemma counted_step:
  assumes wf: "streams_wf (f, z)" and i: "i < 7" "idx mod k = i" and p: "0 \<le> p" "p < 26"
    and rest: "counted k (Suc idx) ls (f[i := (f ! i)[nat p := f ! i ! nat p + 1]], z[i := z ! i + 1]) fs'"
  shows "counted k idx (p # ls) (f, z) fs'"
proof -
  have len: "length f = 7" "length z = 7" "\<And>j. j < 7 \<Longrightarrow> length (f ! j) = 26"
    using wf by (simp_all add: streams_wf_def)
  show ?thesis unfolding counted_def
  proof (intro conjI allI impI)
    show "streams_wf fs'" using rest by (simp add: counted_def)
  next
    fix j assume "j < (7::nat)"
    then show "snd fs' ! j = snd (f, z) ! j + int (length (stream k j idx (p # ls)))"
      using rest i len by (auto simp: counted_def)
  next
    fix j c assume j: "j < (7::nat)" and c: "0 \<le> c \<and> c < (26::int)"
    have "fst fs' ! j ! nat c = f[i := (f ! i)[nat p := f ! i ! nat p + 1]] ! j ! nat c
        + int (count_list (stream k j (Suc idx) ls) c)"
      using rest j c by (simp add: counted_def)
    moreover have "nat p = nat c \<longleftrightarrow> p = c" using p c by auto
    ultimately show "fst fs' ! j ! nat c = fst (f, z) ! j ! nat c
        + int (count_list (stream k j idx (p # ls)) c)"
      using i len j p c by (auto simp: nth_list_update)
  qed
qed

lemma fill_loop_counted:
  assumes "0 < k" and "k \<le> 7" and "streams_wf fs"
  shows "\<exists>fs'. fill_loop (int k) ts (int idx) fs = Inr fs' \<and> counted k idx (letters ts) fs fs'"
  using assms(3)
proof (induction ts arbitrary: idx fs)
  case Nil
  then show ?case by (cases fs) (simp add: counted_def)
next
  case (Cons a ts)
  obtain f z where fs: "fs = (f, z)" by (cases fs)
  show ?case
  proof (cases "isalpha a")
    case True
    then have p: "0 \<le> pos a" "pos a < 26" "tolower a - 97 = pos a"
      using pos_range [of a] tolower_pos [of a] by simp_all
    define i where "i = idx mod k"
    have i: "i < 7" "int idx smod int k = int i"
      using assms(1,2) mod_less_divisor [of k idx] unfolding i_def
      by (auto simp: smod_nonneg zmod_int simp del: mod_less_divisor)
    let ?fs = "(f[i := (f ! i)[nat (pos a) := f ! i ! nat (pos a) + 1]], z[i := z ! i + 1])"
    have "streams_wf ?fs" using Cons.prems i fs by (simp add: streams_wf_update)
    from Cons.IH [OF this, of "Suc idx"] obtain fs' where
      "fill_loop (int k) ts (int (Suc idx)) ?fs = Inr fs'"
      "counted k (Suc idx) (letters ts) ?fs fs'" by blast
    moreover have "int (Suc idx) = int idx + 1" by simp
    moreover have "fill_loop (int k) (a # ts) (int idx) (f, z) = fill_loop (int k) ts (int idx + 1) ?fs"
      using True i assms(1) by (simp add: p(3) Let_def)
    moreover from \<open>counted k (Suc idx) (letters ts) ?fs fs'\<close>
    have "counted k idx (pos a # letters ts) (f, z) fs'"
      using Cons.prems [unfolded fs] by (intro counted_step [OF _ i(1) i_def [symmetric] p(1,2)])
    moreover have "letters (a # ts) = pos a # letters ts" using True by simp
    ultimately show ?thesis unfolding fs by metis
  next
    case False
    then show ?thesis using Cons.IH [OF Cons.prems, of idx] fs by simp
  qed
qed

lemma reset_streams_wf:
  assumes "k \<le> 7" and "streams_wf fs"
  shows "\<exists>fs'. reset_streams (int k) fs = Inr fs' \<and> streams_wf fs'
    \<and> (\<forall>i < k. snd fs' ! i = 0 \<and> (\<forall>c < 26. fst fs' ! i ! c = 0))"
  using assms by (auto simp: reset_streams_def streams_wf_def nth_append dest: in_set_dropD)

text \<open>After filling, the counters of the streams in use are the letter counts of the text.\<close>

lemma fill_streams_counts:
  assumes "0 < k" and "k \<le> 7" and "streams_wf fs"
  shows "\<exists>fs'. fill_streams (int k) ts fs = Inr fs' \<and> streams_wf fs' \<and>
    (\<forall>i < k. snd fs' ! i = int (length (stream k i 0 (letters ts))) \<and>
       (\<forall>c. 0 \<le> c \<and> c < 26 \<longrightarrow> fst fs' ! i ! nat c = int (count_list (stream k i 0 (letters ts)) c)))"
proof -
  obtain fs1 where r: "reset_streams (int k) fs = Inr fs1" "streams_wf fs1"
    "\<forall>i < k. snd fs1 ! i = 0 \<and> (\<forall>c < 26. fst fs1 ! i ! c = 0)"
    using reset_streams_wf [OF assms(2,3)] by blast
  from fill_loop_counted [OF assms(1,2) r(2), of ts 0] obtain fs2 where
    "fill_loop (int k) ts 0 fs1 = Inr fs2" "counted k 0 (letters ts) fs1 fs2" by auto
  with r assms(2) show ?thesis
    by (auto simp: fill_streams_def counted_def nat_less_iff)
qed

section \<open>Scoring without decrypting\<close>

text \<open>The sum of the chi-square statistics of the \<open>k\<close> streams of a text.\<close>

definition stream_chi :: "nat \<Rightarrow> string \<Rightarrow> dbl" where
  "stream_chi k plain =
     foldl (\<lambda>tot i. chi_sum tot (int (length (stream k i 0 (letters plain))))
                            (\<lambda>c. int (count_list (stream k i 0 (letters plain)) c))) 0 [0..<k]"

lemma pos_move: "isalpha c \<Longrightarrow> pos (move j c) = (pos c + j) mod 26"
  by (simp add: move_def letter_at_alpha)

lemma stream_vigenere:
  assumes "vigenere_key key"
  shows "stream (length key) i idx (letters (vigenere_loop key idx ts))
    = map (\<lambda>x. (x - pos (key ! i)) mod 26) (stream (length key) i idx (letters ts))"
  by (induction ts arbitrary: idx) (simp_all add: vigenere_loop_Cons [OF assms] pos_move)

lemma count_list_shift:
  assumes "\<forall>x \<in> set xs. 0 \<le> x \<and> x < 26" and "0 \<le> c" "c < (26::int)"
  shows "count_list (map (\<lambda>x. (x - s) mod 26) xs) c = count_list xs ((c + s) mod 26)"
  using assms(1)
proof (induction xs)
  case Nil
  then show ?case by simp
next
  case (Cons x xs)
  have "(x - s) mod 26 = c \<longleftrightarrow> x = (c + s) mod 26"
  proof
    assume "(x - s) mod 26 = c"
    then have "(c + s) mod 26 = (x - s + s) mod 26" by (metis mod_add_left_eq)
    then show "x = (c + s) mod 26" using Cons.prems by simp
  next
    assume "x = (c + s) mod 26"
    then have "(x - s) mod 26 = (c + s - s) mod 26" by (metis mod_diff_left_eq)
    then show "(x - s) mod 26 = c" using assms by simp
  qed
  then show ?case using Cons by simp
qed

lemma upper_key_vigenere: "\<lbrakk>upper_key key; key \<noteq> []\<rbrakk> \<Longrightarrow> vigenere_key key"
  by (auto simp: upper_key_def vigenere_key_def isalpha_def list_all_iff)

lemma upper_pos: "isupper c \<Longrightarrow> schar c - 65 = pos c \<and> 0 \<le> pos c \<and> pos c < 26"
  by (auto simp: pos_def offset_def isupper_def islower_def)

lemma stream_length_bound: "idx mod k < k \<Longrightarrow> length (stream k i idx xs) \<le> length xs"
  by (induction xs arbitrary: idx) (auto simp: le_SucI intro: order.trans)

text \<open>One stream: the shifted counters of the cipher text are the counters of the decrypted text.\<close>

lemma chi_sum_stream:
  assumes key: "vigenere_key key" "upper_key key" and i: "i < length key"
    and sz: "snd fs ! i = int (length (stream (length key) i 0 (letters ts)))"
    and fr: "\<forall>c. 0 \<le> c \<and> c < 26 \<longrightarrow>
      fst fs ! i ! nat c = int (count_list (stream (length key) i 0 (letters ts)) c)"
  defines "plain \<equiv> vigenere_loop key 0 ts"
  shows "chi_sum tot (snd fs ! i) (\<lambda>c. fst fs ! i ! nat ((c + (schar (key ! i) - 65)) smod 26))
    = chi_sum tot (int (length (stream (length key) i 0 (letters plain))))
        (\<lambda>c. int (count_list (stream (length key) i 0 (letters plain)) c))"
proof -
  let ?s = "stream (length key) i 0 (letters ts)" and ?k = "pos (key ! i)"
  have up: "schar (key ! i) - 65 = ?k" "0 \<le> ?k" "?k < 26"
    using upper_pos [of "key ! i"] key(2) i by (simp_all add: upper_key_def list_all_length)
  have pl: "stream (length key) i 0 (letters plain) = map (\<lambda>x. (x - ?k) mod 26) ?s"
    unfolding plain_def by (rule stream_vigenere [OF key(1)])
  have rng: "\<forall>x \<in> set ?s. 0 \<le> x \<and> x < 26"
    using set_stream_subset letters_range by (metis subsetD)
  have "fst fs ! i ! nat ((c + (schar (key ! i) - 65)) smod 26)
      = int (count_list (stream (length key) i 0 (letters plain)) c)" if "c \<in> set [0..25]" for c
  proof -
    have c: "0 \<le> c" "c < 26" using that by auto
    then have "fst fs ! i ! nat ((c + ?k) mod 26) = int (count_list ?s ((c + ?k) mod 26))"
      using fr by simp
    then show ?thesis
      using c up by (simp add: pl count_list_shift [OF rng c] smod_nonneg)
  qed
  then show ?thesis
    unfolding chi_sum_def sz pl by (intro foldl_cong) (simp_all add: pl)
qed

lemma score_for_key_loop_eq:
  assumes key: "vigenere_key key" "upper_key key" "length key \<le> 7"
    and fs: "\<forall>i < length key. snd fs ! i = int (length (stream (length key) i 0 (letters ts))) \<and>
      (\<forall>c. 0 \<le> c \<and> c < 26 \<longrightarrow>
         fst fs ! i ! nat c = int (count_list (stream (length key) i 0 (letters ts)) c))"
    and i: "i \<le> length key"
  shows "score_for_key_loop fs i (drop i key) tot = Inr (foldl (\<lambda>tot i.
      chi_sum tot (int (length (stream (length key) i 0 (letters (vigenere_loop key 0 ts)))))
       (\<lambda>c. int (count_list (stream (length key) i 0 (letters (vigenere_loop key 0 ts))) c)))
      tot [i..<length key])"
  using i
proof (induction "length key - i" arbitrary: i tot)
  case 0
  then show ?case by simp
next
  case (Suc n)
  then have i: "i < length key" by simp
  then have "drop i key = key ! i # drop (Suc i) key" by (rule Cons_nth_drop_Suc [symmetric])
  moreover have "[i..<length key] = i # [Suc i..<length key]" using i by (rule upt_conv_Cons)
  moreover have "\<not> (7 \<le> i \<or> schar (key ! i) < 65)"
    using i key(3) upper_pos [of "key ! i"] key(2) by (simp add: upper_key_def list_all_length)
  moreover note Suc.hyps(1) [of "Suc i"] Suc.hyps(2)
  ultimately show ?case
    using chi_sum_stream [OF key(1,2) i, of fs ts] fs i by simp
qed

subsection \<open>Empty streams\<close>

lemma NaN_add [simp]: "NaN + x = NaN" "x + NaN = NaN"
  by (simp add: plus_dbl_def) (cases x; simp add: plus_dbl_def)

lemma foldl_NaN [simp]: "foldl (\<lambda>t c. t + g c) NaN cs = NaN"
  by (induction cs) simp_all

lemma chi_sum_NaN [simp]: "chi_sum NaN n obs = NaN"
  by (simp add: chi_sum_def)

lemma freqs_finite: "list_all is_finite ENGLISH_FREQS"
  by code_simp

lemma chi_term_empty:
  assumes "0 \<le> c" and "c < 26"
  shows "chi_term 0 0 c = NaN"
proof -
  have "is_finite (ENGLISH_FREQS ! nat c)"
    using freqs_finite assms by (simp add: list_all_length ENGLISH_FREQS_def)
  then obtain s m e where f: "ENGLISH_FREQS ! nat c = Fin s m e"
    by (cases "ENGLISH_FREQS ! nat c") simp_all
  have z: "dbl_of_int 0 = Fin False 0 EMIN" by (simp add: dbl_of_int_def round_dyadic_def)
  have m: "dbl_of_int 0 * ENGLISH_FREQS ! nat c = Fin s 0 EMIN"
    by (simp add: f z times_dbl_def round_dyadic_def)
  have d: "dbl_of_int 0 - Fin s 0 EMIN = Fin False 0 EMIN"
    by (simp add: z minus_dbl_def scaled_def sgnd_def)
  show ?thesis
    unfolding chi_term_def Let_def m d by (simp add: times_dbl_def divide_dbl_def round_dyadic_def)
qed

lemma chi_sum_empty: "chi_sum tot 0 (\<lambda>c. 0) = NaN"
proof -
  have "[0..25] = (0::int) # [1..25]" by (simp add: upto.simps)
  then show ?thesis by (simp add: chi_sum_def chi_term_empty)
qed

lemma stream_empty: "\<lbrakk>idx + length xs \<le> i; i < k\<rbrakk> \<Longrightarrow> stream k i idx xs = []"
  by (induction xs arbitrary: idx) auto

lemma stream_chi_empty:
  assumes "length (letters plain) < k"
  shows "stream_chi k plain = NaN"
proof -
  let ?n = "length (letters plain)"
  let ?g = "\<lambda>tot i. chi_sum tot (int (length (stream k i 0 (letters plain))))
                            (\<lambda>c. int (count_list (stream k i 0 (letters plain)) c))"
  have "[0..<k] = [0..<?n] @ ?n # [Suc ?n..<k]"
    using assms by (metis less_imp_le upt_conv_Cons upt_blocks zero_le)
  moreover have "?g tot ?n = NaN" for tot
    using stream_empty [of 0 "letters plain" ?n k] assms by (simp add: chi_sum_empty)
  moreover have "foldl ?g NaN is = NaN" for "is" by (induction "is") simp_all
  ultimately show ?thesis by (simp add: stream_chi_def)
qed

lemma length_letters_vigenere:
  "vigenere_key key \<Longrightarrow> length (letters (vigenere_loop key i ts)) = length (letters ts)"
  by (induction ts arbitrary: i) (simp_all add: vigenere_loop_Cons)

section \<open>Properties\<close>

text \<open>The score of a key in fast mode, as the worker computes it on fresh counters.\<close>

definition fast_score :: "string \<Rightarrow> int list list \<times> int list \<Rightarrow> string \<Rightarrow> dbl res" where
  "fast_score ts fs key = bindR (fill_streams (int (length key)) ts fs) (\<lambda>fs'. score_for_key fs' key)"

lemma fast_score_eq:
  assumes "upper_key key" and "key \<noteq> []" and "length key \<le> 7" and "streams_wf fs"
  shows "fast_score ts fs key = Inr (stream_chi (length key) (vigenere_decrypt ts key))"
proof -
  have v: "vigenere_key key" using assms by (simp add: upper_key_vigenere)
  obtain fs' where "fill_streams (int (length key)) ts fs = Inr fs'"
    "\<forall>i < length key. snd fs' ! i = int (length (stream (length key) i 0 (letters ts))) \<and>
      (\<forall>c. 0 \<le> c \<and> c < 26 \<longrightarrow>
         fst fs' ! i ! nat c = int (count_list (stream (length key) i 0 (letters ts)) c))"
    using fill_streams_counts [of "length key" fs ts] assms by auto
  then show ?thesis
    using score_for_key_loop_eq [OF v assms(1,3), of fs' ts 0 0]
    by (simp add: fast_score_def score_for_key_def stream_chi_def vigenere_decrypt_loop [OF v])
qed

text \<open>C22. The fast mode scores a key without decrypting, yet gets, to the last bit, the chi-square
  statistics that the streams of the decrypted text would have.\<close>

theorem fast_score_is_stream_score:
  assumes "upper_key key" and "key \<noteq> []" and "length key \<le> 7" and "streams_wf fs"
  shows "fast_score ts fs key = Inr (stream_chi (length key) (vigenere_decrypt ts key))"
  using assms by (rule fast_score_eq)

definition zero_streams :: "int list list \<times> int list" where
  "zero_streams = (replicate 7 (replicate 26 0), replicate 7 0)"

lemma zero_streams_wf [simp]: "streams_wf zero_streams"
  by (simp add: zero_streams_def streams_wf_def)

theorem fast_score_is_stream_score_witness:
  "fast_score ''Lipps'' zero_streams ''E'' = Inr (stream_chi 1 ''Hello'')"
proof -
  have "upper_key ''E''" "vigenere_decrypt ''Lipps'' ''E'' = ''Hello''" by code_simp+
  then show ?thesis using fast_score_is_stream_score [of "''E''" zero_streams "''Lipps''"] by simp
qed

text \<open>In fast mode a text with fewer letters than the key makes every key's score NaN, so no key
  is ever better than the initial result.\<close>

theorem fast_score_short_text:
  assumes "upper_key key" and "length (letters ts) < length key" and "length key \<le> 7"
    and "streams_wf fs"
  shows "fast_score ts fs key = Inr NaN"
proof -
  have ne: "key \<noteq> []" using assms(2) by auto
  then have "vigenere_key key" using assms(1) by (simp add: upper_key_vigenere)
  then have "length (letters (vigenere_decrypt ts key)) < length key"
    using assms(2) by (simp add: vigenere_decrypt_loop length_letters_vigenere)
  then show ?thesis
    using fast_score_eq [OF assms(1) ne assms(3,4)] stream_chi_empty by simp
qed

theorem fast_score_short_text_witness: "fast_score ''a b'' zero_streams ''KEY'' = Inr NaN"
proof -
  have "upper_key ''KEY''" "length (letters ''a b'') < length ''KEY''" by code_simp+
  then show ?thesis by (rule fast_score_short_text) simp_all
qed

text \<open>A key longer than seven letters makes the fast mode write outside its counter arrays.\<close>

theorem fast_score_long_key:
  assumes "7 < length key"
  shows "fast_score ts fs key = Inl (Undefined Array_bounds)"
  using assms by (simp add: fast_score_def fill_streams_def reset_streams_def)

theorem fast_score_long_key_witness:
  "fast_score ''Hello'' zero_streams ''AAAAAAAA'' = Inl (Undefined Array_bounds)"
  by (rule fast_score_long_key) simp

text \<open>The dictionary score counts the recognised words: it is the number of them divided by the
  number of words, and zero for a text without words.\<close>

theorem dict_score_ratio:
  "dict_score words ts =
     (if words_of ts = [] then 0
      else dbl_of_int (int (length (filter (word_found words) (words_of ts))))
           / dbl_of_int (int (length (words_of ts))))"
proof -
  have "foldl (\<lambda>(total, found) w. (total + 1, if word_found words w then found + 1 else found)) (a, b) ws
      = (a + int (length ws), b + int (length (filter (word_found words) ws)))" for a b ws
    by (induction ws arbitrary: a b) auto
  then show ?thesis by (simp add: dict_score_def)
qed

end
