(* ===== verification/Decryptor.thy ===== *)
theory Decryptor
  imports Scoring
begin

text \<open>
  The search of one unit: \<^verbatim>\<open>PolyAlphabeticDecryptor\<close> of \<^verbatim>\<open>include/Decryptor.hpp\<close> and
  \<^verbatim>\<open>src/Decryptor.cpp\<close>. \<open>process_unit\<close> walks the keys of a range by incrementing, scores each
  and keeps the best; the theorems say that the walk visits exactly the keys of the range, that no
  valid unit makes it fail, that the result has the least score of the range, and that the fast mode
  and brute force agree on keys of one letter.
\<close>

section \<open>State and operations\<close>

record PolyAlphabeticDecryptor =
  d_trigrams :: trigram_table
  d_message :: "EncryptedMessage option"
  d_dict :: "string set"
  d_best_result :: Result
  d_streams :: "int list list \<times> int list"

text \<open>
  The constructor. \<^verbatim>\<open>stream_size\<close> is left uninitialised by the source; every unit resets the
  entries it reads.
\<close>

definition new_Decryptor ::
    "EncryptedMessage option \<Rightarrow> string option \<Rightarrow> (string \<times> dbl) list option \<Rightarrow> PolyAlphabeticDecryptor" where
  "new_Decryptor message dict_file trigram_file =
     \<lparr>d_trigrams = load_trigrams trigram_file no_trigrams, d_message = message,
      d_dict = dict_load dict_file {}, d_best_result = init_result, d_streams = zero_streams\<rparr>"

definition get_best_result :: "PolyAlphabeticDecryptor \<Rightarrow> Result" where
  "get_best_result d = d_best_result d"

text \<open>The score of a decrypted candidate outside the fast mode.\<close>

definition text_score :: "PolyAlphabeticDecryptor \<Rightarrow> dbl \<Rightarrow> string \<Rightarrow> dbl" where
  "text_score d noise candidate_text =
     (if m_has_trigrams (d_trigrams d) then - trigram_score (d_trigrams d) candidate_text
      else let freq_score = calculate_score candidate_text
           in if \<not> dbl_eq noise 0
              then let ds = dict_score (d_dict d) candidate_text
                   in freq_score * (1 - noise * noise) - ds * noise * dbl_of_int 100
              else freq_score)"

definition candidate_score ::
    "PolyAlphabeticDecryptor \<Rightarrow> EncryptedMessage \<Rightarrow> Unit \<Rightarrow> string \<Rightarrow> dbl res" where
  "candidate_score d msg u key =
     (if m_mode u = FAST then score_for_key (d_streams d) key
      else bindR (decrypt msg key) (\<lambda>cand. Inr (text_score d (m_noise u) cand)))"

text \<open>The loop over the keys from \<open>key\<close> to \<open>en\<close>; \<open>cur\<close> is the current key as a string.\<close>

function process_keys :: "(string \<Rightarrow> dbl res) \<Rightarrow> int \<Rightarrow> int \<Rightarrow> string \<Rightarrow> Result \<Rightarrow> Result res" where
  "process_keys sc key en cur best =
     (if key > en then Inr best
      else bindR (sc cur) (\<lambda>s.
        let best' = (if s < res_score best then best\<lparr>res_score := s, res_key := cur\<rparr> else best);
            cur' = (if key < en then increment_key cur else cur)
        in process_keys sc (key + 1) en cur' best'))"
  by pat_completeness auto
termination
  by (relation "measure (\<lambda>(sc, key, en, cur, best). nat (en - key + 1))") auto

declare process_keys.simps [simp del]

definition process_unit ::
    "PolyAlphabeticDecryptor \<Rightarrow> Unit \<Rightarrow> (PolyAlphabeticDecryptor \<times> Unit) res" where
  "process_unit d u =
     (case d_message d of None \<Rightarrow> Inr (d, u)
      | Some msg \<Rightarrow>
          bindR (if m_mode u = FAST
                 then mapR (\<lambda>fs. d\<lparr>d_streams := fs\<rparr>)
                        (fill_streams (m_key_length u) (get_text msg) (d_streams d))
                 else Inr d) (\<lambda>d1.
          if m_key_length u < 0 then Inl Length_error
          else
          bindR (process_keys (candidate_score d1 msg u) (m_start u) (m_end u)
                   (index_to_key (m_start u) (nat (m_key_length u))) (d_best_result d1)) (\<lambda>b.
          bindR (decrypt msg (res_key b)) (\<lambda>t.
          Inr (d1\<lparr>d_best_result := b\<lparr>res_text := t\<rparr>\<rparr>, mark_as_done u)))))"

section \<open>The walk over the keys\<close>

definition candidate :: "(string \<Rightarrow> dbl) \<Rightarrow> nat \<Rightarrow> int \<Rightarrow> Result" where
  "candidate f n i = \<lparr>res_key = index_to_key i n, res_score = f (index_to_key i n), res_text = []\<rparr>"

lemma process_keys_past: "en < key \<Longrightarrow> process_keys sc key en cur best = Inr best"
  by (simp add: process_keys.simps)

lemma process_keys_fold:
  assumes "0 \<le> i" and "en < 26 ^ n"
    and "\<forall>j \<in> {i..en}. sc (index_to_key j n) = Inr (f (index_to_key j n))" and "res_text b = []"
  shows "process_keys sc i en (index_to_key i n) b
    = Inr (foldl (keep_better dbl_less res_score) b (map (candidate f n) [i..en]))"
  using assms
proof (induction "nat (en - i + 1)" arbitrary: i b)
  case 0
  then show ?case by (simp add: process_keys.simps [of _ i])
next
  case (Suc m)
  then have le: "i \<le> en" by simp
  let ?k = "index_to_key i n"
  let ?b = "if f ?k < res_score b then b\<lparr>res_score := f ?k, res_key := ?k\<rparr> else b"
  have b: "?b = keep_better dbl_less res_score b (candidate f n i)"
    using Suc.prems(4) by (cases b) (simp add: keep_better_def candidate_def less_dbl_def)
  have k: "process_keys sc (i + 1) en (if i < en then increment_key ?k else ?k) ?b
      = process_keys sc (i + 1) en (index_to_key (i + 1) n) ?b"
    using le Suc.prems(1,2) by (cases "i < en") (simp_all add: increment_index process_keys_past)
  have "process_keys sc (i + 1) en (index_to_key (i + 1) n) ?b
      = Inr (foldl (keep_better dbl_less res_score) ?b (map (candidate f n) [i + 1..en]))"
    using Suc by (intro Suc.hyps(1)) auto
  moreover have "process_keys sc i en ?k b
      = process_keys sc (i + 1) en (if i < en then increment_key ?k else ?k) ?b"
    using le Suc.prems(3) by (subst process_keys.simps) simp
  ultimately show ?case using le b k by (simp add: upto_rec1)
qed

section \<open>Valid units never fail\<close>

text \<open>
  The score that a key deserves: a function of the text it decrypts to.
\<close>

definition key_score :: "PolyAlphabeticDecryptor \<Rightarrow> EncryptedMessage \<Rightarrow> Unit \<Rightarrow> string \<Rightarrow> dbl" where
  "key_score d msg u key =
     (let plain = vigenere_decrypt (get_text msg) key
      in if m_mode u = FAST then stream_chi (length key) plain else text_score d (m_noise u) plain)"

definition is_caesar :: "EncryptedMessage \<Rightarrow> bool" where
  "is_caesar msg \<longleftrightarrow> (case msg of CaesarEncryptedMessage t \<Rightarrow> True | VigenereEncryptedMessage t \<Rightarrow> False)"

definition unit_valid :: "EncryptedMessage \<Rightarrow> Unit \<Rightarrow> bool" where
  "unit_valid msg u \<longleftrightarrow> 1 \<le> m_key_length u \<and> 0 \<le> m_start u \<and> m_end u < 26 ^ nat (m_key_length u)
     \<and> (is_caesar msg \<longrightarrow> m_key_length u = 1) \<and> (m_mode u = FAST \<longrightarrow> m_key_length u \<le> 7)"

lemma decrypt_as_vigenere:
  assumes "upper_key key" and "key \<noteq> []" and "is_caesar msg \<longrightarrow> length key = 1"
  shows "decrypt msg key = Inr (vigenere_decrypt (get_text msg) key)"
proof (cases msg)
  case (CaesarEncryptedMessage t)
  then obtain k where k: "key = [k]" "isalpha k"
    using assms by (auto simp: is_caesar_def length_Suc_conv upper_key_def isalpha_def)
  then show ?thesis using CaesarEncryptedMessage
    by (simp add: caesar_decrypt_map caesar_key_def vigenere_decrypt_def vigenere_loop_single)
next
  case (VigenereEncryptedMessage t)
  then show ?thesis by simp
qed

text \<open>The key \<^verbatim>\<open>-1\<close> of the initial result decrypts as well.\<close>

lemma caesar_decrypt_sentinel: "caesar_decrypt t ''-1'' = Inr (map (move 1) t)"
proof -
  have "caesar_shift ''-1'' = Inr (- 1)" by code_simp
  moreover have "caesar_char (- 1) = (\<lambda>c. Inr (move 1 c))"
    using caesar_char_move [of "- 1"] by (simp add: fun_eq_iff)
  ultimately show ?thesis by (simp add: caesar_decrypt_def)
qed

lemma decrypt_sentinel: "\<exists>t. decrypt msg ''-1'' = Inr t"
  by (cases msg) (simp_all add: caesar_decrypt_sentinel)

lemma candidate_score_total:
  assumes valid: "unit_valid msg u" and i: "m_start u \<le> i" "i \<le> m_end u"
    and fs: "m_mode u = FAST \<longrightarrow> fill_streams (m_key_length u) (get_text msg) zero_streams = Inr (d_streams d)"
  defines "key \<equiv> index_to_key i (nat (m_key_length u))"
  shows "candidate_score d msg u key = Inr (key_score d msg u key)"
proof -
  have key: "upper_key key" "key \<noteq> []" "length key = nat (m_key_length u)"
    using valid i unfolding key_def unit_valid_def
    by (auto simp: index_to_key_upper simp flip: length_0_conv)
  show ?thesis
  proof (cases "m_mode u = FAST")
    case True
    then have "fast_score (get_text msg) zero_streams key = score_for_key (d_streams d) key"
      using fs key(3) valid by (simp add: fast_score_def unit_valid_def)
    moreover have "length key \<le> 7" using True key(3) valid by (auto simp: unit_valid_def)
    ultimately show ?thesis
      using True fast_score_eq [OF key(1,2), of zero_streams "get_text msg"]
      by (simp add: candidate_score_def key_score_def)
  next
    case False
    have "is_caesar msg \<longrightarrow> length key = 1" using valid key(3) by (simp add: unit_valid_def)
    with False show ?thesis
      using decrypt_as_vigenere [OF key(1,2)] by (simp add: candidate_score_def key_score_def)
  qed
qed

lemma fill_streams_valid:
  assumes "unit_valid msg u" and "m_mode u = FAST"
  shows "\<exists>fs. fill_streams (m_key_length u) ts zero_streams = Inr fs"
proof -
  have "nat (m_key_length u) \<le> 7" "0 < nat (m_key_length u)"
    "int (nat (m_key_length u)) = m_key_length u"
    using assms by (auto simp: unit_valid_def)
  then show ?thesis
    using fill_streams_counts [of "nat (m_key_length u)" zero_streams ts] by auto
qed

lemma key_score_streams [simp]: "key_score (d\<lparr>d_streams := fs\<rparr>) msg u key = key_score d msg u key"
  by (simp add: key_score_def text_score_def Let_def)

lemma fill_state_valid:
  assumes valid: "unit_valid msg u"
    and fresh: "d_best_result d = init_result" "d_streams d = zero_streams"
  obtains d1 where "(if m_mode u = FAST
        then mapR (\<lambda>fs. d\<lparr>d_streams := fs\<rparr>) (fill_streams (m_key_length u) (get_text msg) (d_streams d))
        else Inr d) = Inr d1"
      "m_mode u = FAST \<longrightarrow> fill_streams (m_key_length u) (get_text msg) zero_streams = Inr (d_streams d1)"
      "d_best_result d1 = init_result" "key_score d1 msg u = key_score d msg u"
proof (cases "m_mode u = FAST")
  case True
  then obtain fs where "fill_streams (m_key_length u) (get_text msg) zero_streams = Inr fs"
    using fill_streams_valid [OF valid] by blast
  then show ?thesis using True fresh that [of "d\<lparr>d_streams := fs\<rparr>"] by (simp add: fun_eq_iff)
next
  case False
  then show ?thesis using fresh that [of d] by simp
qed

lemma process_unit_fold:
  assumes msg: "d_message d = Some msg" and valid: "unit_valid msg u"
    and fresh: "d_best_result d = init_result" "d_streams d = zero_streams"
  defines "n \<equiv> nat (m_key_length u)"
  defines "b \<equiv> foldl (keep_better dbl_less res_score) init_result
                 (map (candidate (key_score d msg u) n) (unit_keys u))"
  shows "\<exists>d' t. process_unit d u = Inr (d', mark_as_done u) \<and> decrypt msg (res_key b) = Inr t
    \<and> d_best_result d' = b\<lparr>res_text := t\<rparr>"
proof -
  obtain d1 where d1: "(if m_mode u = FAST
        then mapR (\<lambda>fs. d\<lparr>d_streams := fs\<rparr>) (fill_streams (m_key_length u) (get_text msg) (d_streams d))
        else Inr d) = Inr d1"
      "m_mode u = FAST \<longrightarrow> fill_streams (m_key_length u) (get_text msg) zero_streams = Inr (d_streams d1)"
      "d_best_result d1 = init_result" "key_score d1 msg u = key_score d msg u"
    by (rule fill_state_valid [OF valid fresh])
  have loop: "process_keys (candidate_score d1 msg u) (m_start u) (m_end u)
      (index_to_key (m_start u) n) init_result = Inr b"
    unfolding b_def unit_keys_def using valid candidate_score_total [OF valid _ _ d1(2)]
    by (intro process_keys_fold) (auto simp: unit_valid_def init_result_def d1(4) n_def)
  have "b \<in> insert init_result (candidate (key_score d msg u) n ` {m_start u..m_end u})"
    using dbl_ord.foldl_best [of res_score init_result "map (candidate (key_score d msg u) n) (unit_keys u)"]
    unfolding b_def is_best_def by (auto simp: init_result_def unit_keys_def)
  then have "\<exists>t. decrypt msg (res_key b) = Inr t"
  proof
    assume "b = init_result"
    then show ?thesis using decrypt_sentinel by (simp add: init_result_def)
  next
    assume "b \<in> candidate (key_score d msg u) n ` {m_start u..m_end u}"
    then obtain i where "m_start u \<le> i" "res_key b = index_to_key i n"
      by (auto simp: candidate_def)
    moreover have "upper_key (index_to_key i n)" "index_to_key i n \<noteq> []"
      "is_caesar msg \<longrightarrow> length (index_to_key i n) = 1"
      using valid calculation(1) unfolding unit_valid_def n_def
      by (auto simp: index_to_key_upper simp flip: length_0_conv)
    ultimately show ?thesis using decrypt_as_vigenere by metis
  qed
  then show ?thesis
    using msg d1(1,3) loop valid by (auto simp: process_unit_def unit_valid_def n_def)
qed

section \<open>Properties\<close>

text \<open>C6. A worker never fails on a valid unit, and its result is a best one of the range: its key is a
  key of the range (or the marker \<^verbatim>\<open>-1\<close> if no key has a score below the largest double), no key
  of the range has a smaller score, and its text is the decryption under its key.\<close>

theorem process_unit_best:
  fixes dict :: "string option" and trigrams :: "(string \<times> dbl) list option"
  assumes "unit_valid msg u"
  defines "d \<equiv> new_Decryptor (Some msg) dict trigrams"
  shows "\<exists>d' b t. process_unit d u = Inr (d', mark_as_done u)
    \<and> get_best_result d' = b\<lparr>res_text := t\<rparr> \<and> decrypt msg (res_key b) = Inr t
    \<and> is_best dbl_less is_nan res_score init_result
        (candidate (key_score d msg u) (nat (m_key_length u)) ` set (unit_keys u)) b"
proof -
  let ?cs = "map (candidate (key_score d msg u) (nat (m_key_length u))) (unit_keys u)"
  have "is_best dbl_less is_nan res_score init_result (set ?cs)
      (foldl (keep_better dbl_less res_score) init_result ?cs)"
    by (rule dbl_ord.foldl_best) (simp add: init_result_def)
  moreover have "d_message d = Some msg" "d_best_result d = init_result" "d_streams d = zero_streams"
    by (simp_all add: d_def new_Decryptor_def)
  ultimately show ?thesis
    using process_unit_fold [of d msg u] assms(1) unfolding get_best_result_def list.set_map by blast
qed

theorem process_unit_best_witness:
  "\<exists>d' b t. process_unit (new_Decryptor (Some (CaesarEncryptedMessage ''Khoor'')) None None)
        (new_Unit 0 4 CAESAR BRUTE 1 0)
      = Inr (d', mark_as_done (new_Unit 0 4 CAESAR BRUTE 1 0))
    \<and> get_best_result d' = b\<lparr>res_text := t\<rparr> \<and> decrypt (CaesarEncryptedMessage ''Khoor'') (res_key b) = Inr t
    \<and> is_best dbl_less is_nan res_score init_result
        (candidate (key_score (new_Decryptor (Some (CaesarEncryptedMessage ''Khoor'')) None None)
           (CaesarEncryptedMessage ''Khoor'') (new_Unit 0 4 CAESAR BRUTE 1 0))
          (nat (m_key_length (new_Unit 0 4 CAESAR BRUTE 1 0)))
         ` set (unit_keys (new_Unit 0 4 CAESAR BRUTE 1 0))) b"
  by (rule process_unit_best) (simp add: unit_valid_def new_Unit_def is_caesar_def)

section \<open>Fast mode against brute force\<close>

lemma keep_none: "\<forall>c \<in> set cs. \<not> lt (f c) (f b) \<Longrightarrow> foldl (keep_better lt f) b cs = b"
  by (induction cs) (simp_all add: keep_better_def)

lemma key_score_fast_brute:
  assumes "isupper k" and "\<not> m_has_trigrams (d_trigrams d)" and "dbl_eq (m_noise u) 0"
  shows "key_score d msg (u\<lparr>m_mode := FAST\<rparr>) [k]
      = (if letters (get_text msg) = [] then NaN else key_score d msg (u\<lparr>m_mode := BRUTE\<rparr>) [k])"
    and "letters (get_text msg) = [] \<Longrightarrow> key_score d msg (u\<lparr>m_mode := BRUTE\<rparr>) [k] = DBL_MAX"
proof -
  have v: "vigenere_key [k]" using assms(1) by (simp add: vigenere_key_def isalpha_def)
  have "letters (vigenere_decrypt (get_text msg) [k]) = [] \<longleftrightarrow> letters (get_text msg) = []"
    using length_letters_vigenere [OF v, of 0 "get_text msg"]
    by (metis length_0_conv vigenere_decrypt_loop [OF v])
  then show "key_score d msg (u\<lparr>m_mode := FAST\<rparr>) [k]
      = (if letters (get_text msg) = [] then NaN else key_score d msg (u\<lparr>m_mode := BRUTE\<rparr>) [k])"
    "letters (get_text msg) = [] \<Longrightarrow> key_score d msg (u\<lparr>m_mode := BRUTE\<rparr>) [k] = DBL_MAX"
    using assms(2,3) stream_chi_empty [of "vigenere_decrypt (get_text msg) [k]" 1]
    by (simp_all add: key_score_def text_score_def calculate_score_eq stream_chi_def)
qed

lemma best_fast_brute:
  assumes "\<not> m_has_trigrams (d_trigrams d)" and "dbl_eq (m_noise u) 0" and "0 \<le> m_start u"
    and "m_end u < 26"
  shows "foldl (keep_better dbl_less res_score) init_result
        (map (candidate (key_score d msg (u\<lparr>m_mode := FAST\<rparr>)) 1) [m_start u..m_end u])
      = foldl (keep_better dbl_less res_score) init_result
        (map (candidate (key_score d msg (u\<lparr>m_mode := BRUTE\<rparr>)) 1) [m_start u..m_end u])"
proof -
  have key: "\<exists>k. index_to_key i 1 = [k] \<and> isupper k" if "i \<in> {m_start u..m_end u}" for i
  proof -
    have "upper_key (index_to_key i 1)" using that assms(3) by (intro index_to_key_upper) auto
    then show ?thesis by (auto simp: upper_key_def)
  qed
  show ?thesis
  proof (cases "letters (get_text msg) = []")
    case True
    have "\<not> dbl_less NaN DBL_MAX" "\<not> dbl_less DBL_MAX DBL_MAX" by code_simp+
    then show ?thesis
      using True key key_score_fast_brute [OF _ assms(1,2), of _ msg]
      by (subst (1 2) keep_none) (auto simp: candidate_def init_result_def)
  next
    case False
    then show ?thesis
      using key key_score_fast_brute(1) [OF _ assms(1,2), of _ msg]
      by (intro arg_cong [where f = "foldl _ _"] map_cong) (auto simp: candidate_def)
  qed
qed

lemma process_unit_keeps:
  assumes "process_unit d u = Inr (d', u')" and "d_message d = Some msg"
  shows "d_trigrams d' = d_trigrams d" "d_dict d' = d_dict d"
    "m_mode u = FAST \<Longrightarrow> fill_streams (m_key_length u) (get_text msg) (d_streams d) = Inr (d_streams d')"
  using assms by (auto simp: process_unit_def mapR_def bindR_eq_Inr split: if_splits)

text \<open>C21. With a key of one letter, no trigrams and noise 0 the fast mode is brute force made cheaper:
  both modes give every key the same score, to the last bit, if the text has a letter, and on every
  text, with letters or without, they end the unit with the same key, score and decrypted text.\<close>

theorem fast_unit_is_brute_unit:
  fixes dict :: "string option" and trigrams :: "(string \<times> dbl) list option"
  assumes "unit_valid msg u" and "m_key_length u = 1" and "dbl_eq (m_noise u) 0"
    and "\<not> m_has_trigrams (load_trigrams trigrams no_trigrams)"
  defines "d \<equiv> new_Decryptor (Some msg) dict trigrams"
  shows "\<exists>f b. process_unit d (u\<lparr>m_mode := FAST\<rparr>) = Inr (f, mark_as_done (u\<lparr>m_mode := FAST\<rparr>))
    \<and> process_unit d (u\<lparr>m_mode := BRUTE\<rparr>) = Inr (b, mark_as_done (u\<lparr>m_mode := BRUTE\<rparr>))
    \<and> get_best_result f = get_best_result b
    \<and> (\<forall>k. isupper k \<and> letters (get_text msg) \<noteq> [] \<longrightarrow>
          candidate_score f msg (u\<lparr>m_mode := FAST\<rparr>) [k] = candidate_score b msg (u\<lparr>m_mode := BRUTE\<rparr>) [k])"
proof -
  let ?f = "u\<lparr>m_mode := FAST\<rparr>" and ?b = "u\<lparr>m_mode := BRUTE\<rparr>"
  have d: "d_message d = Some msg" "d_best_result d = init_result" "d_streams d = zero_streams"
    "\<not> m_has_trigrams (d_trigrams d)" using assms(4) by (simp_all add: d_def new_Decryptor_def)
  have valid: "unit_valid msg ?f" "unit_valid msg ?b" and range: "0 \<le> m_start u" "m_end u < 26"
    using assms(1,2) by (simp_all add: unit_valid_def)
  let ?best = "\<lambda>v. foldl (keep_better dbl_less res_score) init_result
      (map (candidate (key_score d msg v) (nat (m_key_length v))) (unit_keys v))"
  have same: "?best ?f = ?best ?b"
    using best_fast_brute [OF d(4) assms(3) range, of msg] assms(2)
    by (simp add: unit_keys_def)
  obtain f t where f: "process_unit d ?f = Inr (f, mark_as_done ?f)"
      "decrypt msg (res_key (?best ?f)) = Inr t" "d_best_result f = (?best ?f)\<lparr>res_text := t\<rparr>"
    using process_unit_fold [OF d(1) valid(1) d(2,3)] by blast
  obtain b t' where b: "process_unit d ?b = Inr (b, mark_as_done ?b)"
      "decrypt msg (res_key (?best ?b)) = Inr t'" "d_best_result b = (?best ?b)\<lparr>res_text := t'\<rparr>"
    using process_unit_fold [OF d(1) valid(2) d(2,3)] by blast
  have best: "get_best_result f = get_best_result b"
    using f(2,3) b(2,3) unfolding same get_best_result_def by simp
  have "candidate_score f msg ?f [k] = candidate_score b msg ?b [k]"
    if "isupper k" and "letters (get_text msg) \<noteq> []" for k
  proof -
    have "upper_key [k]" "is_caesar msg \<longrightarrow> length [k] = 1" using that by (simp_all add: upper_key_def)
    then have "candidate_score b msg ?b [k] = Inr (key_score d msg ?b [k])"
      using decrypt_as_vigenere [of "[k]" msg] process_unit_keeps(1,2) [OF b(1) d(1)]
      by (simp add: candidate_score_def key_score_def text_score_def Let_def)
    moreover have "candidate_score f msg ?f [k] = Inr (key_score d msg ?f [k])"
      using process_unit_keeps(3) [OF f(1) d(1)] fast_score_eq [of "[k]" zero_streams "get_text msg"]
        \<open>upper_key [k]\<close> assms(2) d(3)
      by (simp add: candidate_score_def key_score_def fast_score_def)
    ultimately show ?thesis
      using key_score_fast_brute(1) [OF that(1) d(4) assms(3), of msg] that(2) by simp
  qed
  then show ?thesis using f(1) b(1) best by blast
qed

theorem fast_unit_is_brute_unit_witness:
  "\<exists>f b. process_unit (new_Decryptor (Some (CaesarEncryptedMessage ''Lipps'')) None None)
        ((new_Unit 0 25 CAESAR BRUTE 1 0)\<lparr>m_mode := FAST\<rparr>)
      = Inr (f, mark_as_done ((new_Unit 0 25 CAESAR BRUTE 1 0)\<lparr>m_mode := FAST\<rparr>))
    \<and> process_unit (new_Decryptor (Some (CaesarEncryptedMessage ''Lipps'')) None None)
        ((new_Unit 0 25 CAESAR BRUTE 1 0)\<lparr>m_mode := BRUTE\<rparr>)
      = Inr (b, mark_as_done ((new_Unit 0 25 CAESAR BRUTE 1 0)\<lparr>m_mode := BRUTE\<rparr>))
    \<and> get_best_result f = get_best_result b
    \<and> (\<forall>k. isupper k \<and> letters (get_text (CaesarEncryptedMessage ''Lipps'')) \<noteq> [] \<longrightarrow>
          candidate_score f (CaesarEncryptedMessage ''Lipps'')
            ((new_Unit 0 25 CAESAR BRUTE 1 0)\<lparr>m_mode := FAST\<rparr>) [k]
          = candidate_score b (CaesarEncryptedMessage ''Lipps'')
            ((new_Unit 0 25 CAESAR BRUTE 1 0)\<lparr>m_mode := BRUTE\<rparr>) [k])"
proof -
  have "dbl_eq 0 0" "\<not> m_has_trigrams (load_trigrams None no_trigrams)" by code_simp+
  then show ?thesis
    by (intro fast_unit_is_brute_unit) (simp_all add: unit_valid_def new_Unit_def is_caesar_def)
qed

end
