(* ===== verification/Worker.thy ===== *)
theory Worker
  imports Decryptor Protocol
begin

text \<open>
  The worker process, \<^verbatim>\<open>include/NetworkWorker.hpp\<close> and \<^verbatim>\<open>src/NetworkWorker.cpp\<close>: a DECRYPT
  request is turned into a unit on the cached text, searched, and answered by a STATUS request. The
  theorems say that the worker rebuilds exactly the unit that the coordinator encoded and answers
  with a best key of it, and when it stays silent.

  The dictionary and the trigram file are given by their contents. \<open>conn\<close> is the worker's end of the
  connection: what \<^verbatim>\<open>Connection::send_message\<close> does with a message.
\<close>

section \<open>State and operations\<close>

record Worker =
  w_decryptor :: "PolyAlphabeticDecryptor option"
  w_dict :: "string option"
  w_trigrams :: "(string \<times> dbl) list option"
  w_cachedCiphertext :: string
  w_hasCiphertext :: bool

definition new_Worker :: "string option \<Rightarrow> (string \<times> dbl) list option \<Rightarrow> Worker" where
  "new_Worker dict trigrams = \<lparr>w_decryptor = None, w_dict = dict, w_trigrams = trigrams,
     w_cachedCiphertext = [], w_hasCiphertext = False\<rparr>"

text \<open>
  \<^verbatim>\<open>run_decryptor_task\<close> returns the message it sent, if any. Exceptions are logged and dropped.
\<close>

definition run_decryptor_task ::
    "(Message \<Rightarrow> string res) \<Rightarrow> int \<Rightarrow> Unit \<Rightarrow> Worker \<Rightarrow> (Worker \<times> Message option) res" where
  "run_decryptor_task conn junk u wk =
     (case w_decryptor wk of None \<Rightarrow> Inr (wk, None)
      | Some d \<Rightarrow>
     (case process_unit d u of
        Inl e \<Rightarrow> if is_exception e then Inr (wk, None) else Inl e
      | Inr (d', u') \<Rightarrow>
          let r = get_best_result d';
              wk' = wk\<lparr>w_decryptor := Some d'\<rparr>;
              m = create_status_request (PStatus
                    (new_StatusPayload junk (m_cipher u') (res_text r) (res_key r) (res_score r)))
          in case conn m of
               Inl e \<Rightarrow> if is_exception e then Inr (wk', None) else Inl e
             | Inr bs \<Rightarrow> Inr (wk', Some m)))"

text \<open>The text cache at the start of \<^verbatim>\<open>handle_message\<close>.\<close>

definition cache_text :: "DecryptPayload \<Rightarrow> Worker \<Rightarrow> Worker" where
  "cache_text p wk = (if dp_cipher_text p \<noteq> []
     then wk\<lparr>w_cachedCiphertext := dp_cipher_text p, w_hasCiphertext := True\<rparr> else wk)"

definition start_task ::
    "(Message \<Rightarrow> string res) \<Rightarrow> int \<Rightarrow> EncryptedMessage \<Rightarrow> Unit \<Rightarrow> Worker \<Rightarrow> (Worker \<times> Message option) res" where
  "start_task conn junk enc u wk =
     run_decryptor_task conn junk u (wk\<lparr>w_decryptor := Some (new_Decryptor (Some enc) (w_dict wk) (w_trigrams wk))\<rparr>)"

definition handle_decrypt ::
    "(Message \<Rightarrow> string res) \<Rightarrow> int \<Rightarrow> DecryptPayload \<Rightarrow> Worker \<Rightarrow> (Worker \<times> Message option) res" where
  "handle_decrypt conn junk p wk0 =
     (let wk = cache_text p wk0;
          ts = w_cachedCiphertext wk
      in if \<not> w_hasCiphertext wk then Inr (wk, None)
         else if dp_cipher p = CAESAR then
           (if dp_start_key p = [] \<or> dp_end_key p = []
            then Inr (wk\<lparr>w_decryptor := Some (new_Decryptor (Some (CaesarEncryptedMessage ts)) (w_dict wk) (w_trigrams wk))\<rparr>, None)
            else start_task conn junk (CaesarEncryptedMessage ts)
              (new_Unit (of_char (hd (dp_start_key p))) (of_char (hd (dp_end_key p))) (dp_cipher p) (dp_mode p) 1 (dp_noise p)) wk)
         else if dp_cipher p = VIGENERE then
           bindR (key_to_index (dp_start_key p)) (\<lambda>start.
           bindR (key_to_index (dp_end_key p)) (\<lambda>en.
           start_task conn junk (VigenereEncryptedMessage ts)
             (new_Unit start en (dp_cipher p) (dp_mode p) (dp_key_length p) (dp_noise p)) wk))
         else Inr (wk, None))"

definition handle_message ::
    "(Message \<Rightarrow> string res) \<Rightarrow> int \<Rightarrow> Message \<Rightarrow> Worker \<Rightarrow> (Worker \<times> Message option) res" where
  "handle_message conn junk m wk =
     (if msg_type m = REQUEST \<and> msg_action m = DECRYPT
      then case msg_payload m of Some (PDecrypt p) \<Rightarrow> handle_decrypt conn junk p wk
           | _ \<Rightarrow> Inl Null_dereference
      else Inr (wk, None))"

section \<open>The encoding of a unit\<close>

text \<open>
  The keys of a request, as \<^verbatim>\<open>WorkerSession::send_unit\<close> writes them: letters for Vigenere, one
  byte for Caesar.
\<close>

definition encode_key :: "CipherType \<Rightarrow> int \<Rightarrow> int \<Rightarrow> string res" where
  "encode_key cipher key_length i =
     (if cipher = VIGENERE
      then if key_length < 0 then Inl Length_error else Inr (index_to_key i (nat key_length))
      else Inr [char_of (i mod 256)])"

text \<open>The units that a coordinator makes: a known cipher and a range inside its key space.\<close>

definition unit_sound :: "Unit \<Rightarrow> bool" where
  "unit_sound u \<longleftrightarrow> 0 \<le> m_start u \<and> m_start u \<le> m_end u \<and> m_end u < 26 ^ nat (m_key_length u) \<and> int_ok (m_end u)
     \<and> 1 \<le> m_key_length u \<and> (m_cipher u = CAESAR \<and> m_key_length u = 1 \<or> m_cipher u = VIGENERE)
     \<and> (m_mode u = FAST \<longrightarrow> m_key_length u \<le> 7)"

definition message_of :: "CipherType \<Rightarrow> string \<Rightarrow> EncryptedMessage" where
  "message_of cipher ts = (if cipher = CAESAR then CaesarEncryptedMessage ts else VigenereEncryptedMessage ts)"

lemma unit_sound_valid: "unit_sound u \<Longrightarrow> unit_valid (message_of (m_cipher u) ts) u"
  by (auto simp: unit_sound_def unit_valid_def message_of_def is_caesar_def)

text \<open>What the request for a unit carries.\<close>

definition carries :: "Unit \<Rightarrow> DecryptPayload \<Rightarrow> bool" where
  "carries u p \<longleftrightarrow> dp_cipher p = m_cipher u \<and> dp_mode p = m_mode u \<and> dp_noise p = m_noise u
     \<and> dp_key_length p = m_key_length u
     \<and> encode_key (m_cipher u) (m_key_length u) (m_start u) = Inr (dp_start_key p)
     \<and> encode_key (m_cipher u) (m_key_length u) (m_end u) = Inr (dp_end_key p)"

lemma handle_decrypt_unit:
  assumes u: "unit_sound u" "carries u p" and has: "w_hasCiphertext (cache_text p wk)"
  shows "handle_decrypt conn junk p wk
    = start_task conn junk (message_of (m_cipher u) (w_cachedCiphertext (cache_text p wk)))
        (u\<lparr>m_status := Unassigned\<rparr>) (cache_text p wk)"
proof (cases "m_cipher u = CAESAR")
  case True
  then have kl: "m_key_length u = 1" "m_start u mod 256 = m_start u" "m_end u mod 256 = m_end u"
    using u(1) by (auto simp: unit_sound_def)
  then have "dp_start_key p = [char_of (m_start u)]" "dp_end_key p = [char_of (m_end u)]"
    using u(2) True by (auto simp: carries_def encode_key_def)
  moreover have "(of_char (char_of (m_start u) :: char) :: int) = m_start u" "(of_char (char_of (m_end u) :: char) :: int) = m_end u"
    using kl by (simp_all add: of_char_of)
  ultimately show ?thesis
    using True u(2) kl(1) has by (cases u) (simp add: handle_decrypt_def Let_def carries_def message_of_def new_Unit_def)
next
  case False
  then have v: "m_cipher u = VIGENERE" using u(1) by (auto simp: unit_sound_def)
  then have keys: "dp_start_key p = index_to_key (m_start u) (nat (m_key_length u))"
    "dp_end_key p = index_to_key (m_end u) (nat (m_key_length u))"
    using u by (auto simp: carries_def encode_key_def unit_sound_def split: if_splits)
  have "int_ok (m_start u)" using u(1) by (auto simp: unit_sound_def dest!: int_okD intro!: int_okI)
  then have "key_to_index (dp_start_key p) = Inr (m_start u)" "key_to_index (dp_end_key p) = Inr (m_end u)"
    using u(1) by (auto simp: keys unit_sound_def key_to_index_of_index)
  then show ?thesis
    using v u(2) has by (cases u) (simp add: handle_decrypt_def Let_def carries_def message_of_def new_Unit_def)
qed

section \<open>Honest answers\<close>

text \<open>The result that key number \<open>i\<close> deserves: the key, its score and the text it decrypts to.\<close>

definition solution :: "PolyAlphabeticDecryptor \<Rightarrow> EncryptedMessage \<Rightarrow> Unit \<Rightarrow> int \<Rightarrow> Result" where
  "solution d msg u i =
     (let key = index_to_key i (nat (m_key_length u))
      in \<lparr>res_key = key, res_score = key_score d msg u key, res_text = vigenere_decrypt (get_text msg) key\<rparr>)"

text \<open>
  An honest answer for a set of solutions: no solution has a smaller score, and the answer is one of
  them or has the score of the initial result, so that it will never replace another one.
\<close>

definition honest :: "Result set \<Rightarrow> Result \<Rightarrow> bool" where
  "honest C r \<longleftrightarrow> \<not> is_nan (res_score r) \<and> (\<forall>c \<in> insert init_result C. \<not> dbl_less (res_score c) (res_score r))
     \<and> (r \<in> C \<or> res_score r = res_score init_result)"

lemma candidate_score_eq [simp]:
  "res_score (candidate (key_score d msg u) (nat (m_key_length u)) i) = res_score (solution d msg u i)"
  by (simp add: candidate_def solution_def Let_def)

lemma solution_text:
  assumes "unit_valid msg u" and "0 \<le> i"
  shows "decrypt msg (res_key (solution d msg u i)) = Inr (res_text (solution d msg u i))"
  using assms decrypt_as_vigenere [of "index_to_key i (nat (m_key_length u))" msg]
  by (auto simp: solution_def Let_def unit_valid_def index_to_key_upper simp flip: length_0_conv)

text \<open>Whatever key wins, the marker of the initial result included, the text keeps its shape.\<close>

lemma vigenere_sentinel_shape: "same_shape t (vigenere_loop ''-1'' i t)"
proof (induction t arbitrary: i)
  case (Cons c cs)
  have "tolower (''-1'' ! (i mod 2)) - 97 \<le> 26"
    by (cases "i mod 2 = 0") (simp_all add: not_mod_2_eq_0_eq_1 tolower_def isupper_def schar_def)
  then have "vigenere_loop ''-1'' i (c # cs) =
      (if isalpha c then move (97 - tolower (''-1'' ! (i mod 2))) c # vigenere_loop ''-1'' (i + 1) cs
       else c # vigenere_loop ''-1'' i cs)"
    using shift_expr [of c "tolower (''-1'' ! (i mod 2)) - 97"]
    by (simp add: vigenere_loop.simps(2) Let_def numeral_2_eq_2)
  then show ?case using Cons by simp
qed simp

lemma move_shape: "same_shape t (map (move n) t)"
  by (induction t) (auto simp: move_def letter_at_alpha)

lemma decrypt_winner_shape:
  assumes "unit_valid msg u" and "key = ''-1'' \<or> (\<exists>i \<ge> 0. key = index_to_key i (nat (m_key_length u)))"
    and "decrypt msg key = Inr t"
  shows "same_shape (get_text msg) t"
  using assms(2)
proof
  assume "key = ''-1''"
  then show ?thesis using assms(3) vigenere_sentinel_shape move_shape
    by (cases msg) (auto simp: caesar_decrypt_sentinel vigenere_decrypt_def)
next
  assume "\<exists>i \<ge> 0. key = index_to_key i (nat (m_key_length u))"
  then obtain i where i: "0 \<le> i" "key = index_to_key i (nat (m_key_length u))" by blast
  then have key: "upper_key key" "key \<noteq> []" "is_caesar msg \<longrightarrow> length key = 1"
    using assms(1) by (auto simp: unit_valid_def index_to_key_upper simp flip: length_0_conv)
  then have "t = vigenere_decrypt (get_text msg) key" using assms(3) decrypt_as_vigenere by simp
  then show ?thesis using key(1,2) vigenere.dec_shape upper_key_vigenere by blast
qed

lemma isupper_ascii: "isupper c \<Longrightarrow> (of_char c :: int) < 128"
  using of_char_range [of c] by (auto simp: isupper_def schar_def Let_def split: if_splits)

lemma upper_key_ascii: "upper_key k \<Longrightarrow> ascii k"
  using isupper_ascii by (simp add: upper_key_def ascii_def list_all_iff)

lemma sentinel_ascii: "ascii ''-1''"
  by code_simp

lemma process_unit_honest:
  assumes msg: "d_message d = Some msg" and valid: "unit_valid msg u"
    and fresh: "d_best_result d = init_result" "d_streams d = zero_streams"
  shows "\<exists>d'. process_unit d u = Inr (d', mark_as_done u)
    \<and> honest (solution d msg u ` set (unit_keys u)) (get_best_result d')
    \<and> same_shape (get_text msg) (res_text (get_best_result d')) \<and> ascii (res_key (get_best_result d'))"
proof -
  let ?cand = "candidate (key_score d msg u) (nat (m_key_length u))"
  let ?b = "foldl (keep_better dbl_less res_score) init_result (map ?cand (unit_keys u))"
  from process_unit_fold [OF assms] obtain d' t where d': "process_unit d u = Inr (d', mark_as_done u)"
    "decrypt msg (res_key ?b) = Inr t" "d_best_result d' = ?b\<lparr>res_text := t\<rparr>" by blast
  have best: "is_best dbl_less is_nan res_score init_result (?cand ` set (unit_keys u)) ?b"
    using dbl_ord.foldl_best [of res_score init_result "map ?cand (unit_keys u)"] by (simp add: init_result_def)
  have key: "res_key ?b = ''-1'' \<or> (\<exists>i \<ge> 0. res_key ?b = index_to_key i (nat (m_key_length u)))"
  proof (cases "?b = init_result")
    case False
    then obtain i where "i \<in> set (unit_keys u)" "?b = ?cand i" using best unfolding is_best_def by blast
    then show ?thesis using valid
      by (intro disjI2 exI [of _ i]) (simp add: candidate_def unit_keys_def unit_valid_def)
  qed (simp add: init_result_def)
  have shape: "same_shape (get_text msg) t" using decrypt_winner_shape [OF valid key d'(2)] .
  have "ascii (res_key ?b)" using key upper_key_ascii [OF index_to_key_upper] sentinel_ascii by metis
  note shape = shape this
  have "?b\<lparr>res_text := t\<rparr> \<in> solution d msg u ` set (unit_keys u) \<or> res_score ?b = res_score init_result"
  proof (cases "?b = init_result")
    case False
    then obtain i where i: "i \<in> set (unit_keys u)" "?b = ?cand i"
      using best unfolding is_best_def by blast
    then have "0 \<le> i" using valid by (auto simp: unit_keys_def unit_valid_def)
    then have "t = res_text (solution d msg u i)"
      using solution_text [OF valid, of i d] d'(2) i(2) by (simp add: candidate_def solution_def Let_def)
    then have "?b\<lparr>res_text := t\<rparr> = solution d msg u i"
      using i(2) by (simp add: candidate_def solution_def Let_def)
    then show ?thesis using i(1) by blast
  qed simp
  with best have "honest (solution d msg u ` set (unit_keys u)) (?b\<lparr>res_text := t\<rparr>)"
    by (auto simp: honest_def is_best_def)
  then show ?thesis using d' shape by (auto simp: get_best_result_def)
qed

definition status_message :: "int \<Rightarrow> CipherType \<Rightarrow> Result \<Rightarrow> Message" where
  "status_message junk cipher r =
     create_status_request (PStatus (new_StatusPayload junk cipher (res_text r) (res_key r) (res_score r)))"

text \<open>The text that a worker will use for a request.\<close>

definition text_for :: "DecryptPayload \<Rightarrow> Worker \<Rightarrow> string" where
  "text_for p wk = (if dp_cipher_text p = [] then w_cachedCiphertext wk else dp_cipher_text p)"

lemma cache_text_fields:
  "w_cachedCiphertext (cache_text p wk) = text_for p wk"
  "w_hasCiphertext (cache_text p wk) \<longleftrightarrow> dp_cipher_text p \<noteq> [] \<or> w_hasCiphertext wk"
  "w_dict (cache_text p wk) = w_dict wk" "w_trigrams (cache_text p wk) = w_trigrams wk"
  by (simp_all add: cache_text_def text_for_def)

lemma solution_status [simp]: "solution d msg (u\<lparr>m_status := s\<rparr>) = solution d msg u"
  by (simp add: solution_def key_score_def fun_eq_iff Let_def)

lemma worker_answer:
  fixes u p wk
  defines "msg \<equiv> message_of (m_cipher u) (text_for p wk)"
  assumes u: "unit_sound u" "carries u p" and has: "dp_cipher_text p \<noteq> [] \<or> w_hasCiphertext wk"
    and conn: "\<And>r. \<lbrakk>same_shape (text_for p wk) (res_text r); ascii (res_key r);
        honest (solution (new_Decryptor (Some msg) (w_dict wk) (w_trigrams wk)) msg u ` set (unit_keys u)) r\<rbrakk>
      \<Longrightarrow> \<exists>bs. conn (status_message junk (m_cipher u) r) = Inr bs"
  shows "\<exists>wk' r. handle_message conn junk (create_decrypt_request (PDecrypt p)) wk
      = Inr (wk', Some (status_message junk (m_cipher u) r))
    \<and> honest (solution (new_Decryptor (Some msg) (w_dict wk) (w_trigrams wk)) msg u ` set (unit_keys u)) r
    \<and> w_cachedCiphertext wk' = text_for p wk \<and> w_hasCiphertext wk'
    \<and> w_dict wk' = w_dict wk \<and> w_trigrams wk' = w_trigrams wk"
proof -
  let ?d = "new_Decryptor (Some msg) (w_dict wk) (w_trigrams wk)" and ?u = "u\<lparr>m_status := Unassigned\<rparr>"
  have d: "d_message ?d = Some msg" "d_best_result ?d = init_result" "d_streams ?d = zero_streams"
    by (simp_all add: new_Decryptor_def)
  have "unit_valid msg ?u" using unit_sound_valid [OF u(1)] by (simp add: msg_def unit_valid_def)
  from process_unit_honest [OF d(1) this d(2,3)] obtain d' where d':
    "process_unit ?d ?u = Inr (d', mark_as_done ?u)"
    "honest (solution ?d msg u ` set (unit_keys u)) (get_best_result d')"
    "same_shape (get_text msg) (res_text (get_best_result d'))" "ascii (res_key (get_best_result d'))" by auto
  have "get_text msg = text_for p wk" by (simp add: msg_def message_of_def)
  with d'(2-4) conn obtain bs where bs: "conn (status_message junk (m_cipher u) (get_best_result d')) = Inr bs" by auto
  have c: "m_cipher (mark_as_done ?u) = m_cipher u" by (simp add: mark_as_done_def)
  have "handle_message conn junk (create_decrypt_request (PDecrypt p)) wk
      = start_task conn junk msg ?u (cache_text p wk)"
    using handle_decrypt_unit [OF u, of wk conn junk] has
    by (simp add: handle_message_def create_decrypt_request_def mk_Message_def msg_def cache_text_fields)
  also have "\<dots> = Inr ((cache_text p wk)\<lparr>w_decryptor := Some d'\<rparr>, Some (status_message junk (m_cipher u) (get_best_result d')))"
    using d'(1) bs c
    by (auto simp: start_task_def run_decryptor_task_def cache_text_fields status_message_def Let_def)
  finally show ?thesis using d'(2) has by (auto simp: cache_text_fields)
qed

section \<open>Silence\<close>

lemma alpha_class: "isalpha c \<Longrightarrow> utf8_class (of_char c) = 0"
  using of_char_range [of c]
  by (auto simp: isalpha_def isupper_def islower_def schar_def utf8_class_def Let_def split: if_splits)

lemma shape_utf8: "same_shape s t \<Longrightarrow> utf8_run st t = utf8_run st s"
proof (induction s arbitrary: t st)
  case (Cons c cs)
  then obtain b bs where t: "t = b # bs" "same_shape cs bs" "if isalpha c then isalpha b else b = c"
    by (cases t) (auto simp: same_shape_def split: if_splits)
  then have "utf8_decode st b = utf8_decode st c"
    by (auto simp: utf8_decode_def alpha_class split: if_splits)
  then show ?case using t Cons.IH by (simp add: Let_def)
qed (simp add: same_shape_def)

section \<open>Properties\<close>

text \<open>C35. A text that is not valid UTF-8 is searched but never answered: its decryption is not valid
  either, serialising the result throws, and the worker drops the exception.\<close>

theorem worker_silent_on_invalid_text:
  assumes "unit_sound u" and "carries u p" and "dp_cipher_text p \<noteq> [] \<or> w_hasCiphertext wk"
    and "\<not> utf8_ok (text_for p wk)" and "\<And>j. \<not> dump_ok j \<Longrightarrow> dump j = Inl (Json_type_error 316)"
  shows "\<exists>wk'. handle_message (send_message b64 dump) junk (create_decrypt_request (PDecrypt p)) wk = Inr (wk', None)"
proof -
  let ?msg = "message_of (m_cipher u) (text_for p wk)"
  let ?d = "new_Decryptor (Some ?msg) (w_dict wk) (w_trigrams wk)" and ?u = "u\<lparr>m_status := Unassigned\<rparr>"
  have d: "d_message ?d = Some ?msg" "d_best_result ?d = init_result" "d_streams ?d = zero_streams"
    by (simp_all add: new_Decryptor_def)
  have "unit_valid ?msg ?u" using unit_sound_valid [OF assms(1)] by (simp add: unit_valid_def)
  from process_unit_honest [OF d(1) this d(2,3)] obtain d' where d':
    "process_unit ?d ?u = Inr (d', mark_as_done ?u)"
    "same_shape (get_text ?msg) (res_text (get_best_result d'))" by auto
  then have "\<not> utf8_ok (res_text (get_best_result d'))"
    using assms(4) shape_utf8 [OF d'(2), of 0] by (simp add: utf8_ok_def message_of_def split: if_splits)
  then have "send_message b64 dump (create_status_request (PStatus (new_StatusPayload junk (m_cipher (mark_as_done ?u))
      (res_text (get_best_result d')) (res_key (get_best_result d')) (res_score (get_best_result d'))))) = Inl (Json_type_error 316)"
    using assms(5) by (auto simp: send_message_eq message_to_json_def create_status_request_def mk_Message_def
      status_to_json_def new_StatusPayload_def)
  then show ?thesis
    using handle_decrypt_unit [OF assms(1,2), of wk "send_message b64 dump" junk] assms(3) d'(1)
    by (simp add: handle_message_def create_decrypt_request_def mk_Message_def cache_text_fields
        start_task_def run_decryptor_task_def Let_def)
qed

theorem worker_silent_on_invalid_text_witness:
  "\<exists>wk'. handle_message (send_message id (\<lambda>j. if dump_ok j then Inr [] else Inl (Json_type_error 316))) 0
     (create_decrypt_request (PDecrypt
        \<lparr>dp_cipher = VIGENERE, dp_mode = BRUTE, dp_cipher_text = [CHR 0xFF], dp_noise = 0, dp_start_key = ''AB'',
         dp_end_key = ''AC'', dp_key_length = 2\<rparr>)) (new_Worker None None) = Inr (wk', None)"
proof (rule worker_silent_on_invalid_text [where u = "new_Unit 1 2 VIGENERE BRUTE 2 0"])
  have "index_to_key 1 2 = ''AB''" "index_to_key 2 2 = ''AC''" by code_simp+
  then show "carries (new_Unit 1 2 VIGENERE BRUTE 2 0) \<lparr>dp_cipher = VIGENERE, dp_mode = BRUTE,
      dp_cipher_text = [CHR 0xFF], dp_noise = 0, dp_start_key = ''AB'', dp_end_key = ''AC'', dp_key_length = 2\<rparr>"
    by (simp add: carries_def encode_key_def new_Unit_def)
  have "\<not> utf8_ok [CHR 0xFF]" unfolding utf8_ok_def by code_simp
  then show "\<not> utf8_ok (text_for \<lparr>dp_cipher = VIGENERE, dp_mode = BRUTE, dp_cipher_text = [CHR 0xFF],
      dp_noise = 0, dp_start_key = ''AB'', dp_end_key = ''AC'', dp_key_length = 2\<rparr> (new_Worker None None))"
    by (simp add: text_for_def)
qed (simp_all add: unit_sound_def new_Unit_def)

end
