(* ===== verification/Kasiski.thy ===== *)
theory Kasiski
  imports Ciphers Cpp_Double "HOL-Library.Multiset"
begin

text \<open>
  Guessing the key length, \<^verbatim>\<open>include/KasiskiAnalyzer.hpp\<close> and \<^verbatim>\<open>src/KasiskiAnalyzer.cpp\<close>: the
  distances of equal trigrams vote for their divisors, and the index of coincidence decides among the
  three divisors with most votes, or among all lengths if no trigram repeats. The theorems say that
  the guess stays between the least length and ten, that it exists for texts of ordinary length, and
  where the \<^verbatim>\<open>int\<close> products of the index overflow.

  \<^verbatim>\<open>std::sort\<close> may order equal votes in any way, so the sorting function is an argument, of which
  the theorems assume only what the standard promises.
\<close>

section \<open>Index of coincidence\<close>

fun ic_freq :: "string \<Rightarrow> int list \<Rightarrow> int list res" where
  "ic_freq [] freq = Inr freq"
| "ic_freq (c # cs) freq =
     (let i = toupper c - 65
      in if i < 0 \<or> 26 \<le> i then Inl (Undefined Array_bounds)
         else ic_freq cs (freq[nat i := freq ! nat i + 1]))"

fun ic_sum :: "int list \<Rightarrow> dbl \<Rightarrow> dbl res" where
  "ic_sum [] s = Inr s"
| "ic_sum (f # fs) s = bindR (chk_int (f * (f - 1))) (\<lambda>p. ic_sum fs (s + dbl_of_int p))"

definition calculateIndexOfCoincidence :: "string \<Rightarrow> dbl res" where
  "calculateIndexOfCoincidence txt =
     (if length txt < 2 then Inr 0
      else let n = int (length txt) in
        bindR (ic_freq txt (replicate 26 0)) (\<lambda>freq.
        bindR (ic_sum freq 0) (\<lambda>s.
        bindR (chk_int (n * (n - 1))) (\<lambda>d. Inr (s / dbl_of_int d)))))"

text \<open>Every \<open>len\<close>-th character from position \<open>j\<close> on.\<close>

function subsequence :: "string \<Rightarrow> nat \<Rightarrow> nat \<Rightarrow> string" where
  "subsequence txt len j = (if 0 < len \<and> j < length txt then txt ! j # subsequence txt len (j + len) else [])"
  by pat_completeness auto
termination
  by (relation "measure (\<lambda>(t, l, j). length t - j)") auto

declare subsequence.simps [simp del]

fun ic_total :: "string \<Rightarrow> nat \<Rightarrow> nat list \<Rightarrow> dbl \<Rightarrow> dbl res" where
  "ic_total txt len [] acc = Inr acc"
| "ic_total txt len (i # is) acc =
     bindR (calculateIndexOfCoincidence (subsequence txt len i)) (\<lambda>ic. ic_total txt len is (acc + ic))"

definition average_IC :: "string \<Rightarrow> nat \<Rightarrow> dbl res" where
  "average_IC txt len = mapR (\<lambda>s. s / dbl_of_int (int len)) (ic_total txt len [0..<len] 0)"

text \<open>The loops that keep the length with the greatest average.\<close>

fun best_IC :: "string \<Rightarrow> nat list \<Rightarrow> dbl \<Rightarrow> nat \<Rightarrow> nat res" where
  "best_IC txt [] bestIC bestLen = Inr bestLen"
| "best_IC txt (len # lens) bestIC bestLen =
     bindR (average_IC txt len) (\<lambda>ic.
       if bestIC < ic then best_IC txt lens ic len else best_IC txt lens bestIC bestLen)"

text \<open>The letters of a text in upper case.\<close>

definition clean_upper :: "string \<Rightarrow> string" where
  "clean_upper t = map (\<lambda>c. to_char (toupper c)) (filter isalpha t)"

definition guessKeyLengthByIC :: "string \<Rightarrow> nat \<Rightarrow> nat \<Rightarrow> nat res" where
  "guessKeyLengthByIC ciphertext minLen maxLen =
     best_IC (clean_upper ciphertext) [minLen..<Suc maxLen] 0 minLen"

section \<open>Kasiski examination\<close>

definition trigram_at :: "string \<Rightarrow> nat \<Rightarrow> string" where
  "trigram_at txt i = take 3 (drop i txt)"

text \<open>The positions of a trigram, and the distances of consecutive ones.\<close>

definition positions :: "string \<Rightarrow> string \<Rightarrow> nat list" where
  "positions txt tri = filter (\<lambda>i. i + 3 \<le> length txt \<and> trigram_at txt i = tri) [0..<length txt]"

fun gaps :: "nat list \<Rightarrow> nat list" where
  "gaps (a # b # ps) = (b - a) # gaps (b # ps)"
| "gaps ps = []"

text \<open>The keys of \<^verbatim>\<open>trigramPositions\<close> in order.\<close>

definition trigrams_of :: "string \<Rightarrow> string list" where
  "trigrams_of txt = sort (remdups (map (trigram_at txt) [0..<length txt - 2]))"

definition distances :: "string \<Rightarrow> nat list" where
  "distances txt = concat (map (\<lambda>tri. gaps (positions txt tri)) (trigrams_of txt))"

text \<open>The map \<^verbatim>\<open>divisorCount\<close>, by increasing divisor: only divisors that occur are keys.\<close>

definition divisorCount :: "nat \<Rightarrow> nat \<Rightarrow> nat list \<Rightarrow> (nat \<times> nat) list" where
  "divisorCount lo hi dists =
     filter (\<lambda>(d, n). 0 < n) (map (\<lambda>d. (d, length (filter (\<lambda>x. x mod d = 0) dists))) [lo..<Suc hi])"

definition MAX_LEN :: nat where "MAX_LEN = 10"

definition guessKeyLength ::
    "((nat \<times> nat) list \<Rightarrow> (nat \<times> nat) list) \<Rightarrow> string \<Rightarrow> nat \<Rightarrow> nat \<Rightarrow> nat res" where
  "guessKeyLength srt ciphertext minLen maxLen0 =
     (let maxLen = MAX_LEN;
          txt = clean_upper ciphertext;
          counts = divisorCount (max minLen 2) maxLen (distances txt)
      in if counts = [] then guessKeyLengthByIC txt minLen maxLen
         else let candidates = srt counts
              in best_IC txt (map fst (take 3 candidates)) 0 (fst (hd candidates)))"

text \<open>What \<^verbatim>\<open>std::sort\<close> by decreasing count promises.\<close>

definition sorts_desc :: "((nat \<times> nat) list \<Rightarrow> (nat \<times> nat) list) \<Rightarrow> bool" where
  "sorts_desc srt \<longleftrightarrow> (\<forall>xs. mset (srt xs) = mset xs \<and> sorted_wrt (\<lambda>a b. snd b \<le> snd a) (srt xs))"

text \<open>A stable sort is one of them.\<close>

definition stable_desc :: "(nat \<times> nat) list \<Rightarrow> (nat \<times> nat) list" where
  "stable_desc xs = sort_key (\<lambda>p. - int (snd p)) xs"

lemma stable_desc_sorts: "sorts_desc stable_desc"
proof -
  have "sorted_wrt (\<lambda>a b. snd b \<le> snd a) (stable_desc xs)" for xs
    using sorted_sort_key [of "\<lambda>p. - int (snd p)" xs]
    by (simp add: stable_desc_def sorted_map)
  then show ?thesis by (simp add: sorts_desc_def stable_desc_def)
qed

section \<open>No failure below the overflow\<close>

definition upper_text :: "string \<Rightarrow> bool" where
  "upper_text t \<longleftrightarrow> list_all isupper t"

lemma clean_upper_upper: "upper_text (clean_upper t)"
proof -
  have "isupper (to_char (toupper c))" if "isalpha c" for c
    using that pos_range [OF that] by (simp add: toupper_pos isupper_def schar_to_char)
  then show ?thesis by (simp add: upper_text_def clean_upper_def list_all_iff)
qed

lemma clean_upper_id: "upper_text t \<Longrightarrow> clean_upper t = t"
proof -
  have "to_char (toupper c) = c" if "isupper c" for c
    using that by (simp add: toupper_def isupper_def islower_def)
  then show "upper_text t \<Longrightarrow> clean_upper t = t"
    by (induction t) (simp_all add: upper_text_def clean_upper_def isalpha_def)
qed

lemma upper_index: "isupper c \<Longrightarrow> 0 \<le> toupper c - 65 \<and> toupper c - 65 < 26"
  by (auto simp: isupper_def toupper_def islower_def)

text \<open>The counters stay between zero and the number of letters.\<close>

lemma ic_freq_ok:
  assumes "upper_text t" and "length freq = 26" and "\<forall>f \<in> set freq. 0 \<le> f \<and> f \<le> m"
  shows "\<exists>freq'. ic_freq t freq = Inr freq' \<and> length freq' = 26
    \<and> (\<forall>f \<in> set freq'. 0 \<le> f \<and> f \<le> m + int (length t))"
  using assms
proof (induction t arbitrary: freq m)
  case Nil
  then show ?case by simp
next
  case (Cons c cs)
  let ?i = "nat (toupper c - 65)"
  have i: "?i < 26" "\<not> toupper c - 65 < 0" "\<not> 26 \<le> toupper c - 65"
    using Cons.prems(1) upper_index [of c] by (auto simp: upper_text_def)
  let ?freq = "freq[?i := freq ! ?i + 1]"
  have "freq ! ?i \<in> set freq" using i(1) Cons.prems(2) by simp
  then have "\<forall>f \<in> set ?freq. 0 \<le> f \<and> f \<le> m + 1"
    using Cons.prems(3) set_update_subset_insert [of freq ?i "freq ! ?i + 1"] by fastforce
  then obtain freq' where "ic_freq cs ?freq = Inr freq'" "length freq' = 26"
    "\<forall>f \<in> set freq'. 0 \<le> f \<and> f \<le> m + 1 + int (length cs)"
    using Cons.IH [of ?freq "m + 1"] Cons.prems by (auto simp: upper_text_def)
  then show ?case using i by (auto simp: Let_def)
qed

text \<open>46341 is the greatest number whose product with its predecessor fits an \<^verbatim>\<open>int\<close>.\<close>

lemma product_ok: "\<lbrakk>0 \<le> f; f \<le> 46341\<rbrakk> \<Longrightarrow> int_ok (f * (f - 1))"
proof -
  assume f: "0 \<le> f" "f \<le> 46341"
  then have "f * (f - 1) \<le> 46341 * 46340" by (cases "f = 0") (simp, intro mult_mono, auto)
  moreover have "0 \<le> f * (f - 1)" using f by (cases "f = 0") (simp, intro mult_nonneg_nonneg, auto)
  ultimately show ?thesis by (intro int_okI) auto
qed

lemma subsequence_props:
  "upper_text t \<Longrightarrow> upper_text (subsequence t len j) \<and> length (subsequence t len j) \<le> length t - j"
proof (induction t len j rule: subsequence.induct)
  case (1 t len j)
  show ?case
  proof (cases "0 < len \<and> j < length t")
    case True
    then have "length (subsequence t len (j + len)) \<le> length t - (j + len)" "upper_text (subsequence t len (j + len))"
      using 1 by auto
    moreover have "isupper (t ! j)" using True "1.prems" by (simp add: upper_text_def list_all_length)
    moreover have "subsequence t len j = t ! j # subsequence t len (j + len)"
      using True by (simp add: subsequence.simps [of t len j])
    ultimately show ?thesis using True by (auto simp: upper_text_def)
  qed (auto simp: subsequence.simps [of t len j] upper_text_def)
qed

lemma divisorCount_keys: "p \<in> set (divisorCount lo hi ds) \<Longrightarrow> lo \<le> fst p \<and> fst p \<le> hi"
  by (auto simp: divisorCount_def)

lemma clean_length: "length (clean_upper t) \<le> length t"
  by (simp add: clean_upper_def)

section \<open>What the index computes\<close>

text \<open>The specification: pairs of equal letters over all pairs, one rounding.\<close>

definition letter_count :: "string \<Rightarrow> nat \<Rightarrow> int" where
  "letter_count t i = int (length (filter (\<lambda>c. toupper c - 65 = int i) t))"

definition equal_pairs :: "string \<Rightarrow> int" where
  "equal_pairs t = (\<Sum>i\<leftarrow>[0..<26]. letter_count t i * (letter_count t i - 1))"

definition spec_IC :: "string \<Rightarrow> dbl" where
  "spec_IC t = (let n = int (length t)
     in if n < 2 then 0 else dbl_of_int (equal_pairs t) / dbl_of_int (n * (n - 1)))"

definition spec_average :: "string \<Rightarrow> nat \<Rightarrow> dbl" where
  "spec_average t len = foldl (\<lambda>a i. a + spec_IC (subsequence t len i)) 0 [0..<len] / dbl_of_int (int len)"

fun spec_best :: "string \<Rightarrow> nat list \<Rightarrow> dbl \<Rightarrow> nat \<Rightarrow> nat" where
  "spec_best t [] b l0 = l0"
| "spec_best t (l # ls) b l0 =
     (let ic = spec_average t l in if b < ic then spec_best t ls ic l else spec_best t ls b l0)"

lemma ic_freq_counts:
  assumes "upper_text t" and "length freq = 26"
  shows "ic_freq t freq = Inr (map (\<lambda>i. freq ! i + letter_count t i) [0..<26])"
  using assms
proof (induction t arbitrary: freq)
  case Nil
  then show ?case using map_nth [of freq] by (simp add: letter_count_def)
next
  case (Cons c cs)
  let ?i = "nat (toupper c - 65)"
  have i: "\<not> toupper c - 65 < 0" "\<not> 26 \<le> toupper c - 65"
    using Cons.prems(1) upper_index [of c] by (auto simp: upper_text_def)
  have "ic_freq (c # cs) freq = ic_freq cs (freq[?i := freq ! ?i + 1])" using i by (simp add: Let_def)
  also have "\<dots> = Inr (map (\<lambda>j. freq[?i := freq ! ?i + 1] ! j + letter_count cs j) [0..<26])"
    using Cons by (simp add: upper_text_def)
  also have "map (\<lambda>j. freq[?i := freq ! ?i + 1] ! j + letter_count cs j) [0..<26]
      = map (\<lambda>j. freq ! j + letter_count (c # cs) j) [0..<26]"
    using i Cons.prems(2) by (intro map_cong) (auto simp: letter_count_def nth_list_update)
  finally show ?case .
qed

lemma ic_sum_exact:
  assumes "\<forall>f \<in> set fs. 0 \<le> f \<and> f \<le> 46341" and "0 \<le> a" and "a + (\<Sum>f\<leftarrow>fs. f * (f - 1)) < 2 ^ 53"
  shows "ic_sum fs (dbl_of_int a) = Inr (dbl_of_int (a + (\<Sum>f\<leftarrow>fs. f * (f - 1))))"
  using assms
proof (induction fs arbitrary: a)
  case (Cons f fs)
  have pos: "0 \<le> g * (g - 1)" if "0 \<le> g" for g :: int
    using that by (cases "g = 0") (auto intro!: mult_nonneg_nonneg)
  have f: "0 \<le> f * (f - 1)" "int_ok (f * (f - 1))" using pos [of f] Cons.prems(1) product_ok by auto
  have rest: "0 \<le> (\<Sum>f\<leftarrow>fs. f * (f - 1))" using Cons.prems(1) pos by (intro sum_list_nonneg) auto
  have "dbl_of_int a + dbl_of_int (f * (f - 1)) = dbl_of_int (a + f * (f - 1))"
    using Cons.prems f rest by (intro dbl_add_nat) auto
  then have "ic_sum (f # fs) (dbl_of_int a) = ic_sum fs (dbl_of_int (a + f * (f - 1)))"
    using f by simp
  also have "\<dots> = Inr (dbl_of_int (a + f * (f - 1) + (\<Sum>f\<leftarrow>fs. f * (f - 1))))"
    using Cons f by (intro Cons.IH) (auto simp: algebra_simps)
  finally show ?case by (simp add: add.assoc)
qed simp

lemma letter_count_bounds: "0 \<le> letter_count t i \<and> letter_count t i \<le> int (length t)"
  by (simp add: letter_count_def)

lemma index_exact:
  assumes "upper_text t" and "length t \<le> 46341"
  shows "calculateIndexOfCoincidence t = Inr (spec_IC t)"
proof (cases "length t < 2")
  case False
  let ?fs = "map (letter_count t) [0..<26]"
  have f: "ic_freq t (replicate 26 0) = Inr ?fs"
    using ic_freq_counts [OF assms(1), of "replicate 26 0"] by (simp cong: map_cong)
  have small: "letter_count t i * (letter_count t i - 1) \<le> 46341 * 46340" for i
    using letter_count_bounds [of t i] assms(2)
    by (cases "letter_count t i = 0") (simp, intro mult_mono, auto)
  have "(\<Sum>f\<leftarrow>?fs. f * (f - 1)) \<le> (\<Sum>i\<leftarrow>[0..<26 :: nat]. 46341 * 46340)"
    unfolding map_map comp_def by (rule sum_list_mono) (rule small)
  then have "(\<Sum>f\<leftarrow>?fs. f * (f - 1)) < 2 ^ 53" by (simp add: sum_list_triv)
  moreover have "\<forall>f \<in> set ?fs. 0 \<le> f \<and> f \<le> 46341" 
  proof
    fix f
    assume "f \<in> set ?fs"
    then obtain i where "f = letter_count t i" by auto
    then show "0 \<le> f \<and> f \<le> 46341" using letter_count_bounds [of t i] assms(2) by linarith
  qed
  ultimately have "ic_sum ?fs (dbl_of_int 0) = Inr (dbl_of_int (equal_pairs t))"
    using ic_sum_exact [of ?fs 0] by (simp add: equal_pairs_def comp_def)
  moreover have "int_ok (int (length t) * (int (length t) - 1))"
    using assms(2) by (intro product_ok) auto
  ultimately show ?thesis
    using f False by (simp add: calculateIndexOfCoincidence_def spec_IC_def Let_def dbl_of_int_0)
qed (simp add: calculateIndexOfCoincidence_def spec_IC_def Let_def)

lemma average_exact:
  assumes "upper_text t" and "length t \<le> 46341"
  shows "average_IC t len = Inr (spec_average t len)"
proof -
  have "calculateIndexOfCoincidence (subsequence t len i) = Inr (spec_IC (subsequence t len i))" for i
    using index_exact subsequence_props [OF assms(1), of len i] assms(2) by auto
  then have "ic_total t len is a = Inr (foldl (\<lambda>a i. a + spec_IC (subsequence t len i)) a is)" for "is" a
    by (induction "is" arbitrary: a) simp_all
  then show ?thesis by (simp add: average_IC_def spec_average_def)
qed

lemma best_exact:
  assumes "upper_text t" and "length t \<le> 46341"
  shows "best_IC t ls b l0 = Inr (spec_best t ls b l0)"
  by (induction ls arbitrary: b l0) (simp_all add: average_exact [OF assms] Let_def)

lemma spec_best_mem: "spec_best t ls b l0 \<in> insert l0 (set ls)"
  by (induction ls arbitrary: b l0) (auto simp: Let_def)

lemma best_IC_ok:
  "\<lbrakk>upper_text t; length t \<le> 46341\<rbrakk> \<Longrightarrow> \<exists>l. best_IC t lens b l0 = Inr l \<and> l \<in> insert l0 (set lens)"
  using spec_best_mem best_exact by blast

lemma ic_sum_fails: "ic_sum fs a = Inl e \<Longrightarrow> e = Undefined Signed_overflow"
  by (induction fs arbitrary: a) (auto simp: chk_int_def bindR_eq_Inl split: if_splits)

lemma spec_average_fold:
  "spec_average t len = foldl (+) 0 (map (\<lambda>i. spec_IC (subsequence t len i)) [0..<len]) / dbl_of_int (int len)"
  by (simp add: spec_average_def foldl_map)

text \<open>The averages of a text with period nine for the lengths three and nine.\<close>

lemma period_nine:
  defines "a \<equiv> spec_average ''ABCDEFGHIABC'' 3" and "b \<equiv> spec_average ''ABCDEFGHIABC'' 9"
  shows "0 < a" "0 < b" "a < b"
proof -
  let ?x = "Fin False 6004799503160661 (- 55)" and ?t = "''ABCDEFGHIABC''"
  have "map (\<lambda>i. spec_IC (subsequence ?t 3 i)) [0..<3] = [?x, ?x, ?x]" by code_simp
  moreover have "0 + ?x = ?x" by (rule dbl_zero_add) (simp_all add: EMIN_def EMAX_def)
  moreover have "(?x + ?x + ?x) / dbl_of_int 3 = Fin False 6004799503160661 (- 55)" by code_simp
  ultimately have a: "a = Fin False 6004799503160661 (- 55)" by (simp add: a_def spec_average_fold)
  have "map (\<lambda>i. spec_IC (subsequence ?t 9 i)) [0..<9]
      = [dbl_of_int 1, dbl_of_int 1, dbl_of_int 1, 0, 0, 0, 0, 0, 0]" by code_simp
  moreover have "dbl_of_int 3 / dbl_of_int 9 = Fin False 6004799503160661 (- 54)" by code_simp
  ultimately have b: "b = Fin False 6004799503160661 (- 54)"
    by (simp add: b_def spec_average_fold dbl_add_nat flip: dbl_of_int_0)
  show "0 < a" "0 < b" unfolding a b by (simp_all add: dbl_zero_less)
  show "a < b" unfolding a b by code_simp
qed

section \<open>Properties\<close>

text \<open>C31. For every text of at most 46341 letters, and however equal votes are sorted, guessing the key
  length succeeds, and the guess lies between the least length asked for and ten.\<close>

theorem key_length_guess_bounded:
  assumes "sorts_desc srt" and "length (clean_upper t) \<le> 46341" and "2 \<le> lo" and "lo \<le> 10"
  shows "\<exists>l. guessKeyLength srt t lo hi = Inr l \<and> lo \<le> l \<and> l \<le> 10"
proof -
  let ?t = "clean_upper t" and ?counts = "divisorCount (max lo 2) MAX_LEN (distances (clean_upper t))"
  have t: "upper_text ?t" "clean_upper ?t = ?t" using clean_upper_upper clean_upper_id by blast+
  show ?thesis
  proof (cases "?counts = []")
    case True
    then have "guessKeyLength srt t lo hi = best_IC ?t [lo..<Suc MAX_LEN] 0 lo"
      by (simp add: guessKeyLength_def guessKeyLengthByIC_def Let_def t(2))
    then show ?thesis using best_IC_ok [OF t(1) assms(2), of "[lo..<Suc MAX_LEN]" 0 lo] assms(4)
      by (auto simp: MAX_LEN_def)
  next
    case False
    have eq: "mset (srt ?counts) = mset ?counts" using assms(1) by (simp add: sorts_desc_def)
    then have cands: "set (srt ?counts) = set ?counts" by (rule mset_eq_setD)
    then have "srt ?counts \<noteq> []" using False by (metis set_empty)
    then have "insert (fst (hd (srt ?counts))) (set (map fst (take 3 (srt ?counts)))) \<subseteq> fst ` set ?counts"
      using cands by (auto dest: in_set_takeD)
    moreover obtain l where "best_IC ?t (map fst (take 3 (srt ?counts))) 0 (fst (hd (srt ?counts))) = Inr l"
      "l \<in> insert (fst (hd (srt ?counts))) (set (map fst (take 3 (srt ?counts))))"
      using best_IC_ok [OF t(1) assms(2)] by blast
    ultimately have "guessKeyLength srt t lo hi = Inr l" "l \<in> fst ` set ?counts"
      using False by (auto simp: guessKeyLength_def Let_def)
    then show ?thesis using divisorCount_keys assms(3) by (fastforce simp: MAX_LEN_def)
  qed
qed

theorem key_length_guess_bounded_witness:
  "\<exists>l. guessKeyLength stable_desc ''LXFOPVEFRNHR LXFOPV'' 2 7 = Inr l \<and> 2 \<le> l \<and> l \<le> 10"
proof (rule key_length_guess_bounded [OF stable_desc_sorts])
  have "length (clean_upper ''LXFOPVEFRNHR LXFOPV'') = 18" by code_simp
  then show "length (clean_upper ''LXFOPVEFRNHR LXFOPV'') \<le> 46341" by simp
qed simp_all

text \<open>C32. For at most 46341 letters the index of coincidence is the number of ordered pairs of equal letters
  over the number of all ordered pairs, with a single rounding: the sum in between is exact.\<close>

theorem index_of_coincidence_exact:
  assumes "upper_text t" and "length t \<le> 46341"
  shows "calculateIndexOfCoincidence t = Inr (spec_IC t)"
  using assms by (rule index_exact)

theorem index_of_coincidence_exact_witness:
  "calculateIndexOfCoincidence ''ADGA'' = Inr (Fin False 6004799503160661 (- 55))"
proof -
  have "upper_text ''ADGA''" by code_simp
  then have "calculateIndexOfCoincidence ''ADGA'' = Inr (spec_IC ''ADGA'')"
    by (rule index_of_coincidence_exact) simp
  moreover have "spec_IC ''ADGA'' = Fin False 6004799503160661 (- 55)" by code_simp
  ultimately show ?thesis by (simp only:)
qed

text \<open>The greatest length that the caller asks for is ignored: a text with period nine is guessed to
  have a key of length nine, although at most seven was asked for.\<close>

theorem key_length_guess_ignores_maximum:
  "guessKeyLength stable_desc ''ABCDEFGHIABC'' 2 7 = Inr 9"
proof -
  let ?t = "''ABCDEFGHIABC''"
  have t: "clean_upper ?t = ?t" "upper_text ?t" "length ?t \<le> 46341" by (code_simp, code_simp, simp)
  have "stable_desc (divisorCount (max 2 2) MAX_LEN (distances ?t)) = [(3, 1), (9, 1)]" by code_simp
  moreover from this have "divisorCount (max 2 2) MAX_LEN (distances ?t) \<noteq> []" by (auto simp: stable_desc_def)
  ultimately have "guessKeyLength stable_desc ?t 2 7 = Inr (spec_best ?t [3, 9] 0 3)"
    using best_exact [OF t(2,3), of "[3, 9]" 0 3] by (simp only: guessKeyLength_def Let_def t(1)) simp
  moreover have "spec_best ?t [3, 9] 0 3 = 9" using period_nine(1,2,3) by (simp add: Let_def)
  ultimately show ?thesis by (simp only:)
qed

text \<open>The index of coincidence of more than 46341 letters overflows \<^verbatim>\<open>int\<close>: the number of letter
  pairs is computed as an \<^verbatim>\<open>int\<close> product, which is undefined from there on.\<close>

theorem index_of_coincidence_overflow:
  assumes "upper_text t" and "46341 < length t"
  shows "calculateIndexOfCoincidence t = Inl (Undefined Signed_overflow)"
proof -
  let ?n = "int (length t)"
  obtain freq where freq: "ic_freq t (replicate 26 0) = Inr freq"
    using ic_freq_ok [OF assms(1), of "replicate 26 0" 0] by auto
  have "46342 * 46341 \<le> ?n * (?n - 1)" using assms(2) by (intro mult_mono) auto
  then have "\<not> int_ok (?n * (?n - 1))" by (auto dest: int_okD)
  then show ?thesis using assms(2) freq ic_sum_fails [of freq 0]
    by (cases "ic_sum freq 0") (simp_all add: calculateIndexOfCoincidence_def Let_def chk_int_def)
qed

theorem index_of_coincidence_overflow_witness:
  "calculateIndexOfCoincidence (replicate 46342 CHR ''A'') = Inl (Undefined Signed_overflow)"
proof (rule index_of_coincidence_overflow)
  have "isupper CHR ''A''" by code_simp
  then show "upper_text (replicate 46342 CHR ''A'')" unfolding upper_text_def list_all_iff by (auto dest: in_set_replicate [THEN iffD1])
  have "length (replicate 46342 CHR ''A'') = 46342" by (rule length_replicate)
  then show "46341 < length (replicate 46342 CHR ''A'')" by linarith
qed

end
