(* ===== verification/Grisu.thy ===== *)
theory Grisu
  imports Cpp_Double Cpp_String
begin

text \<open>
  The text of a double in \<^verbatim>\<open>include/nlohmann/json.hpp\<close> (namespace \<^verbatim>\<open>dtoa_impl\<close> and \<^verbatim>\<open>to_chars\<close>): Grisu2 by Loitsch.
  Values of type \<^verbatim>\<open>uint64_t\<close> are integers with the wrap-around written out where an operation can wrap; a failed
  \<^verbatim>\<open>JSON_ASSERT\<close> is \<open>Assertion_failed\<close>. The buffer is the string of the digits written so far.
\<close>

section \<open>Numbers with a 64-bit significand\<close>

definition u64 :: "int \<Rightarrow> int" where
  "u64 x = x mod 18446744073709551616"

definition u32_lo :: "int \<Rightarrow> int" where "u32_lo x = x mod 4294967296"
definition u32_hi :: "int \<Rightarrow> int" where "u32_hi x = x div 4294967296"

text \<open>\<^verbatim>\<open>diyfp\<close>: the number \<open>df * 2^de\<close>.\<close>

record diyfp =
  df :: int
  de :: int

definition assertion :: "bool \<Rightarrow> 'a res \<Rightarrow> 'a res" where
  "assertion b x = (if b then x else Inl Assertion_failed)"

definition diyfp_sub :: "diyfp \<Rightarrow> diyfp \<Rightarrow> diyfp res" where
  "diyfp_sub x y = assertion (de x = de y) (assertion (df y \<le> df x) (Inr \<lparr>df = df x - df y, de = de x\<rparr>))"

text \<open>The upper 64 bits of the product, from four products of 32 bits.\<close>

definition diyfp_mul :: "diyfp \<Rightarrow> diyfp \<Rightarrow> diyfp" where
  "diyfp_mul x y =
     (let u_lo = u32_lo (df x); u_hi = u32_hi (df x); v_lo = u32_lo (df y); v_hi = u32_hi (df y);
          p0 = u64 (u_lo * v_lo); p1 = u64 (u_lo * v_hi); p2 = u64 (u_hi * v_lo); p3 = u64 (u_hi * v_hi);
          q = u64 (u32_hi p0 + u32_lo p1 + u32_lo p2);
          q' = u64 (q + 2147483648);
          h = u64 (p3 + u32_hi p2 + u32_hi p1 + u32_hi q')
      in \<lparr>df = h, de = de x + de y + 64\<rparr>)"

text \<open>\<^verbatim>\<open>normalize\<close>: shift until the highest bit is set.\<close>

function normalize_loop :: "int \<Rightarrow> int \<Rightarrow> diyfp" where
  "normalize_loop f e =
     (if f \<le> 0 \<or> f div 9223372036854775808 \<noteq> 0 then \<lparr>df = f, de = e\<rparr> else normalize_loop (u64 (2 * f)) (e - 1))"
  by pat_completeness auto
termination
  by (relation "measure (\<lambda>(f, e). nat (9223372036854775808 - f))") (auto simp: u64_def zdiv_eq_0_iff)

declare normalize_loop.simps [simp del]

definition diyfp_normalize :: "diyfp \<Rightarrow> diyfp res" where
  "diyfp_normalize x = assertion (df x \<noteq> 0) (Inr (normalize_loop (df x) (de x)))"

definition normalize_to :: "diyfp \<Rightarrow> int \<Rightarrow> diyfp res" where
  "normalize_to x target =
     (let delta = de x - target
      in assertion (0 \<le> delta) (assertion (u64 (df x * 2 ^ nat delta) div 2 ^ nat delta = df x)
           (Inr \<lparr>df = u64 (df x * 2 ^ nat delta), de = target\<rparr>)))"

section \<open>Boundaries\<close>

text \<open>The fields of the IEEE representation of a finite positive double: the biased exponent and the fraction.\<close>

fun ieee_bits :: "dbl \<Rightarrow> int \<times> int" where
  "ieee_bits (Fin s m e) = (if m < 4503599627370496 then (0, m) else (e + 1075, m - 4503599627370496))"
| "ieee_bits d = (2047, 0)"

text \<open>\<^verbatim>\<open>compute_boundaries\<close>: the lower boundary, the value and the upper boundary.\<close>

definition compute_boundaries :: "dbl \<Rightarrow> (diyfp \<times> diyfp \<times> diyfp) res" where
  "compute_boundaries value =
     assertion (is_finite value) (assertion (0 < value)
       (case ieee_bits value of (E, F) \<Rightarrow>
          let v = (if E = 0 then \<lparr>df = F, de = - 1074\<rparr> else \<lparr>df = F + 4503599627370496, de = E - 1075\<rparr>);
              m_plus = \<lparr>df = u64 (2 * df v + 1), de = de v - 1\<rparr>;
              m_minus = (if F = 0 \<and> 1 < E then \<lparr>df = u64 (4 * df v - 1), de = de v - 2\<rparr>
                         else \<lparr>df = u64 (2 * df v - 1), de = de v - 1\<rparr>)
          in bindR (diyfp_normalize m_plus) (\<lambda>w_plus.
             bindR (normalize_to m_minus (de w_plus)) (\<lambda>w_minus.
             bindR (diyfp_normalize v) (\<lambda>w. Inr (w_minus, w, w_plus))))))"

section \<open>Cached powers of ten\<close>

definition kAlpha :: int where "kAlpha = - 60"
definition kGamma :: int where "kGamma = - 32"

text \<open>\<open>(f, e, k)\<close> with \<open>f * 2^e\<close> close to \<open>10^k\<close>.\<close>

definition kCachedPowers :: "(int \<times> int \<times> int) list" where
  "kCachedPowers =
    [(0xAB70FE17C79AC6CA, - 1060, - 300), (0xFF77B1FCBEBCDC4F, - 1034, - 292), (0xBE5691EF416BD60C, - 1007, - 284),
     (0x8DD01FAD907FFC3C, - 980, - 276), (0xD3515C2831559A83, - 954, - 268), (0x9D71AC8FADA6C9B5, - 927, - 260),
     (0xEA9C227723EE8BCB, - 901, - 252), (0xAECC49914078536D, - 874, - 244), (0x823C12795DB6CE57, - 847, - 236),
     (0xC21094364DFB5637, - 821, - 228), (0x9096EA6F3848984F, - 794, - 220), (0xD77485CB25823AC7, - 768, - 212),
     (0xA086CFCD97BF97F4, - 741, - 204), (0xEF340A98172AACE5, - 715, - 196), (0xB23867FB2A35B28E, - 688, - 188),
     (0x84C8D4DFD2C63F3B, - 661, - 180), (0xC5DD44271AD3CDBA, - 635, - 172), (0x936B9FCEBB25C996, - 608, - 164),
     (0xDBAC6C247D62A584, - 582, - 156), (0xA3AB66580D5FDAF6, - 555, - 148), (0xF3E2F893DEC3F126, - 529, - 140),
     (0xB5B5ADA8AAFF80B8, - 502, - 132), (0x87625F056C7C4A8B, - 475, - 124), (0xC9BCFF6034C13053, - 449, - 116),
     (0x964E858C91BA2655, - 422, - 108), (0xDFF9772470297EBD, - 396, - 100), (0xA6DFBD9FB8E5B88F, - 369, - 92),
     (0xF8A95FCF88747D94, - 343, - 84), (0xB94470938FA89BCF, - 316, - 76), (0x8A08F0F8BF0F156B, - 289, - 68),
     (0xCDB02555653131B6, - 263, - 60), (0x993FE2C6D07B7FAC, - 236, - 52), (0xE45C10C42A2B3B06, - 210, - 44),
     (0xAA242499697392D3, - 183, - 36), (0xFD87B5F28300CA0E, - 157, - 28), (0xBCE5086492111AEB, - 130, - 20),
     (0x8CBCCC096F5088CC, - 103, - 12), (0xD1B71758E219652C, - 77, - 4), (0x9C40000000000000, - 50, 4),
     (0xE8D4A51000000000, - 24, 12), (0xAD78EBC5AC620000, 3, 20), (0x813F3978F8940984, 30, 28),
     (0xC097CE7BC90715B3, 56, 36), (0x8F7E32CE7BEA5C70, 83, 44), (0xD5D238A4ABE98068, 109, 52),
     (0x9F4F2726179A2245, 136, 60), (0xED63A231D4C4FB27, 162, 68), (0xB0DE65388CC8ADA8, 189, 76),
     (0x83C7088E1AAB65DB, 216, 84), (0xC45D1DF942711D9A, 242, 92), (0x924D692CA61BE758, 269, 100),
     (0xDA01EE641A708DEA, 295, 108), (0xA26DA3999AEF774A, 322, 116), (0xF209787BB47D6B85, 348, 124),
     (0xB454E4A179DD1877, 375, 132), (0x865B86925B9BC5C2, 402, 140), (0xC83553C5C8965D3D, 428, 148),
     (0x952AB45CFA97A0B3, 455, 156), (0xDE469FBD99A05FE3, 481, 164), (0xA59BC234DB398C25, 508, 172),
     (0xF6C69A72A3989F5C, 534, 180), (0xB7DCBF5354E9BECE, 561, 188), (0x88FCF317F22241E2, 588, 196),
     (0xCC20CE9BD35C78A5, 614, 204), (0x98165AF37B2153DF, 641, 212), (0xE2A0B5DC971F303A, 667, 220),
     (0xA8D9D1535CE3B396, 694, 228), (0xFB9B7CD9A4A7443C, 720, 236), (0xBB764C4CA7A44410, 747, 244),
     (0x8BAB8EEFB6409C1A, 774, 252), (0xD01FEF10A657842C, 800, 260), (0x9B10A4E5E9913129, 827, 268),
     (0xE7109BFBA19C0C9D, 853, 276), (0xAC2820D9623BF429, 880, 284), (0x80444B5E7AA7CF85, 907, 292),
     (0xBF21E44003ACDD2D, 933, 300), (0x8E679C2F5E44FF8F, 960, 308), (0xD433179D9C8CB841, 986, 316),
     (0x9E19DB92B4E31BA9, 1013, 324)]"

definition cached_index :: "int \<Rightarrow> int" where
  "cached_index e =
     (let f = kAlpha - e - 1; k = f * 78913 sdiv 262144 + (if 0 < f then 1 else 0)
      in (300 + k + 7) sdiv 8)"

definition get_cached_power :: "int \<Rightarrow> (int \<times> int \<times> int) res" where
  "get_cached_power e =
     assertion (- 1500 \<le> e) (assertion (e \<le> 1500)
       (let index = cached_index e
        in assertion (0 \<le> index) (assertion (index < 79)
             (case kCachedPowers ! nat index of (cf, ce, ck) \<Rightarrow>
                assertion (kAlpha \<le> ce + e + 64) (assertion (ce + e + 64 \<le> kGamma) (Inr (cf, ce, ck)))))))"

section \<open>Digits\<close>

text \<open>\<^verbatim>\<open>find_largest_pow10\<close>: the number of digits and the power of ten of the first one.\<close>

definition find_largest_pow10 :: "int \<Rightarrow> nat \<times> int" where
  "find_largest_pow10 n =
     (if 1000000000 \<le> n then (10, 1000000000)
      else if 100000000 \<le> n then (9, 100000000)
      else if 10000000 \<le> n then (8, 10000000)
      else if 1000000 \<le> n then (7, 1000000)
      else if 100000 \<le> n then (6, 100000)
      else if 10000 \<le> n then (5, 10000)
      else if 1000 \<le> n then (4, 1000)
      else if 100 \<le> n then (3, 100)
      else if 10 \<le> n then (2, 10)
      else (1, 1))"

text \<open>
  \<^verbatim>\<open>grisu2_round\<close>: the last digit is decremented while this comes closer to the value. The conditions are evaluated from
  the left, so no sum or difference wraps.
\<close>

function round_loop :: "string \<Rightarrow> int \<Rightarrow> int \<Rightarrow> int \<Rightarrow> int \<Rightarrow> string res" where
  "round_loop buf dst delta rest ten_k =
     (if 0 < ten_k \<and> rest < dst \<and> ten_k \<le> delta - rest \<and> (rest + ten_k < dst \<or> rest + ten_k - dst < dst - rest)
      then assertion (last buf \<noteq> CHR ''0'')
             (round_loop (butlast buf @ [to_char (schar (last buf) - 1)]) dst delta (rest + ten_k) ten_k)
      else Inr buf)"
  by pat_completeness auto
termination
  by (relation "measure (\<lambda>(buf, dst, delta, rest, ten_k). nat (dst - rest))") auto

declare round_loop.simps [simp del]

definition grisu2_round :: "string \<Rightarrow> int \<Rightarrow> int \<Rightarrow> int \<Rightarrow> int \<Rightarrow> string res" where
  "grisu2_round buf dst delta rest ten_k =
     assertion (buf \<noteq> []) (assertion (dst \<le> delta) (assertion (rest \<le> delta) (assertion (0 < ten_k)
       (round_loop buf dst delta rest ten_k))))"

text \<open>The number of the powers of two up to \<open>2^s\<close> that do not divide a number; multiplying it by ten modulo \<open>2^s\<close> makes it smaller.\<close>

definition odd_part :: "nat \<Rightarrow> int \<Rightarrow> nat" where
  "odd_part s p = card {i. i \<le> s \<and> \<not> 2 ^ i dvd p}"

lemma odd_part_less:
  assumes "10 * p mod 2 ^ s \<noteq> 0"
  shows "odd_part s (10 * p mod 2 ^ s) < odd_part s p"
proof -
  let ?r = "10 * p mod 2 ^ s" and ?A = "\<lambda>p. {i. i \<le> s \<and> \<not> 2 ^ i dvd p}"
  have s: "\<not> 2 ^ s dvd p" using assms by (metis dvd_mult dvd_imp_mod_0)
  have sub: "?A ?r \<subseteq> Suc ` (?A p - {s})"
  proof
    fix i
    assume i: "i \<in> ?A ?r"
    then have nd: "\<not> 2 ^ i dvd 10 * p" using le_imp_power_dvd [of i s "2 :: int"] by (simp add: dvd_mod_iff)
    then obtain j where j: "i = Suc j" by (cases i) auto
    have "\<not> 2 ^ j dvd p"
    proof
      assume "2 ^ j dvd p"
      then have "2 * 2 ^ j dvd 2 * (5 * p)" by (intro mult_dvd_mono) (simp_all add: dvd_mult)
      then show False using nd j by simp
    qed
    then show "i \<in> Suc ` (?A p - {s})" using i j by auto
  qed
  have fin: "finite (?A p)" by simp
  have "card (?A ?r) \<le> card (Suc ` (?A p - {s}))" using sub fin by (intro card_mono) auto
  also have "\<dots> = card (?A p - {s})" by (simp add: card_image)
  also have "\<dots> < card (?A p)" using s fin by (intro card_Diff1_less) auto
  finally show ?thesis by (simp add: odd_part_def)
qed

text \<open>
  The second loop of \<^verbatim>\<open>grisu2_digit_gen\<close>, over the fraction \<open>p2 / 2^s\<close>. It ends: the fraction gains a factor two in each
  round and is zero after at most \<open>s\<close> rounds.
\<close>

function gen_fraction :: "nat \<Rightarrow> int \<Rightarrow> int \<Rightarrow> int \<Rightarrow> int \<Rightarrow> string \<Rightarrow> (string \<times> int) res" where
  "gen_fraction s p2 m delta dst buffer =
     (if p2 \<le> 18446744073709551615 div 10
      then (let d = 10 * p2 div 2 ^ s; r = 10 * p2 mod 2 ^ s; buffer' = buffer @ [to_char (48 + d)];
                delta' = u64 (10 * delta); dst' = u64 (10 * dst)
            in if \<not> d \<le> 9 then Inl Assertion_failed
               else if r \<le> delta' then mapR (\<lambda>b. (b, - (m + 1))) (grisu2_round buffer' dst' delta' r (2 ^ s))
               else gen_fraction s r (m + 1) delta' dst' buffer')
      else Inl Assertion_failed)"
  by pat_completeness auto

termination
proof (relation "measure (\<lambda>(s, p2, m, delta, dst, buffer). odd_part s p2)")
  show "((s, r, m + 1, delta', dst', buffer'), s, p2, m, delta, dst, buffer)
      \<in> measure (\<lambda>(s, p2, m, delta, dst, buffer). odd_part s p2)"
    if "r = 10 * p2 mod 2 ^ s" "\<not> r \<le> delta'" "delta' = u64 (10 * delta)" for s p2 m delta dst r delta' dst' and buffer buffer' :: string
  proof -
    have "0 \<le> delta'" using that(3) by (simp add: u64_def)
    then have "r \<noteq> 0" using that(2) by linarith
    then show ?thesis using odd_part_less [of p2 s] that(1) by simp
  qed
qed simp

declare gen_fraction.simps [simp del]

text \<open>
  The first loop, over the integral part: \<open>n\<close> digits are left, and the decimal exponent grows by the number of digits that
  were not written. After it the fraction must still be larger than \<open>delta\<close>.
\<close>

fun gen_integral :: "nat \<Rightarrow> int \<Rightarrow> int \<Rightarrow> int \<Rightarrow> nat \<Rightarrow> int \<Rightarrow> int \<Rightarrow> string \<Rightarrow> (string \<times> int) res" where
  "gen_integral s p2 delta dst 0 p1 pow10 buffer =
     assertion (delta < p2) (gen_fraction s p2 0 delta dst buffer)"
| "gen_integral s p2 delta dst (Suc n) p1 pow10 buffer =
     (let d = p1 div pow10; r = p1 mod pow10; buffer' = buffer @ [to_char (48 + d)]; rest = u64 (u64 (r * 2 ^ s) + p2)
      in assertion (d \<le> 9)
           (if rest \<le> delta then mapR (\<lambda>b. (b, int n)) (grisu2_round buffer' dst delta rest (u64 (pow10 * 2 ^ s)))
            else gen_integral s p2 delta dst n r (pow10 div 10) buffer'))"

text \<open>\<^verbatim>\<open>grisu2_digit_gen\<close>: the digits and the change of the decimal exponent.\<close>

definition grisu2_digit_gen :: "diyfp \<Rightarrow> diyfp \<Rightarrow> diyfp \<Rightarrow> (string \<times> int) res" where
  "grisu2_digit_gen M_minus w M_plus =
     assertion (kAlpha \<le> de M_plus) (assertion (de M_plus \<le> kGamma)
       (bindR (diyfp_sub M_plus M_minus) (\<lambda>delta.
        bindR (diyfp_sub M_plus w) (\<lambda>dst.
        let s = nat (- de M_plus); p1 = df M_plus div 2 ^ s mod 4294967296; p2 = df M_plus mod 2 ^ s
        in assertion (0 < p1)
             (case find_largest_pow10 p1 of (k, pow10) \<Rightarrow>
                gen_integral s p2 (df delta) (df dst) k p1 pow10 [])))))"

definition grisu2 :: "diyfp \<Rightarrow> diyfp \<Rightarrow> diyfp \<Rightarrow> (string \<times> int) res" where
  "grisu2 m_minus v m_plus =
     assertion (de m_plus = de m_minus) (assertion (de m_plus = de v)
       (bindR (get_cached_power (de m_plus)) (\<lambda>(cf, ce, ck).
        let c_minus_k = \<lparr>df = cf, de = ce\<rparr>;
            w = diyfp_mul v c_minus_k; w_minus = diyfp_mul m_minus c_minus_k; w_plus = diyfp_mul m_plus c_minus_k;
            M_minus = \<lparr>df = u64 (df w_minus + 1), de = de w_minus\<rparr>;
            M_plus = \<lparr>df = u64 (df w_plus - 1), de = de w_plus\<rparr>
        in mapR (\<lambda>(buf, dec). (buf, dec - ck)) (grisu2_digit_gen M_minus w M_plus))))"

definition grisu2_value :: "dbl \<Rightarrow> (string \<times> int) res" where
  "grisu2_value value =
     assertion (is_finite value) (assertion (0 < value)
       (bindR (compute_boundaries value) (\<lambda>(m_minus, w, m_plus). grisu2 m_minus w m_plus)))"

section \<open>Formatting\<close>

definition append_exponent :: "int \<Rightarrow> string res" where
  "append_exponent e =
     assertion (- 1000 < e) (assertion (e < 1000)
       (let k = \<bar>e\<bar>
        in Inr ((if e < 0 then CHR ''-'' else CHR ''+'') #
             (if k < 10 then [CHR ''0'', to_char (48 + k)]
              else if k < 100 then [to_char (48 + k div 10), to_char (48 + k mod 10)]
              else [to_char (48 + k div 100), to_char (48 + k mod 100 div 10), to_char (48 + k mod 100 mod 10)]))))"

definition format_buffer :: "string \<Rightarrow> int \<Rightarrow> int \<Rightarrow> int \<Rightarrow> string res" where
  "format_buffer buf decimal_exponent min_exp max_exp =
     assertion (min_exp < 0) (assertion (0 < max_exp)
       (let k = int (length buf); n = k + decimal_exponent
        in if k \<le> n \<and> n \<le> max_exp then Inr (buf @ replicate (nat (n - k)) (CHR ''0'') @ ''.0'')
           else if 0 < n \<and> n \<le> max_exp then assertion (n < k) (Inr (take (nat n) buf @ CHR ''.'' # drop (nat n) buf))
           else if min_exp < n \<and> n \<le> 0 then Inr (CHR ''0'' # CHR ''.'' # replicate (nat (- n)) (CHR ''0'') @ buf)
           else mapR (\<lambda>ex. (if k = 1 then buf else hd buf # CHR ''.'' # tl buf) @ CHR ''e'' # ex) (append_exponent (n - 1))))"

fun signbit :: "dbl \<Rightarrow> bool" where
  "signbit (Fin s m e) = s"
| "signbit (Infinity s) = s"
| "signbit NaN = False"

text \<open>
  \<^verbatim>\<open>to_chars\<close>; the assertions on the size of the buffer hold, its 64 characters are more than the 25 that are needed.
\<close>

definition to_chars :: "dbl \<Rightarrow> string res" where
  "to_chars value =
     assertion (is_finite value)
       (let neg = signbit value; value' = (if neg then - value else value); pre = (if neg then ''-'' else [])
        in if dbl_eq value' 0 then Inr (pre @ ''0.0'')
           else bindR (grisu2_value value') (\<lambda>(buf, decimal_exponent).
                assertion (length buf \<le> 17)
                  (mapR (\<lambda>t. pre @ t) (format_buffer buf decimal_exponent (- 4) 15))))"

end
