(* ===== verification/Json_Lexer.thy ===== *)
theory Json_Lexer
  imports Json
begin

text \<open>
  The lexer of \<^verbatim>\<open>include/nlohmann/json.hpp\<close> (class \<^verbatim>\<open>lexer\<close>): tokens from bytes, with strings, numbers and
  literals. The input adapter is the list of the bytes that are still to be read; \<^verbatim>\<open>get\<close> takes the first one and the
  end of the list is \<^verbatim>\<open>eof\<close>. \<^verbatim>\<open>unget\<close> leaves the byte in the list. After the token \<open>Parse_error\<close> the parser
  throws, so the input that is left then is not kept. Comments are off, as in every call of the program, and the decimal
  point is the one of the \<^verbatim>\<open>"C"\<close> locale.

  Proved here: every token but the end of the input takes at least one byte (so the parser's loop ends), and the lexer
  reads back what the serializer writes for a string or an integer.
\<close>

section \<open>Strings\<close>

text \<open>\<^verbatim>\<open>get_codepoint\<close>: four hexadecimal digits, with the loop over the factors.\<close>

definition hex_digit :: "char \<Rightarrow> int option" where
  "hex_digit c =
     (let b = of_char c
      in if 48 \<le> b \<and> b \<le> 57 then Some (b - 48)
         else if 65 \<le> b \<and> b \<le> 70 then Some (b - 55)
         else if 97 \<le> b \<and> b \<le> 102 then Some (b - 87)
         else None)"

fun codepoint_loop :: "nat list \<Rightarrow> int \<Rightarrow> string \<Rightarrow> (int \<times> string) option" where
  "codepoint_loop [] codepoint cs = Some (codepoint, cs)"
| "codepoint_loop (factor # fs) codepoint [] = None"
| "codepoint_loop (factor # fs) codepoint (c # cs) =
     (case hex_digit c of None \<Rightarrow> None | Some d \<Rightarrow> codepoint_loop fs (codepoint + push_bit factor d) cs)"

definition get_codepoint :: "string \<Rightarrow> (int \<times> string) option" where
  "get_codepoint cs = codepoint_loop [12, 8, 4, 0] 0 cs"

text \<open>The code point of a \<^verbatim>\<open>\u\<close> escape, with a second one for a surrogate pair.\<close>

definition scan_unicode :: "string \<Rightarrow> (int \<times> string) option" where
  "scan_unicode cs =
     (case get_codepoint cs of
        None \<Rightarrow> None
      | Some (codepoint1, cs1) \<Rightarrow>
          if 0xD800 \<le> codepoint1 \<and> codepoint1 \<le> 0xDBFF
          then (case cs1 of
                  a # b # cs2 \<Rightarrow>
                    if a = CHR 0x5C \<and> b = CHR ''u''
                    then (case get_codepoint cs2 of
                            None \<Rightarrow> None
                          | Some (codepoint2, cs3) \<Rightarrow>
                              if 0xDC00 \<le> codepoint2 \<and> codepoint2 \<le> 0xDFFF
                              then Some (push_bit 10 codepoint1 + codepoint2 - 0x35FDC00, cs3)
                              else None)
                    else None
                | _ \<Rightarrow> None)
          else if 0xDC00 \<le> codepoint1 \<and> codepoint1 \<le> 0xDFFF then None
          else Some (codepoint1, cs1))"

text \<open>The bytes of a code point.\<close>

definition codepoint_bytes :: "int \<Rightarrow> string" where
  "codepoint_bytes cp =
     (if cp < 0x80 then [to_char cp]
      else if cp \<le> 0x7FF then [to_char (or 0xC0 (drop_bit 6 cp)), to_char (or 0x80 (and cp 0x3F))]
      else if cp \<le> 0xFFFF
      then [to_char (or 0xE0 (drop_bit 12 cp)), to_char (or 0x80 (and (drop_bit 6 cp) 0x3F)),
            to_char (or 0x80 (and cp 0x3F))]
      else [to_char (or 0xF0 (drop_bit 18 cp)), to_char (or 0x80 (and (drop_bit 12 cp) 0x3F)),
            to_char (or 0x80 (and (drop_bit 6 cp) 0x3F)), to_char (or 0x80 (and cp 0x3F))])"

text \<open>The escapes of one character.\<close>

definition simple_escape :: "char \<Rightarrow> char option" where
  "simple_escape c =
     (if c = CHR 0x22 then Some (CHR 0x22)
      else if c = CHR 0x5C then Some (CHR 0x5C)
      else if c = CHR ''/'' then Some (CHR ''/'')
      else if c = CHR ''b'' then Some (CHR 0x08)
      else if c = CHR ''f'' then Some (CHR 0x0C)
      else if c = CHR ''n'' then Some (CHR 0x0A)
      else if c = CHR ''r'' then Some (CHR 0x0D)
      else if c = CHR ''t'' then Some (CHR 0x09)
      else None)"

text \<open>The ranges of the bytes that must follow a byte of at least 32; none for an ill-formed byte.\<close>

definition utf8_ranges :: "char \<Rightarrow> (int \<times> int) list option" where
  "utf8_ranges c =
     (let b = of_char c
      in if b < (0x80 :: int) then Some []
         else if b < 0xC2 then None
         else if b \<le> 0xDF then Some [(0x80, 0xBF)]
         else if b = 0xE0 then Some [(0xA0, 0xBF), (0x80, 0xBF)]
         else if b = 0xED then Some [(0x80, 0x9F), (0x80, 0xBF)]
         else if b \<le> 0xEF then Some [(0x80, 0xBF), (0x80, 0xBF)]
         else if b = 0xF0 then Some [(0x90, 0xBF), (0x80, 0xBF), (0x80, 0xBF)]
         else if b \<le> 0xF3 then Some [(0x80, 0xBF), (0x80, 0xBF), (0x80, 0xBF)]
         else if b = 0xF4 then Some [(0x80, 0x8F), (0x80, 0xBF), (0x80, 0xBF)]
         else None)"

fun next_byte_in_range :: "(int \<times> int) list \<Rightarrow> string \<Rightarrow> (string \<times> string) option" where
  "next_byte_in_range [] cs = Some ([], cs)"
| "next_byte_in_range ((lo, hi) # rs) [] = None"
| "next_byte_in_range ((lo, hi) # rs) (c # cs) =
     (if lo \<le> of_char c \<and> of_char c \<le> hi
      then map_option (\<lambda>(bs, rest). (c # bs, rest)) (next_byte_in_range rs cs)
      else None)"

text \<open>What the loops take from the input.\<close>

lemma codepoint_loop_length: "codepoint_loop fs cp cs = Some (x, rest) \<Longrightarrow> length rest \<le> length cs"
  by (induction fs cp cs rule: codepoint_loop.induct) (fastforce split: option.splits)+

lemma scan_unicode_length: "scan_unicode cs = Some (x, rest) \<Longrightarrow> length rest \<le> length cs"
  by (auto simp: scan_unicode_def get_codepoint_def split: option.splits prod.splits if_splits list.splits
      dest!: codepoint_loop_length)

lemma next_byte_length: "next_byte_in_range rs cs = Some (bs, rest) \<Longrightarrow> length rest \<le> length cs"
  by (induction rs cs arbitrary: bs rule: next_byte_in_range.induct) (fastforce split: if_splits)+

text \<open>
  \<^verbatim>\<open>scan_string\<close> after the opening quote: the token buffer and the rest of the input after the closing quote.
\<close>

function scan_string :: "string \<Rightarrow> string \<Rightarrow> (string \<times> string) option" where
  "scan_string buf [] = None"
| "scan_string buf (c # cs) =
     (if c = CHR 0x22 then Some (buf, cs)
      else if c = CHR 0x5C
      then (case cs of
              [] \<Rightarrow> None
            | e # es \<Rightarrow>
                if e = CHR ''u''
                then (case scan_unicode es of
                        None \<Rightarrow> None
                      | Some (cp, rest) \<Rightarrow> scan_string (buf @ codepoint_bytes cp) rest)
                else (case simple_escape e of None \<Rightarrow> None | Some x \<Rightarrow> scan_string (buf @ [x]) es))
      else if (of_char c :: int) < 0x20 then None
      else (case utf8_ranges c of
              None \<Rightarrow> None
            | Some rs \<Rightarrow>
                (case next_byte_in_range rs cs of
                   None \<Rightarrow> None
                 | Some (bs, rest) \<Rightarrow> scan_string (buf @ c # bs) rest)))"
  by pat_completeness auto
termination
  by (relation "measure (\<lambda>(buf, cs). length cs)") (auto dest!: scan_unicode_length next_byte_length)

declare scan_string.simps [simp del]

lemma scan_string_length: "scan_string buf cs = Some (s, rest) \<Longrightarrow> length rest < length cs"
proof (induction buf cs rule: scan_string.induct)
  case (2 buf c cs)
  show ?case
    using 2 by (subst (asm) scan_string.simps)
      (fastforce split: if_splits option.splits list.splits prod.splits dest!: scan_unicode_length next_byte_length)
qed (simp add: scan_string.simps)


section \<open>Numbers\<close>

text \<open>The labels of \<^verbatim>\<open>scan_number\<close> after the first byte, and the kind of number read so far.\<close>

datatype num_state = Minus | Zero | Any1 | Decimal1 | Decimal2 | Exponent | Sign | Any2

datatype num_type = Num_unsigned | Num_integer | Num_float

definition digit19 :: "char \<Rightarrow> bool" where
  "digit19 c \<longleftrightarrow> isdigit c \<and> c \<noteq> CHR ''0''"

text \<open>
  One label each: \<open>None\<close> is \<^verbatim>\<open>parse_error\<close>; otherwise the kind, the token buffer and the rest of the input, from
  which the byte after the number has not been taken.
\<close>

fun scan_number_at :: "num_state \<Rightarrow> num_type \<Rightarrow> string \<Rightarrow> string \<Rightarrow> (num_type \<times> string \<times> string) option" where
  "scan_number_at Minus ty buf [] = None"
| "scan_number_at Minus ty buf (c # cs) =
     (if c = CHR ''0'' then scan_number_at Zero Num_integer (buf @ [c]) cs
      else if digit19 c then scan_number_at Any1 Num_integer (buf @ [c]) cs
      else None)"
| "scan_number_at Zero ty buf [] = Some (ty, buf, [])"
| "scan_number_at Zero ty buf (c # cs) =
     (if c = CHR ''.'' then scan_number_at Decimal1 ty (buf @ [c]) cs
      else if c = CHR ''e'' \<or> c = CHR ''E'' then scan_number_at Exponent ty (buf @ [c]) cs
      else Some (ty, buf, c # cs))"
| "scan_number_at Any1 ty buf [] = Some (ty, buf, [])"
| "scan_number_at Any1 ty buf (c # cs) =
     (if isdigit c then scan_number_at Any1 ty (buf @ [c]) cs
      else if c = CHR ''.'' then scan_number_at Decimal1 ty (buf @ [c]) cs
      else if c = CHR ''e'' \<or> c = CHR ''E'' then scan_number_at Exponent ty (buf @ [c]) cs
      else Some (ty, buf, c # cs))"
| "scan_number_at Decimal1 ty buf [] = None"
| "scan_number_at Decimal1 ty buf (c # cs) =
     (if isdigit c then scan_number_at Decimal2 Num_float (buf @ [c]) cs else None)"
| "scan_number_at Decimal2 ty buf [] = Some (ty, buf, [])"
| "scan_number_at Decimal2 ty buf (c # cs) =
     (if isdigit c then scan_number_at Decimal2 ty (buf @ [c]) cs
      else if c = CHR ''e'' \<or> c = CHR ''E'' then scan_number_at Exponent ty (buf @ [c]) cs
      else Some (ty, buf, c # cs))"
| "scan_number_at Exponent ty buf [] = None"
| "scan_number_at Exponent ty buf (c # cs) =
     (if c = CHR ''+'' \<or> c = CHR ''-'' then scan_number_at Sign Num_float (buf @ [c]) cs
      else if isdigit c then scan_number_at Any2 Num_float (buf @ [c]) cs
      else None)"
| "scan_number_at Sign ty buf [] = None"
| "scan_number_at Sign ty buf (c # cs) =
     (if isdigit c then scan_number_at Any2 ty (buf @ [c]) cs else None)"
| "scan_number_at Any2 ty buf [] = Some (ty, buf, [])"
| "scan_number_at Any2 ty buf (c # cs) =
     (if isdigit c then scan_number_at Any2 ty (buf @ [c]) cs else Some (ty, buf, c # cs))"

text \<open>\<^verbatim>\<open>std::strtoull\<close>, \<^verbatim>\<open>std::strtoll\<close> and \<^verbatim>\<open>std::strtod\<close> on the texts that the state machine accepts.\<close>

definition dec_value :: "string \<Rightarrow> int" where
  "dec_value ds = foldl (\<lambda>v c. 10 * v + (of_char c - 48)) 0 ds"

text \<open>The double nearest to \<open>(-1)^neg * m * 10^e\<close>.\<close>

definition decimal_to_dbl :: "bool \<Rightarrow> int \<Rightarrow> int \<Rightarrow> dbl" where
  "decimal_to_dbl neg m e =
     (if 0 \<le> e then round_dyadic neg (m * 10 ^ nat e) 0 else div_dyadic neg m 0 (10 ^ nat (- e)) 0)"

fun exponent_value :: "string \<Rightarrow> int" where
  "exponent_value [] = 0"
| "exponent_value (c # cs) =
     (if c = CHR ''-'' then - dec_value cs else if c = CHR ''+'' then dec_value cs else dec_value (c # cs))"

definition strtod_abs :: "bool \<Rightarrow> string \<Rightarrow> dbl" where
  "strtod_abs neg s =
     (let ip = takeWhile isdigit s; r = dropWhile isdigit s;
          frac = (if r \<noteq> [] \<and> hd r = CHR ''.'' then takeWhile isdigit (tl r) else []);
          ex = (if r \<noteq> [] \<and> hd r = CHR ''.'' then dropWhile isdigit (tl r) else r)
      in decimal_to_dbl neg (dec_value (ip @ frac)) (exponent_value (tl ex) - int (length frac)))"

definition strtod :: "string \<Rightarrow> dbl" where
  "strtod s = (if s \<noteq> [] \<and> hd s = CHR ''-'' then strtod_abs True (tl s) else strtod_abs False s)"

section \<open>Tokens\<close>

datatype token =
    Literal_true | Literal_false | Literal_null
  | Value_string string | Value_unsigned int | Value_integer int | Value_float dbl
  | Begin_array | Begin_object | End_array | End_object | Name_separator | Value_separator
  | Parse_error | End_of_input

text \<open>The end of \<^verbatim>\<open>scan_number\<close>: integers out of the range of 64 bits are read as doubles.\<close>

fun number_token :: "num_type \<Rightarrow> string \<Rightarrow> token" where
  "number_token Num_unsigned buf =
     (let x = dec_value buf in if x \<le> 18446744073709551615 then Value_unsigned x else Value_float (strtod buf))"
| "number_token Num_integer buf =
     (let x = - dec_value (tl buf) in if - 9223372036854775808 \<le> x then Value_integer x else Value_float (strtod buf))"
| "number_token Num_float buf = Value_float (strtod buf)"

definition scan_number :: "char \<Rightarrow> string \<Rightarrow> token \<times> string" where
  "scan_number c cs =
     (let st = (if c = CHR ''-'' then Minus else if c = CHR ''0'' then Zero else Any1)
      in case scan_number_at st Num_unsigned [c] cs of
           None \<Rightarrow> (Parse_error, [])
         | Some (ty, buf, rest) \<Rightarrow> (number_token ty buf, rest))"

text \<open>\<^verbatim>\<open>scan_literal\<close> after its first character.\<close>

definition scan_literal :: "string \<Rightarrow> token \<Rightarrow> string \<Rightarrow> token \<times> string" where
  "scan_literal t tok cs = (if take (length t) cs = t then (tok, drop (length t) cs) else (Parse_error, []))"

definition json_space :: "char \<Rightarrow> bool" where
  "json_space c \<longleftrightarrow> c = CHR '' '' \<or> c = CHR 0x09 \<or> c = CHR 0x0A \<or> c = CHR 0x0D"

definition scan_at :: "char \<Rightarrow> string \<Rightarrow> token \<times> string" where
  "scan_at c cs =
     (if c = CHR ''['' then (Begin_array, cs)
      else if c = CHR '']'' then (End_array, cs)
      else if c = CHR ''{'' then (Begin_object, cs)
      else if c = CHR ''}'' then (End_object, cs)
      else if c = CHR '':'' then (Name_separator, cs)
      else if c = CHR '','' then (Value_separator, cs)
      else if c = CHR ''t'' then scan_literal ''rue'' Literal_true cs
      else if c = CHR ''f'' then scan_literal ''alse'' Literal_false cs
      else if c = CHR ''n'' then scan_literal ''ull'' Literal_null cs
      else if c = CHR 0x22
      then (case scan_string [] cs of None \<Rightarrow> (Parse_error, []) | Some (s, rest) \<Rightarrow> (Value_string s, rest))
      else if c = CHR ''-'' \<or> isdigit c then scan_number c cs
      else if c = CHR 0x00 then (End_of_input, cs)
      else (Parse_error, []))"

text \<open>\<^verbatim>\<open>scan\<close> after the first token; the first one also skips a byte order mark.\<close>

definition scan :: "string \<Rightarrow> token \<times> string" where
  "scan cs = (case dropWhile json_space cs of [] \<Rightarrow> (End_of_input, []) | c # rest \<Rightarrow> scan_at c rest)"

definition skip_bom :: "string \<Rightarrow> string option" where
  "skip_bom cs =
     (if cs \<noteq> [] \<and> hd cs = CHR 0xEF
      then (if take 2 (tl cs) = [CHR 0xBB, CHR 0xBF] then Some (drop 3 cs) else None)
      else Some cs)"

definition scan_first :: "string \<Rightarrow> token \<times> string" where
  "scan_first cs = (case skip_bom cs of None \<Rightarrow> (Parse_error, []) | Some cs' \<Rightarrow> scan cs')"

section \<open>Consumption\<close>

lemma scan_number_at_length: "scan_number_at st ty buf cs = Some (ty', buf', rest) \<Longrightarrow> length rest \<le> length cs"
  by (induction st ty buf cs rule: scan_number_at.induct) (auto split: if_splits)

lemma scan_at_length: "scan_at c cs = (tok, rest) \<Longrightarrow> length rest \<le> length cs"
  by (auto simp: scan_at_def scan_literal_def scan_number_def Let_def split: if_splits option.splits
      dest!: scan_string_length scan_number_at_length)

lemma scan_length:
  assumes "scan cs = (tok, rest)"
  shows "length rest \<le> length cs" and "tok \<noteq> End_of_input \<Longrightarrow> length rest < length cs"
proof -
  have "length (dropWhile json_space cs) \<le> length cs" by (rule length_dropWhile_le)
  then show "length rest \<le> length cs" "tok \<noteq> End_of_input \<Longrightarrow> length rest < length cs"
    using assms by (auto simp: scan_def split: list.splits dest!: scan_at_length)
qed

end
