(* ===== verification/Rounding.thy ===== *)
theory Rounding
  imports Json_Lexer
begin

text \<open>
  Correct rounding: a number strictly between the boundaries of a double, half way to its neighbours, is rounded to this
  double, whether it is given as a dyadic number, as a quotient or as a decimal number. This is what reading a text with
  \<^verbatim>\<open>strtod\<close> relies on.
\<close>

section \<open>Powers of two\<close>

abbreviation two :: "int \<Rightarrow> real" where
  "two e \<equiv> 2 powi e"

lemma two_add: "two (a + b) = two a * two b"
  by (rule power_int_add) simp

lemma two_diff: "two (a - b) = two a / two b"
  by (rule power_int_diff) simp

lemma two_mono: "a \<le> b \<Longrightarrow> two a \<le> two b"
  by (rule power_int_increasing) simp_all

lemma two_less: "two a < two b \<longleftrightarrow> a < b"
  using power_int_strict_increasing [of a b "2 :: real"] two_mono [of b a] by (cases "a < b") auto

lemma pow2_two: "0 \<le> k \<Longrightarrow> real_of_int (pow2 k) = two k"
  by (simp add: pow2_eq power_int_nonneg_exp)

section \<open>Doubles and their boundaries\<close>

text \<open>The representation of a double is unique: a full significand, or the smallest exponent.\<close>

fun dbl_wf :: "dbl \<Rightarrow> bool" where
  "dbl_wf (Fin s m e) \<longleftrightarrow>
     0 \<le> m \<and> m < 4503599627370496 \<and> e = EMIN \<or> 4503599627370496 \<le> m \<and> m < 9007199254740992 \<and> EMIN \<le> e \<and> e \<le> EMAX"
| "dbl_wf d \<longleftrightarrow> True"

definition lower_closer :: "int \<Rightarrow> int \<Rightarrow> bool" where
  "lower_closer m e \<longleftrightarrow> m = 4503599627370496 \<and> EMIN < e"

definition lower_bound :: "int \<Rightarrow> int \<Rightarrow> real" where
  "lower_bound m e = (if lower_closer m e then real_of_int (4 * m - 1) * two (e - 2) else real_of_int (2 * m - 1) * two (e - 1))"

definition upper_bound :: "int \<Rightarrow> int \<Rightarrow> real" where
  "upper_bound m e = real_of_int (2 * m + 1) * two (e - 1)"

section \<open>Rounding\<close>

lemma rne_nearest:
  assumes "(2 * N - 1) * pow2 t < 2 * n" and "2 * n < (2 * N + 1) * pow2 t"
  shows "rne n t = N"
proof -
  define p q r where "p = pow2 t" and "q = n div p" and "r = n mod p"
  have p: "0 < p" by (simp add: p_def)
  have n: "n = q * p + r" "0 \<le> r" "r < p" using p by (simp_all add: q_def r_def)
  have "(2 * N - 1) * p < (2 * q + 2) * p" "2 * q * p < (2 * N + 1) * p"
    using assms n by (auto simp: p_def [symmetric] algebra_simps)
  then have "2 * N - 1 < 2 * q + 2" "2 * q < 2 * N + 1" using p mult_less_cancel_right_pos by blast+
  then have "N = q \<or> N = q + 1" by linarith
  moreover have "2 * r < p" if "N = q" using assms(2) n(1) that by (simp add: p_def [symmetric] algebra_simps)
  moreover have "p < 2 * r" if "N = q + 1" using assms(1) n(1) that by (simp add: p_def [symmetric] algebra_simps)
  ultimately show ?thesis by (auto simp: rne_def Let_def p_def q_def r_def)
qed

text \<open>The significand that \<open>round_dyadic\<close> computes, for either sign of the shift.\<close>

definition shifted :: "int \<Rightarrow> int \<Rightarrow> int" where
  "shifted n t = (if t \<le> 0 then n * pow2 (- t) else rne n t)"

lemma shifted_nearest:
  assumes "(real_of_int N - 1 / 2) * two t < real_of_int n" and "real_of_int n < (real_of_int N + 1 / 2) * two t"
  shows "shifted n t = N"
proof (cases "t \<le> 0")
  case True
  then have "real_of_int (pow2 (- t)) * two t = 1" using pow2_two [of "- t"] by (simp add: power_int_minus)
  then have n: "real_of_int n = real_of_int (n * pow2 (- t)) * two t" by simp
  have "real_of_int N - 1 / 2 < real_of_int (n * pow2 (- t))" "real_of_int (n * pow2 (- t)) < real_of_int N + 1 / 2"
    using assms mult_less_cancel_right_pos [of "two t"] unfolding n by simp_all
  then have "n * pow2 (- t) = N" by linarith
  then show ?thesis using True by (simp add: shifted_def)
next
  case False
  have "(2 * real_of_int N - 1) * two t < 2 * real_of_int n" "2 * real_of_int n < (2 * real_of_int N + 1) * two t"
    using assms by (simp_all add: algebra_simps)
  then have "real_of_int ((2 * N - 1) * pow2 t) < real_of_int (2 * n)" "real_of_int (2 * n) < real_of_int ((2 * N + 1) * pow2 t)"
    using False by (simp_all add: pow2_two)
  then have "(2 * N - 1) * pow2 t < 2 * n" "2 * n < (2 * N + 1) * pow2 t" by (simp_all only: of_int_less_iff)
  then show ?thesis using False rne_nearest by (simp add: shifted_def)
qed

lemma round_dyadic_shifted:
  "0 < n \<Longrightarrow> round_dyadic s n q = finish s (shifted n (max (bits n - 53) (EMIN - q))) (q + max (bits n - 53) (EMIN - q))"
  by (simp add: round_dyadic_def shifted_def Let_def)


text \<open>The exponent of the result depends on the binary length; then the nearest significand is taken.\<close>

lemma round_dyadic_at:
  assumes n: "0 < n" and e: "e = max (bits n + q - 53) EMIN"
    and "(real_of_int N - 1 / 2) * two e < real_of_int n * two q" and "real_of_int n * two q < (real_of_int N + 1 / 2) * two e"
  shows "round_dyadic s n q = finish s N e"
proof -
  define t where "t = max (bits n - 53) (EMIN - q)"
  have t: "e = q + t" using e by (simp add: t_def)
  then have "two e = two t * two q" by (simp add: two_add)
  then have "(real_of_int N - 1 / 2) * two t < real_of_int n" "real_of_int n < (real_of_int N + 1 / 2) * two t"
    using assms(3,4) mult_less_cancel_right_pos [of "two q"] by (simp_all flip: mult.assoc)
  then have "shifted n t = N" by (rule shifted_nearest)
  then show ?thesis using n t by (simp add: round_dyadic_shifted t_def)
qed

lemma bits_two:
  assumes "0 < n"
  shows "two (bits n + q - 1) \<le> real_of_int n * two q" and "real_of_int n * two q < two (bits n + q)"
proof -
  note b = bits_bounds [OF assms]
  have "real_of_int (pow2 (bits n - 1)) \<le> real_of_int n" "real_of_int n < real_of_int (pow2 (bits n))" using b by simp_all
  moreover have "0 \<le> bits n - 1" using b by simp
  ultimately have "two (bits n - 1) \<le> real_of_int n" "real_of_int n < two (bits n)" by (simp_all only: pow2_two)
  then have "two (bits n - 1) * two q \<le> real_of_int n * two q" "real_of_int n * two q < two (bits n) * two q" by simp_all
  then show "two (bits n + q - 1) \<le> real_of_int n * two q" "real_of_int n * two q < two (bits n + q)"
    by (simp_all add: two_add [symmetric] algebra_simps)
qed

lemma bits_two_unique:
  assumes "0 < n" and "two a \<le> real_of_int n * two q" and "real_of_int n * two q < two b" and "b = a + 1"
  shows "bits n + q = b"
proof -
  have "two a < two (bits n + q)" "two (bits n + q - 1) < two b" using bits_two [OF assms(1), of q] assms by linarith+
  then show ?thesis using assms(4) by (simp add: two_less)
qed

lemma bits_two_le: "\<lbrakk>0 < n; real_of_int n * two q < two a\<rbrakk> \<Longrightarrow> bits n + q \<le> a"
  using bits_two(1) [of n q] two_less [of "bits n + q - 1" a] by linarith

lemma two_scale: "two (e + int k) = 2 ^ k * two e"
  by (simp add: two_add)

text \<open>Numbers within half a unit of the last place of a double whose neighbours are at the same distance.\<close>

lemma round_regular:
  assumes wf: "dbl_wf (Fin s m e)" and n: "0 < n" and regular: "\<not> lower_closer m e"
    and lo: "(real_of_int m - 1 / 2) * two e < real_of_int n * two q" and hi: "real_of_int n * two q < (real_of_int m + 1 / 2) * two e"
    and top: "real_of_int n * two q < two (e + 53)"
  shows "round_dyadic s n q = Fin s m e"
proof -
  have big: "two (e + 52) = 4503599627370496 * two e" using two_scale [of e 52] by simp
  have "e = max (bits n + q - 53) EMIN"
  proof (cases "4503599627370496 < m")
    case True
    then have "4503599627370496 * two e \<le> (real_of_int m - 1 / 2) * two e" by (intro mult_right_mono) simp_all
    then have "two (e + 52) \<le> real_of_int n * two q" using lo big by linarith
    then have "bits n + q = e + 53" using bits_two_unique [OF n _ top, of "e + 52"] by simp
    then show ?thesis using wf by auto
  next
    case False
    then have e: "e = EMIN" using wf regular by (auto simp: lower_closer_def)
    have "bits n + q \<le> EMIN + 53" using bits_two_le [OF n top] e by simp
    then show ?thesis using e by simp
  qed
  moreover have "finish s m e = Fin s m e" using wf by (auto simp: finish_def EMIN_def EMAX_def)
  ultimately show ?thesis using round_dyadic_at [OF n _ lo hi, of s] by simp
qed

text \<open>At a power of two the doubles below are closer, so the significand may have to be doubled.\<close>

lemma round_power_of_two:
  assumes wf: "dbl_wf (Fin s m e)" and n: "0 < n" and power: "lower_closer m e"
    and lo: "(real_of_int m - 1 / 4) * two e < real_of_int n * two q" and hi: "real_of_int n * two q < (real_of_int m + 1 / 2) * two e"
    and top: "real_of_int n * two q < two (e + 53)"
  shows "round_dyadic s n q = Fin s m e"
proof -
  let ?x = "real_of_int n * two q"
  have m: "m = 4503599627370496" "EMIN < e" using power by (simp_all add: lower_closer_def)
  have h: "two e = 2 * two (e - 1)" "two (e + 52) = 4503599627370496 * two e" "two (e + 51) = 2251799813685248 * two e"
    using two_scale [of "e - 1" 1] two_scale [of e 52] two_scale [of e 51] by simp_all
  have fin: "finish s m e = Fin s m e" using wf by (auto simp: finish_def EMIN_def EMAX_def)
  have pos: "0 < two e" by simp
  show ?thesis
  proof (cases "two (e + 52) \<le> ?x")
    case True
    then have "bits n + q = e + 53" using bits_two_unique [OF n _ top, of "e + 52"] by simp
    then have "e = max (bits n + q - 53) EMIN" using m(2) by simp
    moreover have "(real_of_int m - 1 / 2) * two e < ?x"
      using lo pos unfolding left_diff_distrib by linarith
    ultimately show ?thesis using round_dyadic_at [OF n _ _ hi, of s] fin by simp
  next
    case False
    have "two (e + 51) \<le> (real_of_int m - 1 / 4) * two e" using h(3) m(1) by simp
    then have "two (e + 51) \<le> ?x" using lo by linarith
    then have "bits n + q = e + 52" using False by (intro bits_two_unique [OF n, of "e + 51"]) simp_all
    then have e: "e - 1 = max (bits n + q - 53) EMIN" using m(2) by simp
    have "(real_of_int (2 * m) - 1 / 2) * two (e - 1) < ?x" "?x < (real_of_int (2 * m) + 1 / 2) * two (e - 1)"
      using lo False h m(1) by (simp_all add: algebra_simps)
    then have "round_dyadic s n q = finish s (2 * m) (e - 1)" by (rule round_dyadic_at [OF n e])
    then show ?thesis using m wf by (simp add: finish_def)
  qed
qed

text \<open>Every number strictly between the boundaries of a positive double is rounded to it.\<close>

lemma round_dyadic_between:
  assumes wf: "dbl_wf (Fin s m e)" and m: "0 < m" and n: "0 < n"
    and lo: "lower_bound m e < real_of_int n * two q" and hi: "real_of_int n * two q < upper_bound m e"
  shows "round_dyadic s n q = Fin s m e"
proof -
  have h: "two e = 2 * two (e - 1)" "two e = 4 * two (e - 2)" using two_scale [of "e - 1" 1] two_scale [of "e - 2" 2] by simp_all
  have hi': "real_of_int n * two q < (real_of_int m + 1 / 2) * two e" using hi h(1) by (simp add: upper_bound_def algebra_simps)
  have big: "two (e + 53) = 9007199254740992 * two e" using two_scale [of e 53] by simp
  have "m + 1 \<le> 9007199254740992" using wf by auto
  then have "(real_of_int m + 1 / 2) * two e < 9007199254740992 * two e" by (intro mult_strict_right_mono) (linarith, simp)
  then have top: "real_of_int n * two q < two (e + 53)" using hi' big by linarith
  show ?thesis
  proof (cases "lower_closer m e")
    case False
    then show ?thesis using lo h(1) by (intro round_regular [OF wf n _ _ hi' top]) (simp_all add: lower_bound_def algebra_simps)
  next
    case True
    then show ?thesis using lo h(2) by (intro round_power_of_two [OF wf n _ _ hi' top]) (simp_all add: lower_bound_def algebra_simps)
  qed
qed


section \<open>Quotients and decimal numbers\<close>

text \<open>
  \<open>div_dyadic\<close> rounds the quotient: the truncated quotient with the sticky bit lies between the same multiples of \<open>2^-k\<close>
  as the quotient, and the boundaries are such multiples.
\<close>

lemma between_multiples:
  assumes x: "real_of_int q \<le> x * two k" "x * two k < real_of_int q + 1" and y: "y = real_of_int (2 * q + b) * two (- k - 1)"
    and b: "b = (if x * two k = real_of_int q then 0 else 1)" and c: "c = real_of_int j * two (- k)"
  shows "(c < x \<longrightarrow> c < y) \<and> (x < c \<longrightarrow> y < c)"
proof -
  have k: "two (- k) * two k = 1" "0 < two k" using two_add [of "- k" k] by simp_all
  have ck: "c * two k = real_of_int j" using c k(1) by simp
  have "two (- k - 1) * two k = 1 / 2" using two_add [of "- k - 1" k] by (simp add: power_int_minus)
  then have yk: "y * two k = real_of_int q + real_of_int b / 2" using y by (simp add: algebra_simps)
  have less: "u < v \<longleftrightarrow> u * two k < v * two k" for u v :: real using k(2) by simp
  show ?thesis
  proof (cases "x * two k = real_of_int q")
    case True
    then have "x = y" using yk b less [of x y] less [of y x] by simp
    then show ?thesis by simp
  next
    case False
    then have y': "y * two k = real_of_int q + 1 / 2" using yk b by simp
    have "real_of_int j < y * two k" if "real_of_int j < x * two k"
    proof -
      have "j \<le> q" using that x(2) by linarith
      then have "real_of_int j \<le> real_of_int q" by simp
      then show ?thesis using y' by linarith
    qed
    moreover have "y * two k < real_of_int j" if "x * two k < real_of_int j"
    proof -
      have "q + 1 \<le> j" using that x(1) by linarith
      then have "real_of_int (q + 1) \<le> real_of_int j" by (simp only: of_int_le_iff)
      then show ?thesis using y' by simp
    qed
    ultimately show ?thesis unfolding less [of c] less [of _ c] ck by blast
  qed
qed

lemma div_dyadic_between:
  assumes wf: "dbl_wf (Fin s m e)" and m: "0 < m" and a: "0 < a" and b: "0 < b"
    and lo: "lower_bound m e < real_of_int a / real_of_int b" and hi: "real_of_int a / real_of_int b < upper_bound m e"
  shows "div_dyadic s a 0 b 0 = Fin s m e"
proof -
  define k where "k = 56 + bits b"
  let ?x = "real_of_int a / real_of_int b" and ?q = "a * pow2 k div b" and ?r = "a * pow2 k mod b"
  have bb: "0 < bits b" "real_of_int b < two (bits b)" using bits_bounds [OF b] bits_two(2) [OF b, of 0] by simp_all
  then have k: "0 \<le> k" by (simp add: k_def)
  let ?n = "2 * ?q + (if ?r = 0 then 0 else 1)"
  have "a * pow2 k = ?q * b + ?r" by simp
  then have eq: "?x * two k = real_of_int ?q + real_of_int ?r / real_of_int b"
    using b by (simp add: pow2_two [OF k, symmetric] field_simps flip: of_int_mult of_int_add)
  have r: "0 \<le> ?r" "?r < b" using b by simp_all
  have q: "real_of_int ?q \<le> ?x * two k" "?x * two k < real_of_int ?q + 1" "?x * two k = real_of_int ?q \<longleftrightarrow> ?r = 0"
    using eq r b by (simp_all add: field_simps)
  have "1 / real_of_int b \<le> ?x" using a b by (simp add: divide_right_mono)
  moreover have "1 / two (bits b) < 1 / real_of_int b" using bb b by (intro divide_strict_left_mono) simp_all
  ultimately have low: "two (- bits b) < ?x" by (simp add: power_int_minus_divide)
  have "real_of_int (2 * m + 1) \<le> 2 ^ 54" using wf by auto
  then have "upper_bound m e \<le> 2 ^ 54 * two (e - 1)" unfolding upper_bound_def by (intro mult_right_mono) simp_all
  also have "\<dots> = two (e - 1 + 54)" using two_scale [of "e - 1" 54] by simp
  also have "e - 1 + 54 = e + 53" by simp
  finally have "upper_bound m e \<le> two (e + 53)" .
  then have "two (- bits b) < two (e + 53)" using low hi by linarith
  then have ek: "- k \<le> e - 2" by (simp add: two_less k_def)
  have mult: "\<exists>j. real_of_int i * two f = real_of_int j * two (- k)" if "- k \<le> f" for i f
    using that two_scale [of "- k" "nat (f + k)"] by (intro exI [of _ "i * 2 ^ nat (f + k)"]) simp
  obtain jl where jl: "lower_bound m e = real_of_int jl * two (- k)"
    using mult [of "e - 2" "4 * m - 1"] mult [of "e - 1" "2 * m - 1"] ek by (fastforce simp: lower_bound_def)
  obtain ju where ju: "upper_bound m e = real_of_int ju * two (- k)" using mult [of "e - 1" "2 * m + 1"] ek by (fastforce simp: upper_bound_def)
  have "lower_bound m e < real_of_int ?n * two (- k - 1)" "real_of_int ?n * two (- k - 1) < upper_bound m e"
    using between_multiples [OF q(1,2) refl _ jl] between_multiples [OF q(1,2) refl _ ju] lo hi q(3) by simp_all
  moreover have "0 < ?n"
  proof -
    have "0 \<le> lower_bound m e" using m by (simp add: lower_bound_def)
    then have "0 < real_of_int ?n * two (- k - 1)" using calculation(1) by linarith
    then have "0 < real_of_int ?n" by (rule zero_less_mult_pos2) simp
    then show ?thesis by (simp only: of_int_0_less_iff)
  qed
  ultimately have "round_dyadic s ?n (- k - 1) = Fin s m e" using round_dyadic_between [OF wf m] by blast
  then show ?thesis by (simp add: div_dyadic_def Let_def k_def algebra_simps)
qed

lemma decimal_between:
  assumes wf: "dbl_wf (Fin s m e)" and m: "0 < m" and a: "0 < a"
    and lo: "lower_bound m e < real_of_int a * 10 powi d" and hi: "real_of_int a * 10 powi d < upper_bound m e"
  shows "decimal_to_dbl s a d = Fin s m e"
proof (cases "0 \<le> d")
  case True
  then have "real_of_int (a * 10 ^ nat d) * two 0 = real_of_int a * 10 powi d" by (simp add: power_int_nonneg_exp)
  then show ?thesis using round_dyadic_between [OF wf m, of "a * 10 ^ nat d" 0] a lo hi True by (simp add: decimal_to_dbl_def)
next
  case False
  then have "10 powi d = 1 / (10 ^ nat (- d) :: real)" using power_int_minus_divide [of "10 :: real" "- d"] by (simp add: power_int_nonneg_exp)
  then have "real_of_int a / real_of_int (10 ^ nat (- d)) = real_of_int a * 10 powi d" by simp
  then show ?thesis using div_dyadic_between [OF wf m a, of "10 ^ nat (- d)"] lo hi False by (simp add: decimal_to_dbl_def)
qed

end
