(* ===== verification/Grisu_Scale.thy ===== *)
theory Grisu_Scale
  imports Grisu Rounding
begin

text \<open>
  The numbers that Grisu2 starts from (see \<^verbatim>\<open>dtoa_impl\<close> in \<^verbatim>\<open>include/nlohmann/json.hpp\<close>): the product of two
  \<^verbatim>\<open>diyfp\<close> is the rounded upper half, the boundaries have one exponent, and the cached power brings them into the range
  of the digit loops with an error below one unit. No operation wraps and no assertion fails.
\<close>

section \<open>Multiplication and normalisation\<close>

lemma u64_id: "\<lbrakk>0 \<le> x; x < 2 ^ 64\<rbrakk> \<Longrightarrow> u64 x = x"
  by (simp add: u64_def)

lemma u32_split: "x = u32_hi x * 4294967296 + u32_lo x"
  by (simp add: u32_hi_def u32_lo_def)

lemma u32_lo_range: "0 \<le> u32_lo x" "u32_lo x < 2 ^ 32"
  by (simp_all add: u32_lo_def)

lemma u32_hi_range: "\<lbrakk>0 \<le> x; x < 2 ^ 64\<rbrakk> \<Longrightarrow> 0 \<le> u32_hi x \<and> u32_hi x < 2 ^ 32"
  unfolding u32_hi_def by (simp; linarith)

lemma u32_product:
  assumes "0 \<le> a" "a < 2 ^ 32" "0 \<le> b" "b < (2 ^ 32 :: int)"
  shows "0 \<le> a * b" and "a * b \<le> (2 ^ 32 - 1) * (2 ^ 32 - 1)" and "u64 (a * b) = a * b"
proof -
  show p: "0 \<le> a * b" using assms by simp
  show l: "a * b \<le> (2 ^ 32 - 1) * (2 ^ 32 - 1)" using assms by (intro mult_mono) simp_all
  show "u64 (a * b) = a * b" using p l by (intro u64_id) simp_all
qed

lemma product_carry:
  fixes p0 p1 p2 p3 h :: int
  assumes "p0 = h0 * 4294967296 + l0" "p1 = h1 * 4294967296 + l1" "p2 = h2 * 4294967296 + l2"
    and "h0 + l1 + l2 + 2147483648 = hq * 4294967296 + lq" and "h = p3 + h2 + h1 + hq"
  shows "p3 * 18446744073709551616 + (p1 + p2) * 4294967296 + p0 + 9223372036854775808
    = 18446744073709551616 * h + (lq * 4294967296 + l0)"
  using assms by (simp add: algebra_simps)

lemma diyfp_mul_df:
  assumes x: "0 \<le> df x" "df x < 2 ^ 64" and y: "0 \<le> df y" "df y < 2 ^ 64"
  shows "df (diyfp_mul x y) = (df x * df y + 2 ^ 63) div 2 ^ 64"
proof -
  define a b c d where abcd: "a = u32_lo (df x)" "b = u32_hi (df x)" "c = u32_lo (df y)" "d = u32_hi (df y)"
  have xy: "df x = b * 2 ^ 32 + a" "df y = d * 2 ^ 32 + c" using u32_split [of "df x"] u32_split [of "df y"] by (simp_all flip: abcd)
  have r: "0 \<le> a" "a < 2 ^ 32" "0 \<le> b" "b < 2 ^ 32" "0 \<le> c" "c < 2 ^ 32" "0 \<le> d" "d < 2 ^ 32"
    using u32_lo_range u32_hi_range [OF x] u32_hi_range [OF y] by (simp_all add: abcd)
  define p0 p1 p2 p3 where p: "p0 = a * c" "p1 = a * d" "p2 = b * c" "p3 = b * d"
  have u: "u64 (a * c) = p0" "u64 (a * d) = p1" "u64 (b * c) = p2" "u64 (b * d) = p3"
    using u32_product(3) r by (simp_all add: p)
  have pr: "0 \<le> p0" "0 \<le> p1" "0 \<le> p2" "0 \<le> p3" "p0 \<le> (2 ^ 32 - 1) * (2 ^ 32 - 1)" "p1 \<le> (2 ^ 32 - 1) * (2 ^ 32 - 1)"
    "p2 \<le> (2 ^ 32 - 1) * (2 ^ 32 - 1)" "p3 \<le> (2 ^ 32 - 1) * (2 ^ 32 - 1)"
    using u32_product(1,2) r by (simp_all add: p)
  have hi: "0 \<le> u32_hi p \<and> u32_hi p < 2 ^ 32" if "0 \<le> p" "p \<le> (2 ^ 32 - 1) * (2 ^ 32 - 1)" for p
    using that by (intro u32_hi_range) simp_all
  note his = hi [OF pr(1) pr(5)] hi [OF pr(2) pr(6)] hi [OF pr(3) pr(7)]
  define q where "q = u32_hi p0 + u32_lo p1 + u32_lo p2 + 2 ^ 31"
  have lo: "0 \<le> u32_lo p" "u32_lo p \<le> 2 ^ 32 - 1" for p using u32_lo_range [of p] by linarith+
  have q': "q = u32_hi p0 + u32_lo p1 + u32_lo p2 + 2147483648" by (simp add: q_def)
  have uq: "u64 (u64 (u32_hi p0 + u32_lo p1 + u32_lo p2) + 2147483648) = q"
    using his lo [of p1] lo [of p2] by (simp add: u64_def q_def)
  define h where "h = p3 + u32_hi p2 + u32_hi p1 + u32_hi q"
  have "df x * df y + 2 ^ 63 = p3 * 18446744073709551616 + (p1 + p2) * 4294967296 + p0 + 9223372036854775808"
    by (simp add: xy p algebra_simps)
  also have "\<dots> = 18446744073709551616 * h + (u32_lo q * 4294967296 + u32_lo p0)"
    using product_carry [OF u32_split u32_split u32_split _ h_def] q' u32_split [of q] by simp
  also have "\<dots> = 2 ^ 64 * h + (u32_lo q * 2 ^ 32 + u32_lo p0)" by simp
  finally have h: "(df x * df y + 2 ^ 63) div 2 ^ 64 = h"
    by (rule int_div_pos_eq) (use lo [of q] lo [of p0] in simp_all)
  have "df x * df y \<le> (2 ^ 64 - 1) * (2 ^ 64 - 1)" "0 \<le> df x * df y" using x y by (intro mult_mono mult_nonneg_nonneg; simp)+
  then have "(df x * df y + 2 ^ 63) div 2 ^ 64 < 2 ^ 64" "0 \<le> (df x * df y + 2 ^ 63) div 2 ^ 64" by (simp; linarith)+
  then have "u64 h = h" unfolding h by (intro u64_id)
  then show ?thesis unfolding h by (simp add: diyfp_mul_def Let_def abcd [symmetric] u uq h_def [symmetric])
qed

lemma diyfp_mul_de [simp]: "de (diyfp_mul x y) = de x + de y + 64"
  by (simp add: diyfp_mul_def Let_def)

lemma normalize_loop_eq:
  "\<lbrakk>0 < f; 2 ^ 63 \<le> f * 2 ^ s; f * 2 ^ s < 2 ^ 64\<rbrakk> \<Longrightarrow> normalize_loop f e = \<lparr>df = f * 2 ^ s, de = e - int s\<rparr>"
proof (induction s arbitrary: f e)
  case 0
  then have "f div 9223372036854775808 \<noteq> 0" by (simp add: zdiv_eq_0_iff)
  then show ?case by (simp add: normalize_loop.simps [of f])
next
  case (Suc s)
  have "2 * f * 1 \<le> 2 * f * 2 ^ s" using Suc.prems(1) by (intro mult_left_mono) simp_all
  then have f: "2 * f < 2 ^ 64" using Suc.prems(3) by simp
  then have "f div 9223372036854775808 = 0" using Suc.prems(1) by (simp add: zdiv_eq_0_iff)
  then have "normalize_loop f e = normalize_loop (2 * f) (e - 1)" using Suc.prems(1) f by (simp add: normalize_loop.simps [of f] u64_def)
  also have "\<dots> = \<lparr>df = 2 * f * 2 ^ s, de = e - 1 - int s\<rparr>" using Suc.prems by (intro Suc.IH) (simp_all add: mult.assoc mult.left_commute)
  finally show ?case by simp
qed

text \<open>The shift that normalises: the missing bits.\<close>

lemma shift_exists:
  assumes "0 < f" and "f < (2 :: int) ^ 64"
  obtains s :: nat where "2 ^ 63 \<le> f * 2 ^ s" "f * 2 ^ s < 2 ^ 64"
proof -
  note b = bits_bounds [OF assms(1)] bits_le [of f 64]
  define s where "s = nat (64 - bits f)"
  have s: "pow2 (bits f - 1) * 2 ^ s = 2 ^ 63" "pow2 (bits f) * 2 ^ s = 2 ^ 64"
    using b assms by (simp_all add: pow2_eq s_def flip: power_add nat_add_distrib)
  have "pow2 (bits f - 1) * 2 ^ s \<le> f * 2 ^ s" "f * 2 ^ s < pow2 (bits f) * 2 ^ s" using b by simp_all
  then show thesis using that s by simp
qed

section \<open>Cached powers\<close>

text \<open>
  What an entry of the table has to satisfy, over the integers: a full significand, the range in which the exponent of the
  product falls, and half a unit of distance to the power of ten, where \<open>p\<close> is the power of five.
\<close>

fun near_power :: "int \<Rightarrow> int \<times> int \<times> int \<Rightarrow> bool" where
  "near_power p (f, e, k) \<longleftrightarrow>
     (if k < 0 then 2 * \<bar>f * p - 2 ^ nat (k - e)\<bar> \<le> p \<and> e \<le> k
      else if e \<le> k then f = p * 2 ^ nat (k - e)
      else 2 * \<bar>f * 2 ^ nat (e - k) - p\<bar> \<le> 2 ^ nat (e - k))"

fun cached_ok :: "int \<times> int \<times> int \<Rightarrow> bool" where
  "cached_ok (f, e, k) \<longleftrightarrow> 2 ^ 63 \<le> f \<and> f < 2 ^ 64 \<and>
     k * 262144 < (e + 64) * 78913 \<and> (e + 34) * 78913 < (k - 8) * 262144"

text \<open>The rows with increasing distance from \<open>10^0\<close>, the power of five growing by \<open>5^8\<close>.\<close>

fun near_powers :: "int \<Rightarrow> (int \<times> int \<times> int) list \<Rightarrow> bool" where
  "near_powers p [] \<longleftrightarrow> True"
| "near_powers p (r # rs) \<longleftrightarrow> near_power p r \<and> near_powers (p * 390625) rs"

lemma near_powers_nth: "\<lbrakk>near_powers p rs; i < length rs\<rbrakk> \<Longrightarrow> near_power (p * 390625 ^ i) (rs ! i)"
proof (induction p rs arbitrary: i rule: near_powers.induct)
  case (2 p r rs)
  then show ?case by (cases i) (simp_all add: mult.assoc del: near_power.simps)
qed simp

lemma cached_positive: "near_powers 625 (drop 38 kCachedPowers)"
  unfolding kCachedPowers_def by code_simp

lemma cached_negative: "near_powers 625 (rev (take 38 kCachedPowers))"
  unfolding kCachedPowers_def by code_simp

lemma cached_table: "list_all cached_ok kCachedPowers"
  by (simp add: kCachedPowers_def)

lemma cached_exponents: "map (\<lambda>(f, e, k). k) kCachedPowers = map (\<lambda>i. 8 * int i - 300) [0..<79]"
  by (simp add: kCachedPowers_def upt_rec)

lemma cached_length: "length kCachedPowers = 79"
  using arg_cong [OF cached_exponents, of length] by simp

lemma cached_nth:
  assumes i: "i < 79" and row: "kCachedPowers ! i = (f, e, k)"
  shows "cached_ok (f, e, k)" and "k = 8 * int i - 300" and "near_power (5 ^ nat \<bar>k\<bar>) (f, e, k)"
proof -
  show "cached_ok (f, e, k)" using cached_table i cached_length row by (simp add: list_all_length del: cached_ok.simps) metis
  have "map (\<lambda>(f, e, k). k) kCachedPowers ! i = map (\<lambda>i. 8 * int i - 300) [0..<79] ! i" by (simp only: cached_exponents)
  then show k: "k = 8 * int i - 300" using i row by (simp add: cached_length)
  have p: "625 * 390625 ^ j = (5 :: int) ^ (8 * j + 4)" for j :: nat by (simp add: power_add power_mult)
  show "near_power (5 ^ nat \<bar>k\<bar>) (f, e, k)"
  proof (cases "38 \<le> i")
    case True
    then have "near_power (625 * 390625 ^ (i - 38)) (f, e, k)"
      using near_powers_nth [OF cached_positive, of "i - 38"] i row by (simp add: cached_length del: near_power.simps)
    moreover have "8 * (i - 38) + 4 = nat \<bar>k\<bar>" using k True by linarith
    ultimately show ?thesis by (simp only: p)
  next
    case False
    then have "near_power (625 * 390625 ^ (37 - i)) (f, e, k)"
      using near_powers_nth [OF cached_negative, of "37 - i"] row by (simp add: cached_length rev_nth del: near_power.simps)
    moreover have "8 * (37 - i) + 4 = nat \<bar>k\<bar>" using k False by linarith
    ultimately show ?thesis by (simp only: p)
  qed
qed

lemma abs_scale: "\<lbrakk>\<bar>x\<bar> \<le> y; 0 \<le> c\<rbrakk> \<Longrightarrow> \<bar>x * c\<bar> \<le> y * (c :: real)"
  by (simp add: abs_mult mult_right_mono)

lemma near_power_real:
  assumes "near_power (5 ^ nat \<bar>k\<bar>) (f, e, k)"
  shows "\<bar>real_of_int f * two e - 10 powi k\<bar> \<le> two e / 2"
proof -
  let ?p = "5 ^ nat \<bar>k\<bar> :: int"
  have ten: "(10 :: real) powi k = 5 powi k * two k" using power_int_mult_distrib [of "5 :: real" 2 k] by simp
  have ints: "real_of_int (2 * \<bar>a - b\<bar>) \<le> real_of_int c" if "2 * \<bar>a - b\<bar> \<le> c" for a b c :: int
    using that by (simp only: of_int_le_iff)
  have pow: "(2 :: real) ^ nat j = two j" if "0 \<le> j" for j using that by (simp add: power_int_nonneg_exp)
  consider "k < 0" | "0 \<le> k" "e \<le> k" | "0 \<le> k" "k < e" by linarith
  then show ?thesis
  proof cases
    case 1
    then have c: "2 * \<bar>f * ?p - 2 ^ nat (k - e)\<bar> \<le> ?p" "0 \<le> k - e" using assms by simp_all
    have five: "(5 :: real) powi k = 1 / real_of_int ?p" using 1 power_int_minus_divide [of "5 :: real" "- k"] by (simp add: power_int_nonneg_exp)
    have "\<bar>real_of_int (f * ?p) - two (k - e)\<bar> \<le> real_of_int ?p / 2" using ints [OF c(1)] pow [OF c(2)] by simp
    then have "\<bar>(real_of_int (f * ?p) - two (k - e)) * (two e / real_of_int ?p)\<bar> \<le> real_of_int ?p / 2 * (two e / real_of_int ?p)"
      by (rule abs_scale) simp
    moreover have "(real_of_int (f * ?p) - two (k - e)) * (two e / real_of_int ?p) = real_of_int f * two e - 10 powi k"
      unfolding ten five two_diff by (simp add: field_simps)
    moreover have "real_of_int ?p / 2 * (two e / real_of_int ?p) = two e / 2" by simp
    ultimately show ?thesis by (simp only:)
  next
    case 2
    then have "f = ?p * 2 ^ nat (k - e)" using assms by simp
    then have "real_of_int f = real_of_int (?p * 2 ^ nat (k - e))" by simp
    also have "\<dots> = 5 powi k * two (k - e)" using 2 pow [of "k - e"] by (simp add: power_int_nonneg_exp)
    finally have "real_of_int f * two e = 10 powi k" unfolding ten two_diff by simp
    then show ?thesis by simp
  next
    case 3
    then have c: "2 * \<bar>f * 2 ^ nat (e - k) - ?p\<bar> \<le> 2 ^ nat (e - k)" using assms by simp
    have "(5 :: real) powi k = 5 ^ nat \<bar>k\<bar>" using 3 by (simp add: power_int_nonneg_exp)
    then have "\<bar>real_of_int f * two (e - k) - 5 powi k\<bar> \<le> two (e - k) / 2" using ints [OF c] pow [of "e - k"] 3 by simp
    then have "\<bar>(real_of_int f * two (e - k) - 5 powi k) * two k\<bar> \<le> two (e - k) / 2 * two k" by (rule abs_scale) simp
    moreover have "(real_of_int f * two (e - k) - 5 powi k) * two k = real_of_int f * two e - 10 powi k" "two (e - k) / 2 * two k = two e / 2"
      unfolding ten two_diff by (simp_all add: left_diff_distrib)
    ultimately show ?thesis by (simp only:)
  qed
qed

text \<open>The index of the entry, for every exponent that a boundary can have.\<close>

lemma cached_index_range:
  assumes "- 1137 \<le> e" and "e \<le> 960"
  defines "i \<equiv> cached_index e"
  shows "0 \<le> i" and "i < 79" and "(8 * i - 308) * 262144 \<le> (- 61 - e) * 78913" and "(- 61 - e) * 78913 \<le> (8 * i - 300) * 262144"
proof -
  define f k where "f = - 61 - e" and "k = f * 78913 sdiv 262144 + (if 0 < f then 1 else 0)"
  have k: "(k - 1) * 262144 \<le> f * 78913" "f * 78913 \<le> k * 262144"
    by (simp_all add: k_def signed_divide_int_def sgn_if) linarith+
  have f: "- 1021 \<le> f" "f \<le> 1076" using assms by (simp_all add: f_def)
  have l: "- 307 \<le> k" using k(2) f(1) by linarith
  have h: "k \<le> 324" using k(1) f(2) by simp
  have "kAlpha - e - 1 = f" by (simp add: kAlpha_def f_def)
  then have "i = (300 + k + 7) sdiv 8" by (simp add: i_def cached_index_def Let_def k_def)
  moreover have "300 + k + 7 = 307 + k" by simp
  ultimately have "i = (307 + k) div 8" "0 \<le> 307 + k" using l by (simp_all only: signed_divide_int_def) (simp_all add: sgn_if)
  then have i: "0 \<le> i" "i < 79" "8 * i - 308 \<le> k - 1" "k \<le> 8 * i - 300" using h by linarith+
  have "(8 * i - 308) * 262144 \<le> (k - 1) * 262144" "k * 262144 \<le> (8 * i - 300) * 262144" using i(3,4) by simp_all
  then show "0 \<le> i" "i < 79" "(8 * i - 308) * 262144 \<le> (- 61 - e) * 78913" "(- 61 - e) * 78913 \<le> (8 * i - 300) * 262144"
    using i k unfolding f_def by (blast intro: order_trans)+
qed

lemma get_cached_power_ok:
  assumes e: "- 1137 \<le> e" "e \<le> 960"
  obtains f ce k where "get_cached_power e = Inr (f, ce, k)" "2 ^ 63 \<le> f" "f < 2 ^ 64"
    "\<bar>real_of_int f * two ce - 10 powi k\<bar> \<le> two ce / 2" "- 60 \<le> ce + e + 64" "ce + e + 64 \<le> - 32" "- 300 \<le> k" "k \<le> 324"
proof -
  note i = cached_index_range [OF e]
  obtain f ce k where row: "kCachedPowers ! nat (cached_index e) = (f, ce, k)" by (metis prod_cases3)
  have "nat (cached_index e) < 79" using i by simp
  note r = cached_nth [OF this row]
  have k: "k = 8 * cached_index e - 300" using r(2) i(1) by simp
  have g: "- 60 \<le> ce + e + 64" "ce + e + 64 \<le> - 32" using r(1) i(3,4) k by simp_all
  show thesis
  proof (rule that)
    show "get_cached_power e = Inr (f, ce, k)" using e i g row by (simp add: get_cached_power_def assertion_def Let_def kAlpha_def kGamma_def)
    show "\<bar>real_of_int f * two ce - 10 powi k\<bar> \<le> two ce / 2" by (rule near_power_real [OF r(3)])
  qed (use r(1) g k i in simp_all)
qed

section \<open>Boundaries\<close>

lemma normalize_odd:
  assumes m: "0 < m" "m < (2 :: int) ^ 53"
  obtains s :: nat where "2 ^ 63 \<le> (2 * m + 1) * 2 ^ s" "(2 * m + 1) * 2 ^ s < 2 ^ 64" "10 \<le> s" "s \<le> 62"
    "2 ^ 63 \<le> m * 2 ^ Suc s" "m * 2 ^ Suc s < 2 ^ 64"
proof -
  obtain s where s: "2 ^ 63 \<le> (2 * m + 1) * 2 ^ s" "(2 * m + 1) * 2 ^ s < 2 ^ 64" using shift_exists [of "2 * m + 1"] m by auto
  have "3 * 2 ^ s \<le> (2 * m + 1) * 2 ^ s" using m by (intro mult_right_mono) simp_all
  then have "3 * 2 ^ s < (2 :: int) ^ 64" using s(2) by linarith
  then have "(2 :: int) ^ s < 2 ^ 63" by simp
  then have s63: "s < 63" by (rule power_less_imp_less_exp [rotated]) simp
  have "(2 * m + 1) * 2 ^ s < 2 ^ 54 * 2 ^ s" using m by (intro mult_strict_right_mono) simp_all
  then have "2 ^ 63 < 2 ^ 54 * (2 :: int) ^ s" using s(1) by (rule le_less_trans [rotated])
  then have "(2 :: int) ^ 63 < 2 ^ (54 + s)" by (simp only: power_add)
  then have "63 < 54 + s" by (rule power_less_imp_less_exp [rotated]) simp
  then have s10: "10 \<le> s" by simp
  have "2 ^ (63 - s) * 2 ^ s \<le> (2 * m + 1) * 2 ^ s" using s(1) s63 by (simp flip: power_add)
  then have "2 ^ (63 - s) \<le> 2 * m + 1" by simp
  moreover obtain j where "63 - s = Suc j" using s63 by (metis Suc_diff_Suc)
  ultimately have "2 ^ (63 - s) \<le> 2 * m" by simp
  then have "2 ^ (63 - s) * 2 ^ s \<le> 2 * m * 2 ^ s" by (intro mult_right_mono) simp_all
  then have "2 ^ 63 \<le> m * 2 ^ Suc s" using s63 by (simp add: mult.assoc mult.left_commute flip: power_add)
  moreover have "m * 2 ^ Suc s < 2 ^ 64" using s(2) zero_less_power [of "2 :: int" s] by (simp add: algebra_simps del: zero_less_power)
  ultimately show thesis using that s s10 s63 by simp
qed

definition boundary_low :: "int \<Rightarrow> int \<Rightarrow> nat \<Rightarrow> int" where
  "boundary_low m e s = (if lower_closer m e then (4 * m - 1) * 2 ^ (s - 1) else (2 * m - 1) * 2 ^ s)"

lemma compute_boundaries_eq:
  assumes wf: "dbl_wf (Fin False m e)" and m: "0 < m" and s: "2 ^ 63 \<le> (2 * m + 1) * 2 ^ s" "(2 * m + 1) * 2 ^ s < 2 ^ 64" "10 \<le> s"
    and v: "2 ^ 63 \<le> m * 2 ^ Suc s" "m * 2 ^ Suc s < 2 ^ 64"
  defines "E \<equiv> e - 1 - int s"
  shows "compute_boundaries (Fin False m e)
    = Inr (\<lparr>df = boundary_low m e s, de = E\<rparr>, \<lparr>df = m * 2 ^ Suc s, de = E\<rparr>, \<lparr>df = (2 * m + 1) * 2 ^ s, de = E\<rparr>)"
proof -
  have m53: "m < 9007199254740992" using wf by auto
  obtain B F where bf: "ieee_bits (Fin False m e) = (B, F)" by force
  have val: "(if B = 0 then \<lparr>df = F, de = - 1074\<rparr> else \<lparr>df = F + 4503599627370496, de = B - 1075\<rparr>) = \<lparr>df = m, de = e\<rparr>"
    and cl: "F = 0 \<and> 1 < B \<longleftrightarrow> lower_closer m e" using bf wf m by (auto simp: EMIN_def lower_closer_def split: if_splits)
  have np: "diyfp_normalize \<lparr>df = 2 * m + 1, de = e - 1\<rparr> = Inr \<lparr>df = (2 * m + 1) * 2 ^ s, de = E\<rparr>"
    using normalize_loop_eq [of "2 * m + 1" s] m s by (simp add: diyfp_normalize_def assertion_def E_def)
  have nv: "diyfp_normalize \<lparr>df = m, de = e\<rparr> = Inr \<lparr>df = m * 2 ^ Suc s, de = E\<rparr>"
    using normalize_loop_eq [of m "Suc s"] m v by (simp add: diyfp_normalize_def assertion_def E_def)
  have to: "normalize_to \<lparr>df = x, de = E + int j\<rparr> E = Inr \<lparr>df = x * 2 ^ j, de = E\<rparr>" if "0 \<le> x" "x * 2 ^ j < 2 ^ 64" for x j
    using that by (simp add: normalize_to_def assertion_def Let_def u64_id)
  have e1: "e - 1 = E + int s" "e - 2 = E + int (s - 1)" using s(3) by (simp_all add: E_def)
  have le: "(2 * m - 1) * 2 ^ s \<le> (2 * m + 1) * 2 ^ s" by (rule mult_right_mono) simp_all
  have "normalize_to \<lparr>df = 2 * m - 1, de = e - 1\<rparr> E = Inr \<lparr>df = (2 * m - 1) * 2 ^ s, de = E\<rparr>"
    unfolding e1 by (rule to) (use m le_less_trans [OF le s(2)] in simp_all)
  moreover have "normalize_to \<lparr>df = 4 * m - 1, de = e - 2\<rparr> E = Inr \<lparr>df = (4 * m - 1) * 2 ^ (s - 1), de = E\<rparr>"
  proof -
    have "2 ^ s = 2 * (2 :: int) ^ (s - 1)" using s(3) by (cases s) simp_all
    then have "(4 * m - 1) * 2 ^ (s - 1) \<le> (2 * m + 1) * 2 ^ s" by (simp add: algebra_simps)
    then show ?thesis unfolding e1 by (intro to) (use m s(2) in simp_all)
  qed
  ultimately show ?thesis
    using bf val cl np nv m m53
    by (simp add: compute_boundaries_def assertion_def dbl_zero_less Let_def u64_id boundary_low_def E_def [symmetric] del: ieee_bits.simps)
qed

lemma boundary_low_eq: "1 \<le> s \<Longrightarrow> real_of_int (boundary_low m e s) * two (e - 1 - int s) = lower_bound m e"
  using two_scale [of "e - 1 - int s" s] two_scale [of "e - 1 - int s" "s - 1"]
  by (simp add: boundary_low_def lower_bound_def algebra_simps)

lemma boundary_high_eq: "real_of_int ((2 * m + 1) * 2 ^ s) * two (e - 1 - int s) = upper_bound m e"
  using two_scale [of "e - 1 - int s" s] by (simp add: upper_bound_def algebra_simps)

section \<open>Scaling\<close>

text \<open>The scaled significand: the rounded upper half of the product.\<close>

definition scaled_by :: "int \<Rightarrow> int \<Rightarrow> int" where
  "scaled_by c f = (f * c + 2 ^ 63) div 2 ^ 64"

lemma half_unit: "\<bar>n - (n + 9223372036854775808) div 18446744073709551616 * 18446744073709551616\<bar> \<le> (9223372036854775808 :: int)"
  by linarith

lemma scaled_by_error: "\<bar>real_of_int (f * c) - real_of_int (scaled_by c f) * 2 ^ 64\<bar> \<le> 2 ^ 63"
proof -
  have "\<bar>f * c - scaled_by c f * 2 ^ 64\<bar> \<le> 2 ^ 63"
    using half_unit [of "f * c"] by (simp add: scaled_by_def)
  then have "real_of_int \<bar>f * c - scaled_by c f * 2 ^ 64\<bar> \<le> real_of_int (2 ^ 63)" by (simp only: of_int_le_iff)
  then show ?thesis by simp
qed

lemma abs_diff_less: "\<lbrakk>\<bar>a\<bar> \<le> x; \<bar>b\<bar> \<le> y; y < x; d = b - a; z = x + x\<rbrakk> \<Longrightarrow> \<bar>d\<bar> < (z :: real)"
  by linarith

text \<open>The error of a scaled boundary is less than one unit.\<close>

lemma scaled_by_close:
  assumes f: "0 \<le> f" "f < 2 ^ 64" and c: "\<bar>real_of_int c * two ce - 10 powi k\<bar> \<le> two ce / 2"
  shows "\<bar>real_of_int (scaled_by c f) * two (ce + e + 64) - real_of_int f * two e * 10 powi k\<bar> < two (ce + e + 64)"
proof -
  let ?u = "two (ce + e)" and ?W = "real_of_int (scaled_by c f)"
  have u: "two (ce + e + 64) = 2 ^ 64 * ?u" "?u = two ce * two e" "0 < ?u" using two_scale [of "ce + e" 64] by (simp_all add: two_add)
  have A: "\<bar>(real_of_int (f * c) - ?W * 2 ^ 64) * ?u\<bar> \<le> 2 ^ 63 * ?u" using scaled_by_error by (rule abs_scale) simp
  have B: "\<bar>(real_of_int c * two ce - 10 powi k) * (real_of_int f * two e)\<bar> \<le> two ce / 2 * (real_of_int f * two e)"
    using c by (rule abs_scale) (use f in simp)
  have "real_of_int f < real_of_int (2 ^ 64)" using f(2) by (simp only: of_int_less_iff)
  then have "real_of_int f / 2 * ?u < 2 ^ 63 * ?u" by (intro mult_strict_right_mono) (use u in simp_all)
  then have "two ce / 2 * (real_of_int f * two e) < 2 ^ 63 * ?u" by (simp add: u(2) mult.commute mult.left_commute)
  then show ?thesis
    by (rule abs_diff_less [OF A B]) (unfold u(1), simp_all add: u(2) algebra_simps)
qed

text \<open>What the digit loops get: the scaled boundaries, moved inwards by one unit, and the scaled value.\<close>

definition gen_input :: "nat \<Rightarrow> int \<Rightarrow> int \<Rightarrow> int \<Rightarrow> bool" where
  "gen_input s lo w hi \<longleftrightarrow> 32 \<le> s \<and> s \<le> 60 \<and> 0 < lo \<and> lo \<le> w \<and> w \<le> hi \<and> hi < 2 ^ 64 \<and> 2 ^ s \<le> hi \<and> hi \<le> (hi - lo) * 10 ^ 16"

lemma scaled_by_gap:
  assumes "2 ^ 63 \<le> c" and "2 ^ Suc j \<le> h"
  shows "scaled_by c f + 2 ^ j \<le> scaled_by c (f + h)"
proof -
  have "2 ^ j * 18446744073709551616 = 2 ^ Suc j * (2 ^ 63 :: int)" by simp
  also have "\<dots> \<le> h * c" using assms order_trans [OF _ assms(2), of 0] by (intro mult_mono) simp_all
  finally have "2 ^ j \<le> h * c div 18446744073709551616" by (simp add: zdiv_mono1 [of "2 ^ j * 18446744073709551616" "h * c" 18446744073709551616, simplified])
  moreover have "(f * c + 9223372036854775808) div 18446744073709551616 + h * c div 18446744073709551616
      \<le> (f * c + h * c + 9223372036854775808) div 18446744073709551616" by linarith
  ultimately show ?thesis by (simp add: scaled_by_def distrib_right)
qed

lemma scaled_by_bounds:
  "scaled_by c f * 18446744073709551616 \<le> f * c + 9223372036854775808"
  "- 9223372036854775808 < scaled_by c f * 18446744073709551616 - f * c"
  by (simp_all add: scaled_by_def)

lemma scaled_by_range:
  assumes "0 \<le> f" "f < 2 ^ 64" "0 \<le> c" "c < 2 ^ 64"
  shows "0 \<le> scaled_by c f" and "scaled_by c f < 2 ^ 64 - 1"
proof -
  have "f * c \<le> (2 ^ 64 - 1) * (2 ^ 64 - 1)" "0 \<le> f * c" using assms by (intro mult_mono mult_nonneg_nonneg; simp)+
  then show "0 \<le> scaled_by c f" "scaled_by c f < 2 ^ 64 - 1" using scaled_by_bounds [of c f] by simp_all
qed

lemma boundary_low_twice: "1 \<le> s \<Longrightarrow> 2 * boundary_low m e s = (if lower_closer m e then 4 * m - 1 else 4 * m - 2) * 2 ^ s"
  by (cases s) (simp_all add: boundary_low_def algebra_simps)

text \<open>Seventeen digits are enough: the distance of the boundaries is at least the \<open>10^16\<close>-th part of the upper one.\<close>

lemma scaled_ratio:
  assumes wf: "dbl_wf (Fin False m e)" and m: "0 < m" and s: "10 \<le> s" and c: "2 ^ 63 \<le> c"
  defines "hi \<equiv> scaled_by c ((2 * m + 1) * 2 ^ s)" and "lo \<equiv> scaled_by c (boundary_low m e s)"
  shows "hi - 1 \<le> (hi - lo - 2) * 10 ^ 16"
proof -
  define X P L where "X = 2 ^ s * c" and "P = (2 * m + 1) * X" and "L = boundary_low m e s * c"
  have "(2 :: int) ^ 10 \<le> 2 ^ s" using s by (intro power_increasing) simp_all
  then have "2 ^ 10 * 2 ^ 63 \<le> X" unfolding X_def using c by (intro mult_mono) simp_all
  then have X: "9444732965739290427392 \<le> X" by simp
  have hi: "hi * 18446744073709551616 \<le> P + 9223372036854775808" "P - 9223372036854775808 < hi * 18446744073709551616"
    using scaled_by_bounds [of c "(2 * m + 1) * 2 ^ s"] by (simp_all add: hi_def P_def X_def mult.assoc)
  have lo: "lo * 18446744073709551616 \<le> L + 9223372036854775808"
    using scaled_by_bounds [of c "boundary_low m e s"] by (simp add: lo_def L_def)
  have "2 * L = (2 * boundary_low m e s) * c" by (simp add: L_def)
  then have L: "2 * L = 2 * P - (if lower_closer m e then 3 else 4) * X"
    using s by (simp only: boundary_low_twice) (simp add: P_def X_def algebra_simps)
  have "2 * m + 1 \<le> (if lower_closer m e then 9007199254740993 else 18014398509481984)"
    using wf by (auto simp: lower_closer_def)
  then have "P \<le> (if lower_closer m e then 9007199254740993 else 18014398509481984) * X"
    unfolding P_def using X by (intro mult_right_mono) simp_all
  then show ?thesis using hi lo L X by (simp split: if_splits; linarith)
qed

lemma diyfp_mul_eq:
  assumes "0 \<le> f" "f < 2 ^ 64" "0 \<le> c" "c < 2 ^ 64"
  shows "diyfp_mul \<lparr>df = f, de = e\<rparr> \<lparr>df = c, de = ce\<rparr> = \<lparr>df = scaled_by c f, de = ce + e + 64\<rparr>"
  using diyfp_mul_df [of "\<lparr>df = f, de = e\<rparr>" "\<lparr>df = c, de = ce\<rparr>"] assms
  by (intro diyfp.equality) (simp_all add: scaled_by_def)

lemma grisu2_value_scaled:
  assumes wf: "dbl_wf (Fin False m e)" and m: "0 < m"
  obtains s lo w hi k where
    "grisu2_value (Fin False m e) = mapR (\<lambda>(buf, dec). (buf, dec - k))
      (grisu2_digit_gen \<lparr>df = lo, de = - int s\<rparr> \<lparr>df = w, de = - int s\<rparr> \<lparr>df = hi, de = - int s\<rparr>)"
    "gen_input s lo w hi" "- 300 \<le> k" "k \<le> 324"
    "lower_bound m e * 10 powi k < real_of_int lo * two (- int s)" "real_of_int hi * two (- int s) < upper_bound m e * 10 powi k"
proof -
  have "m < 2 ^ 53" using wf by auto
  then obtain t where t: "2 ^ 63 \<le> (2 * m + 1) * 2 ^ t" "(2 * m + 1) * 2 ^ t < 2 ^ 64" "10 \<le> t" "t \<le> 62"
    "2 ^ 63 \<le> m * 2 ^ Suc t" "m * 2 ^ Suc t < 2 ^ 64" using normalize_odd m by blast
  define E F V L where "E = e - 1 - int t" and "F = (2 * m + 1) * 2 ^ t" and "V = m * 2 ^ Suc t" and "L = boundary_low m e t"
  have b: "compute_boundaries (Fin False m e) = Inr (\<lparr>df = L, de = E\<rparr>, \<lparr>df = V, de = E\<rparr>, \<lparr>df = F, de = E\<rparr>)"
    using compute_boundaries_eq [OF wf m t(1-3) t(5,6)] by (simp add: E_def F_def V_def L_def)
  have "- 1074 \<le> e" "e \<le> 971" using wf by (auto simp: EMIN_def EMAX_def)
  then have "- 1137 \<le> E" "E \<le> 960" using t(3,4) by (simp_all add: E_def)
  then obtain c ce k where c: "get_cached_power E = Inr (c, ce, k)" "2 ^ 63 \<le> c" "c < 2 ^ 64"
    "\<bar>real_of_int c * two ce - 10 powi k\<bar> \<le> two ce / 2" "- 60 \<le> ce + E + 64" "ce + E + 64 \<le> - 32" "- 300 \<le> k" "k \<le> 324"
    using get_cached_power_ok by metis
  define s where "s = nat (- (ce + E + 64))"
  have s: "ce + E + 64 = - int s" "E + ce + 64 = - int s" "32 \<le> s" "s \<le> 60" using c(5,6) by (simp_all add: s_def)
  have low: "2 * L = (if lower_closer m e then 4 * m - 1 else 4 * m - 2) * 2 ^ t" using boundary_low_twice t(3) by (simp add: L_def)
  have H: "1024 \<le> (2 :: int) ^ t" using power_increasing [of 10 t "2 :: int"] t(3) by simp
  have gap: "F = V + 2 ^ t" "2 * L + 2 ^ t \<le> 2 * V" "0 \<le> 2 * L"
    using low m by (simp_all add: F_def V_def algebra_simps split: if_splits)
  have r: "0 \<le> L" "L < 2 ^ 64" "0 \<le> V" "V < 2 ^ 64" "0 \<le> F" "F < 2 ^ 64" using gap t(2,6) H unfolding F_def [symmetric] V_def [symmetric] by linarith+
  have c0: "0 \<le> c" using c(2) by simp
  let ?W = "scaled_by c"
  note rL = scaled_by_range [OF r(1,2) c0 c(3)] and rV = scaled_by_range [OF r(3,4) c0 c(3)] and rF = scaled_by_range [OF r(5,6) c0 c(3)]
  have gV: "?W V + 2 ^ 9 \<le> ?W F" unfolding gap(1) by (rule scaled_by_gap [OF c(2)]) (use H in simp)
  have gL: "?W L + 2 ^ 8 \<le> ?W V" using scaled_by_gap [OF c(2), of 8 "V - L" L] gap(2) H by simp
  have "2 ^ 63 * 2 ^ 63 \<le> F * c" using t(1) c(2) by (intro mult_mono) (simp_all add: F_def)
  then have "2 ^ 60 < ?W F" using scaled_by_bounds(2) [of c F] by simp
  moreover have "(2 :: int) ^ s \<le> 2 ^ 60" using s(4) by (intro power_increasing) simp_all
  moreover have "?W F - 1 \<le> (?W F - ?W L - 2) * 10 ^ 16" unfolding F_def L_def by (rule scaled_ratio [OF wf m t(3) c(2)])
  ultimately have inp: "gen_input s (?W L + 1) (?W V) (?W F - 1)" using s gV gL rL rF by (simp add: gen_input_def)
  have g: "grisu2_value (Fin False m e) = mapR (\<lambda>(buf, dec). (buf, dec - k))
      (grisu2_digit_gen \<lparr>df = ?W L + 1, de = - int s\<rparr> \<lparr>df = ?W V, de = - int s\<rparr> \<lparr>df = ?W F - 1, de = - int s\<rparr>)"
    using b c(1) r c0 c(3) m rL rF gV gL
    by (simp add: grisu2_value_def grisu2_def assertion_def dbl_zero_less diyfp_mul_eq s(1,2) u64_id Let_def)
  have bL: "real_of_int L * two E = lower_bound m e" and bF: "real_of_int F * two E = upper_bound m e"
    unfolding L_def F_def E_def using boundary_low_eq [of t m e] boundary_high_eq [of m t e] t(3) by simp_all
  have "\<bar>real_of_int (?W L) * two (- int s) - lower_bound m e * 10 powi k\<bar> < two (- int s)"
    using scaled_by_close [OF r(1,2) c(4), of E] unfolding s(1) bL .
  moreover have "\<bar>real_of_int (?W F) * two (- int s) - upper_bound m e * 10 powi k\<bar> < two (- int s)"
    using scaled_by_close [OF r(5,6) c(4), of E] unfolding s(1) bF .
  ultimately have "lower_bound m e * 10 powi k < real_of_int (?W L + 1) * two (- int s)"
    "real_of_int (?W F - 1) * two (- int s) < upper_bound m e * 10 powi k"
    unfolding of_int_add of_int_diff distrib_right left_diff_distrib by simp_all
  then show thesis using that g inp c(7,8) by blast
qed

end
