(* ===== verification/Json_Writer.thy ===== *)
theory Json_Writer
  imports Json Grisu
begin

text \<open>
  The serializer of \<^verbatim>\<open>include/nlohmann/json.hpp\<close> (class \<^verbatim>\<open>serializer\<close>), as \<^verbatim>\<open>basic_json::dump\<close> calls it for the
  program: strict error handler, no escaping of valid non-ASCII text, compact or with an indentation. Writing appends
  to the output, so each function returns what it writes; the buffers only collect it. The text of a finite double comes
  from Grisu2.
\<close>

section \<open>Strings\<close>

text \<open>\<^verbatim>\<open>decode\<close> also keeps the code point; the bit operations act on disjoint bits.\<close>

definition decode_codep :: "int \<Rightarrow> int \<Rightarrow> char \<Rightarrow> int" where
  "decode_codep state codep c =
     (if state \<noteq> 0 then of_char c mod 64 + codep * 64 else of_char c mod 2 ^ (8 - nat (utf8_class (of_char c))))"

definition hex_char :: "int \<Rightarrow> char" where
  "hex_char d = to_char (if d < 10 then 48 + d else 87 + d)"

text \<open>\<^verbatim>\<open>snprintf\<close> with the format \<^verbatim>\<open>\u%04x\<close>.\<close>

definition unicode_escape :: "int \<Rightarrow> string" where
  "unicode_escape cp = CHR 0x5C # CHR ''u'' # map hex_char [cp div 4096 mod 16, cp div 256 mod 16, cp div 16 mod 16, cp mod 16]"

text \<open>What is written when the byte \<open>c\<close> completes the code point \<open>cp\<close>.\<close>

definition escape_codepoint :: "int \<Rightarrow> char \<Rightarrow> string" where
  "escape_codepoint cp c =
     (if cp = 0x08 then [CHR 0x5C, CHR ''b'']
      else if cp = 0x09 then [CHR 0x5C, CHR ''t'']
      else if cp = 0x0A then [CHR 0x5C, CHR ''n'']
      else if cp = 0x0C then [CHR 0x5C, CHR ''f'']
      else if cp = 0x0D then [CHR 0x5C, CHR ''r'']
      else if cp = 0x22 then [CHR 0x5C, CHR 0x22]
      else if cp = 0x5C then [CHR 0x5C, CHR 0x5C]
      else if cp \<le> 0x1F then unicode_escape cp
      else [c])"

fun dump_escaped_loop :: "int \<Rightarrow> int \<Rightarrow> string \<Rightarrow> string res" where
  "dump_escaped_loop state codep [] = (if state = 0 then Inr [] else Inl (Json_type_error 316))"
| "dump_escaped_loop state codep (c # cs) =
     (let state' = utf8_decode state c; codep' = decode_codep state codep c
      in if state' = 1 then Inl (Json_type_error 316)
         else mapR (\<lambda>out. (if state' = 0 then escape_codepoint codep' c else [c]) @ out) (dump_escaped_loop state' codep' cs))"

definition dump_escaped :: "string \<Rightarrow> string res" where
  "dump_escaped s = dump_escaped_loop 0 0 s"

section \<open>Numbers\<close>

text \<open>The digits from the back, two at a time, as \<^verbatim>\<open>digits_to_99\<close> gives them.\<close>

function dump_digits :: "int \<Rightarrow> string" where
  "dump_digits n =
     (if n < 10 then [digit_char n]
      else if n < 100 then [digit_char (n div 10), digit_char (n mod 10)]
      else dump_digits (n div 100) @ [digit_char (n mod 100 div 10), digit_char (n mod 100 mod 10)])"
  by pat_completeness auto
termination
  by (relation "measure nat") auto

declare dump_digits.simps [simp del]

text \<open>\<^verbatim>\<open>count_digits\<close>, which gives the place of the last digit in the buffer.\<close>

function count_digits_loop :: "int \<Rightarrow> nat \<Rightarrow> nat" where
  "count_digits_loop x n =
     (if x < 10 then n else if x < 100 then n + 1 else if x < 1000 then n + 2 else if x < 10000 then n + 3
      else count_digits_loop (x div 10000) (n + 4))"
  by pat_completeness auto
termination
  by (relation "measure (\<lambda>(x, n). nat x)") auto

declare count_digits_loop.simps [simp del]

definition count_digits :: "int \<Rightarrow> nat" where
  "count_digits x = count_digits_loop x 1"

lemma dump_digits_bounds: "0 < x \<Longrightarrow> 10 ^ (length (dump_digits x) - 1) \<le> x \<and> x < 10 ^ length (dump_digits x) \<and> 0 < length (dump_digits x)"
proof (induction x rule: dump_digits.induct)
  case (1 x)
  show ?case
  proof (cases "x < 100")
    case False
    define l where "l = length (dump_digits (x div 100)) - 1"
    have "0 < x div 100" using False by linarith
    then have l: "10 ^ l \<le> x div 100" "x div 100 < 10 ^ Suc l" "length (dump_digits x) = l + 3"
      using 1 False by (auto simp: l_def dump_digits.simps [of x])
    have "10 ^ l * 100 \<le> x" "x < 10 ^ Suc l * 100" using l(1,2) by linarith+
    then show ?thesis by (simp add: l(3) power_add)
  qed (use 1 in \<open>auto simp: dump_digits.simps [of x]\<close>)
qed

lemma count_digits_bounds: "\<lbrakk>0 < x; 0 < n\<rbrakk> \<Longrightarrow> \<exists>l. count_digits_loop x n = n + l \<and> 10 ^ l \<le> x \<and> x < 10 ^ Suc l"
proof (induction x n rule: count_digits_loop.induct)
  case (1 x n)
  show ?case
  proof (cases "x < 10000")
    case False
    then have "0 < x div 10000" by linarith
    then obtain l where l: "count_digits_loop (x div 10000) (n + 4) = n + 4 + l" "10 ^ l \<le> x div 10000" "x div 10000 < 10 ^ Suc l"
      using "1.IH" False by auto
    have "10 ^ l * 10000 \<le> x" "x < 10 ^ Suc l * 10000" using l(2,3) by linarith+
    then show ?thesis using False l(1) by (intro exI [of _ "l + 4"]) (simp add: count_digits_loop.simps [of x] power_add)
  next
    case True
    consider "x < 10" | "10 \<le> x" "x < 100" | "100 \<le> x" "x < 1000" | "1000 \<le> x" using True by linarith
    then show ?thesis
    proof cases
      case 1
      then show ?thesis using "1.prems" by (intro exI [of _ 0]) (simp add: count_digits_loop.simps [of x])
    next
      case 2
      then show ?thesis by (intro exI [of _ 1]) (simp add: count_digits_loop.simps [of x])
    next
      case 3
      then show ?thesis by (intro exI [of _ 2]) (simp add: count_digits_loop.simps [of x])
    next
      case 4
      then show ?thesis using True by (intro exI [of _ 3]) (simp add: count_digits_loop.simps [of x])
    qed
  qed
qed

text \<open>The digits fill exactly the space that was counted.\<close>

lemma dump_digits_length:
  assumes "0 < x"
  shows "length (dump_digits x) = count_digits x"
proof -
  define k where "k = length (dump_digits x) - 1"
  have k: "10 ^ k \<le> x" "x < 10 ^ Suc k" "length (dump_digits x) = Suc k" using dump_digits_bounds [OF assms] by (auto simp: k_def)
  obtain l where l: "count_digits x = 1 + l" "10 ^ l \<le> x" "x < 10 ^ Suc l"
    using count_digits_bounds [OF assms, of 1] by (auto simp: count_digits_def)
  have "\<not> Suc k \<le> l" "\<not> Suc l \<le> k"
    using k l power_increasing [of "Suc k" l "10 :: int"] power_increasing [of "Suc l" k "10 :: int"] by linarith+
  then show ?thesis using k(3) l(1) by simp
qed

definition dump_integer :: "int \<Rightarrow> string" where
  "dump_integer x = (if x = 0 then ''0'' else if x < 0 then CHR ''-'' # dump_digits (- (x + 1) + 1) else dump_digits x)"

definition dump_float :: "dbl \<Rightarrow> string res" where
  "dump_float x = (if is_finite x then to_chars x else Inr ''null'')"

section \<open>Values\<close>

definition indent :: "nat \<Rightarrow> string" where
  "indent n = replicate n (CHR '' '')"

text \<open>
  The blanks of the indented form are read from \<^verbatim>\<open>indent_string\<close>, a member of the serializer that starts with 512 blanks and
  is doubled, once, when a container needs more. What is read past its terminating zero byte is out of bounds. Here the
  member is the size that \<^verbatim>\<open>dump\<close> is given and returns.
\<close>

definition indent_size :: nat where
  "indent_size = 512"

definition blanks :: "nat \<Rightarrow> nat \<Rightarrow> string res" where
  "blanks sz n =
     (if n \<le> sz then Inr (indent n) else if n = Suc sz then Inr (indent sz @ [CHR 0x00]) else Inl (Undefined Array_bounds))"

text \<open>\<open>step\<close> is the indentation step, \<open>None\<close> for the compact form; \<open>cur\<close> is the current indentation, an \<^verbatim>\<open>unsigned int\<close>.\<close>

definition next_indent :: "nat option \<Rightarrow> nat \<Rightarrow> nat" where
  "next_indent step cur = (case step of None \<Rightarrow> cur | Some n \<Rightarrow> (cur + n) mod 2 ^ 32)"

definition grow_indent :: "nat option \<Rightarrow> nat \<Rightarrow> nat \<Rightarrow> nat" where
  "grow_indent step new sz = (case step of None \<Rightarrow> sz | Some n \<Rightarrow> if sz < new then sz * 2 else sz)"

definition open_text :: "nat option \<Rightarrow> char \<Rightarrow> string" where
  "open_text step c = (case step of None \<Rightarrow> [c] | Some n \<Rightarrow> [c, CHR 0x0A])"

definition item_indent :: "nat option \<Rightarrow> nat \<Rightarrow> nat \<Rightarrow> string res" where
  "item_indent step new sz = (case step of None \<Rightarrow> Inr [] | Some n \<Rightarrow> blanks sz new)"

definition comma_text :: "nat option \<Rightarrow> string" where
  "comma_text step = (case step of None \<Rightarrow> '','' | Some n \<Rightarrow> [CHR '','', CHR 0x0A])"

definition close_text :: "nat option \<Rightarrow> nat \<Rightarrow> nat \<Rightarrow> char \<Rightarrow> string res" where
  "close_text step cur sz c =
     (case step of None \<Rightarrow> Inr [c] | Some n \<Rightarrow> mapR (\<lambda>b. CHR 0x0A # b @ [c]) (blanks sz cur))"

definition colon_text :: "nat option \<Rightarrow> string" where
  "colon_text step = CHR 0x22 # CHR '':'' # (case step of None \<Rightarrow> [] | Some n \<Rightarrow> '' '')"

text \<open>The loop over the elements: all but the last are followed by a comma.\<close>

fun dump_items :: "string \<Rightarrow> (nat \<Rightarrow> (string \<times> nat) res) list \<Rightarrow> nat \<Rightarrow> (string \<times> nat) res" where
  "dump_items sep [] sz = Inr ([], sz)"
| "dump_items sep [f] sz = f sz"
| "dump_items sep (f # g # fs) sz =
     bindR (f sz) (\<lambda>(t, sz'). mapR (\<lambda>(ts, sz''). (t @ sep @ ts, sz'')) (dump_items sep (g # fs) sz'))"

fun dump_value :: "nat option \<Rightarrow> nat \<Rightarrow> json \<Rightarrow> nat \<Rightarrow> (string \<times> nat) res" where
  "dump_value step cur JNull sz = Inr (''null'', sz)"
| "dump_value step cur (JBool b) sz = Inr (if b then ''true'' else ''false'', sz)"
| "dump_value step cur (JInt i) sz = Inr (dump_integer i, sz)"
| "dump_value step cur (JFloat d) sz = mapR (\<lambda>t. (t, sz)) (dump_float d)"
| "dump_value step cur (JStr s) sz = mapR (\<lambda>t. (CHR 0x22 # t @ [CHR 0x22], sz)) (dump_escaped s)"
| "dump_value step cur (JArr js) sz =
     (if js = [] then Inr (''[]'', sz)
      else let new = next_indent step cur
        in bindR (dump_items (comma_text step) (map (\<lambda>j sz. bindR (item_indent step new sz) (\<lambda>b.
               mapR (\<lambda>(t, sz'). (b @ t, sz')) (dump_value step new j sz))) js) (grow_indent step new sz))
             (\<lambda>(ts, sz'). mapR (\<lambda>c. (open_text step (CHR ''['') @ ts @ c, sz')) (close_text step cur sz' (CHR '']''))))"
| "dump_value step cur (JObj kvs) sz =
     (if kvs = [] then Inr (''{}'', sz)
      else let new = next_indent step cur
        in bindR (dump_items (comma_text step) (map (\<lambda>(k, j) sz. bindR (item_indent step new sz) (\<lambda>b.
               bindR (dump_escaped k) (\<lambda>kt. mapR (\<lambda>(t, sz'). (b @ CHR 0x22 # kt @ colon_text step @ t, sz'))
                 (dump_value step new j sz)))) kvs) (grow_indent step new sz))
             (\<lambda>(ts, sz'). mapR (\<lambda>c. (open_text step (CHR ''{'') @ ts @ c, sz')) (close_text step cur sz' (CHR ''}''))))"

text \<open>\<^verbatim>\<open>basic_json::dump(indent)\<close>, where the compact form has the indentation -1.\<close>

definition json_dump :: "int \<Rightarrow> json \<Rightarrow> string res" where
  "json_dump ind j = mapR fst (dump_value (if 0 \<le> ind then Some (nat ind) else None) 0 j indent_size)"

section \<open>The text without the buffer\<close>

text \<open>
  The specification of the text: blanks of any number, no buffer. \<open>json_dump_plain\<close> shows that \<^verbatim>\<open>dump\<close> writes it for every
  indentation up to 1024, twice the first size of the buffer, and \<open>wide_indent_overruns\<close> that a wider one reads out of
  bounds at the first element.
\<close>

definition plain_indent :: "nat option \<Rightarrow> nat \<Rightarrow> string" where
  "plain_indent step cur = (case step of None \<Rightarrow> [] | Some n \<Rightarrow> indent (next_indent step cur))"

definition plain_close :: "nat option \<Rightarrow> nat \<Rightarrow> char \<Rightarrow> string" where
  "plain_close step cur c = (case step of None \<Rightarrow> [c] | Some n \<Rightarrow> CHR 0x0A # indent cur @ [c])"

fun join :: "string \<Rightarrow> string list \<Rightarrow> string" where
  "join sep [] = []"
| "join sep [x] = x"
| "join sep (x # y # xs) = x @ sep @ join sep (y # xs)"

fun plain_value :: "nat option \<Rightarrow> nat \<Rightarrow> json \<Rightarrow> string res" where
  "plain_value step cur JNull = Inr ''null''"
| "plain_value step cur (JBool b) = Inr (if b then ''true'' else ''false'')"
| "plain_value step cur (JInt i) = Inr (dump_integer i)"
| "plain_value step cur (JFloat d) = dump_float d"
| "plain_value step cur (JStr s) = mapR (\<lambda>t. CHR 0x22 # t @ [CHR 0x22]) (dump_escaped s)"
| "plain_value step cur (JArr js) =
     (if js = [] then Inr ''[]''
      else mapR (\<lambda>ts. open_text step (CHR ''['') @ join (comma_text step) ts @ plain_close step cur (CHR '']''))
        (sequenceR (map (\<lambda>j. mapR (\<lambda>t. plain_indent step cur @ t) (plain_value step (next_indent step cur) j)) js)))"
| "plain_value step cur (JObj kvs) =
     (if kvs = [] then Inr ''{}''
      else mapR (\<lambda>ts. open_text step (CHR ''{'') @ join (comma_text step) ts @ plain_close step cur (CHR ''}''))
        (sequenceR (map (\<lambda>(k, j). bindR (dump_escaped k) (\<lambda>kt. mapR (\<lambda>t. plain_indent step cur @ CHR 0x22 # kt @ colon_text step @ t)
           (plain_value step (next_indent step cur) j))) kvs)))"

text \<open>The buffer has room: for the current indentation, and one doubling is enough for the next one.\<close>

definition room :: "nat option \<Rightarrow> nat \<Rightarrow> nat \<Rightarrow> bool" where
  "room step cur sz =
     (case step of None \<Rightarrow> True | Some n \<Rightarrow> n \<le> 2 * indent_size \<and> indent_size \<le> sz \<and> cur \<le> sz \<and> (cur = 0 \<or> n \<le> sz))"

lemma room_mono: "\<lbrakk>room step cur sz; sz \<le> sz'\<rbrakk> \<Longrightarrow> room step cur sz'"
  by (auto simp: room_def split: option.splits)

lemma grow_mono: "sz \<le> grow_indent step new sz"
  by (simp add: grow_indent_def split: option.splits)

lemma room_next:
  assumes "room step cur sz"
  shows "room step (next_indent step cur) (grow_indent step (next_indent step cur) sz)"
proof (cases step)
  case (Some n)
  have "(cur + n) mod 2 ^ 32 \<le> cur + n" "cur = 0 \<Longrightarrow> (cur + n) mod 2 ^ 32 = n"
    using assms by (simp_all add: room_def Some indent_size_def)
  then show ?thesis using assms by (auto simp: room_def Some next_indent_def grow_indent_def indent_size_def)
qed (simp add: room_def)

lemma room_blanks:
  assumes "room step cur sz"
  shows "close_text step cur sz c = Inr (plain_close step cur c)"
    "item_indent step cur sz = Inr (case step of None \<Rightarrow> [] | Some n \<Rightarrow> indent cur)"
  using assms by (auto simp: room_def close_text_def plain_close_def item_indent_def blanks_def split: option.splits)

lemma dump_items_plain:
  assumes "\<And>x sz. \<lbrakk>x \<in> set xs; sz0 \<le> sz\<rbrakk> \<Longrightarrow> \<exists>sz'\<ge>sz. f x sz = mapR (\<lambda>t. (t, sz')) (g x)" and "sz0 \<le> sz"
  shows "\<exists>sz'\<ge>sz. dump_items sep (map f xs) sz = mapR (\<lambda>ts. (join sep ts, sz')) (sequenceR (map g xs))"
  using assms
proof (induction xs arbitrary: sz)
  case (Cons x xs)
  obtain sz1 where x: "sz \<le> sz1" "f x sz = mapR (\<lambda>t. (t, sz1)) (g x)" using Cons.prems by force
  show ?case
  proof (cases "g x")
    case (Inr t)
    have "\<exists>sz'\<ge>sz1. dump_items sep (map f xs) sz1 = mapR (\<lambda>ts. (join sep ts, sz')) (sequenceR (map g xs))"
      using Cons.IH [of sz1] Cons.prems x(1) by simp
    then obtain sz2 where "sz1 \<le> sz2"
      "dump_items sep (map f xs) sz1 = mapR (\<lambda>ts. (join sep ts, sz2)) (sequenceR (map g xs))" by blast
    then show ?thesis using x Inr
      by (cases xs; cases "sequenceR (map g xs)") (auto simp: bindR_eq_Inr intro!: exI [of _ sz1] exI [of _ sz2])
  qed (use x in \<open>cases xs; auto\<close>)
qed auto

lemma dump_container_plain:
  assumes room: "room step cur sz" and new: "new = next_indent step cur"
    and items: "\<And>x sz. \<lbrakk>x \<in> set xs; room step new sz\<rbrakk> \<Longrightarrow> \<exists>sz'\<ge>sz. f x sz = mapR (\<lambda>t. (t, sz')) (g x)"
  shows "\<exists>sz'\<ge>sz. bindR (dump_items sep (map f xs) (grow_indent step new sz))
        (\<lambda>(ts, sz'). mapR (\<lambda>c. (open_text step l @ ts @ c, sz')) (close_text step cur sz' r))
      = mapR (\<lambda>t. (t, sz')) (mapR (\<lambda>ts. open_text step l @ join sep ts @ plain_close step cur r) (sequenceR (map g xs)))"
proof -
  let ?sz = "grow_indent step new sz"
  have "\<exists>sz'\<ge>sz1. f x sz1 = mapR (\<lambda>t. (t, sz')) (g x)" if "x \<in> set xs" "?sz \<le> sz1" for x sz1
    using items that room_mono [OF room_next [OF room] that(2) [unfolded new]] new by simp
  from dump_items_plain [of xs ?sz f g ?sz sep, OF this order_refl]
  obtain sz' where "?sz \<le> sz'" and ts: "dump_items sep (map f xs) ?sz = mapR (\<lambda>ts. (join sep ts, sz')) (sequenceR (map g xs))"
    by auto
  then have "sz \<le> sz'" using grow_mono [of sz step new] by linarith
  then show ?thesis using ts room_blanks(1) [OF room_mono [OF room]]
    by (cases "sequenceR (map g xs)") auto
qed

lemma dump_plain: "room step cur sz \<Longrightarrow> \<exists>sz'\<ge>sz. dump_value step cur j sz = mapR (\<lambda>t. (t, sz')) (plain_value step cur j)"
proof (induction j arbitrary: cur sz)
  case (JFloat d)
  show ?case by auto
next
  case (JStr s)
  show ?case by (cases "dump_escaped s") auto
next
  case (JArr js)
  let ?new = "next_indent step cur"
  show ?case
  proof (cases "js = []")
    case False
    let ?f = "\<lambda>j sz. bindR (item_indent step ?new sz) (\<lambda>b. mapR (\<lambda>(t, sz'). (b @ t, sz')) (dump_value step ?new j sz))"
    let ?g = "\<lambda>j. mapR (\<lambda>t. plain_indent step cur @ t) (plain_value step ?new j)"
    have "\<exists>sz'\<ge>sz. ?f j sz = mapR (\<lambda>t. (t, sz')) (?g j)" if "j \<in> set js" "room step ?new sz" for j sz
    proof -
      note j = that
      obtain sz' where "sz \<le> sz'" "dump_value step ?new j sz = mapR (\<lambda>t. (t, sz')) (plain_value step ?new j)"
        using JArr.IH [OF j] by auto
      then show ?thesis using room_blanks(2) [OF j(2)] by (cases "plain_value step ?new j") (auto simp: plain_indent_def)
    qed
    from dump_container_plain [where f = ?f and g = ?g, OF JArr.prems refl this] show ?thesis using False by (simp add: Let_def)
  qed auto
next
  case (JObj kvs)
  let ?new = "next_indent step cur"
  show ?case
  proof (cases "kvs = []")
    case False
    let ?f = "\<lambda>(k, j) sz. bindR (item_indent step ?new sz) (\<lambda>b. bindR (dump_escaped k) (\<lambda>kt.
      mapR (\<lambda>(t, sz'). (b @ CHR 0x22 # kt @ colon_text step @ t, sz')) (dump_value step ?new j sz)))"
    let ?g = "\<lambda>(k, j). bindR (dump_escaped k) (\<lambda>kt. mapR (\<lambda>t. plain_indent step cur @ CHR 0x22 # kt @ colon_text step @ t)
      (plain_value step ?new j))"
    have "\<exists>sz'\<ge>sz. ?f kj sz = mapR (\<lambda>t. (t, sz')) (?g kj)" if "kj \<in> set kvs" "room step ?new sz" for kj sz
    proof -
      obtain k j where kj: "kj = (k, j)" by force
      note j = that
      obtain sz' where "sz \<le> sz'" "dump_value step ?new j sz = mapR (\<lambda>t. (t, sz')) (plain_value step ?new j)"
        using JObj.IH [OF j(1), of j] kj j(2) by auto
      then show ?thesis using room_blanks(2) [OF j(2)]
        by (cases "dump_escaped k"; cases "plain_value step ?new j") (auto simp: plain_indent_def kj)
    qed
    from dump_container_plain [OF JObj.prems refl this] show ?thesis using False by (simp add: Let_def)
  qed auto
qed auto

definition indent_ok :: "int \<Rightarrow> bool" where
  "indent_ok ind \<longleftrightarrow> ind \<le> 2 * int indent_size"

lemma indent_ok_small: "indent_ok (-1)" "indent_ok 2"
  by (simp_all add: indent_ok_def indent_size_def)

lemma json_dump_plain: "indent_ok ind \<Longrightarrow> json_dump ind j = plain_value (if 0 \<le> ind then Some (nat ind) else None) 0 j"
proof -
  let ?step = "if 0 \<le> ind then Some (nat ind) else None"
  assume "indent_ok ind"
  then have "room ?step 0 indent_size" by (auto simp: room_def indent_ok_def)
  from dump_plain [OF this, of j] show ?thesis
    by (cases "plain_value ?step 0 j") (auto simp: json_dump_def)
qed

text \<open>A wider indentation overruns the buffer, so the bound is exact but for the zero byte at its end.\<close>

lemma wide_indent_overruns:
  assumes "2 * int indent_size + 1 < ind" and "ind < 2 ^ 31" and "js \<noteq> []"
  shows "json_dump ind (JArr js) = Inl (Undefined Array_bounds)"
proof -
  obtain j js' where js: "js = j # js'" using assms(3) by (cases js) auto
  have "0 \<le> ind" "(0 + nat ind) mod 2 ^ 32 = nat ind" using assms(1,2) by (auto simp: indent_size_def nat_less_iff)
  moreover have "\<not> nat ind \<le> 1024" "nat ind \<noteq> Suc 1024" using assms(1) by (auto simp: indent_size_def)
  ultimately show ?thesis
    by (cases js') (simp_all add: js json_dump_def next_indent_def grow_indent_def item_indent_def blanks_def indent_size_def)
qed

end
