(* ===== verification/Json_Tokens.thy ===== *)
theory Json_Tokens
  imports Json_Lexer Json_Writer
begin

text \<open>
  Tokens written by the serializer are read back by the lexer: strings of valid UTF-8 through the escapes and the two
  different UTF-8 automata of serializer and lexer, integers of 64 bits, and doubles whose text \<^verbatim>\<open>strtod\<close> reads as the
  same double.
\<close>

abbreviation byte :: "char \<Rightarrow> int" where
  "byte c \<equiv> of_char c"

section \<open>Strings are read back\<close>

text \<open>The successors in the table, state by state.\<close>

lemmas utf8_table = utf8_decode_def utf8_class_def utf8_rows_def

lemma utf8_class_cases:
  obtains (c1) "utf8_class b = 1" "128 \<le> b" "b < 144" | (c9) "utf8_class b = 9" "144 \<le> b" "b < 160"
  | (c7) "utf8_class b = 7" "160 \<le> b" "b < 192" | (other) "utf8_class b \<in> {0, 2, 3, 4, 5, 6, 8, 10, 11}" "b < 128 \<or> 192 \<le> b"
proof -
  consider "b < 128" | "128 \<le> b" "b < 144" | "144 \<le> b" "b < 160" | "160 \<le> b" "b < 192" | "192 \<le> b" by linarith
  then show thesis by cases (rule c1 c9 c7 other; simp add: utf8_class_def)+
qed

lemma decode_2: "utf8_decode 2 d = (if 0x80 \<le> byte d \<and> byte d \<le> 0xBF then 0 else 1)"
  by (cases rule: utf8_class_cases [of "byte d"]) (auto simp: utf8_decode_def utf8_rows_def)

lemma decode_3: "utf8_decode 3 d = (if 0x80 \<le> byte d \<and> byte d \<le> 0xBF then 2 else 1)"
  by (cases rule: utf8_class_cases [of "byte d"]) (auto simp: utf8_decode_def utf8_rows_def)

lemma decode_4: "utf8_decode 4 d = (if 0xA0 \<le> byte d \<and> byte d \<le> 0xBF then 2 else 1)"
  by (cases rule: utf8_class_cases [of "byte d"]) (auto simp: utf8_decode_def utf8_rows_def)

lemma decode_5: "utf8_decode 5 d = (if 0x80 \<le> byte d \<and> byte d \<le> 0x9F then 2 else 1)"
  by (cases rule: utf8_class_cases [of "byte d"]) (auto simp: utf8_decode_def utf8_rows_def)

lemma decode_6: "utf8_decode 6 d = (if 0x90 \<le> byte d \<and> byte d \<le> 0xBF then 3 else 1)"
  by (cases rule: utf8_class_cases [of "byte d"]) (auto simp: utf8_decode_def utf8_rows_def)

lemma decode_7: "utf8_decode 7 d = (if 0x80 \<le> byte d \<and> byte d \<le> 0xBF then 3 else 1)"
  by (cases rule: utf8_class_cases [of "byte d"]) (auto simp: utf8_decode_def utf8_rows_def)

lemma decode_8: "utf8_decode 8 d = (if 0x80 \<le> byte d \<and> byte d \<le> 0x8F then 3 else 1)"
  by (cases rule: utf8_class_cases [of "byte d"]) (auto simp: utf8_decode_def utf8_rows_def)

lemmas decode_tail = decode_2 decode_3 decode_4 decode_5 decode_6 decode_7 decode_8

text \<open>The bytes that complete a code point. The code point they give is too large to be escaped.\<close>

lemma mod_tail: "\<lbrakk>128 \<le> x; x < 192\<rbrakk> \<Longrightarrow> x mod 64 = x - (128 :: int)"
  by presburger

lemma dump_tail_2:
  assumes "dump_escaped_loop 2 cp s = Inr t" and "2 \<le> cp"
  obtains d s' t' cp' where "s = d # s'" "t = d # t'" "0x80 \<le> byte d" "byte d \<le> 0xBF" "dump_escaped_loop 0 cp' s' = Inr t'"
proof (cases s)
  case (Cons d s')
  have "128 \<le> byte d mod 64 + cp * 64" using assms(2) pos_mod_sign [of 64 "byte d"] by linarith
  then show ?thesis
    using that [of d s'] assms(1) Cons by (auto simp: Let_def decode_2 decode_codep_def escape_codepoint_def mapR_def bindR_eq_Inr split: if_splits)
qed (use assms in simp)

lemma dump_tail_3:
  assumes "dump_escaped_loop st cp s = Inr t" and "st \<in> {3, 4, 5}" and "st \<noteq> 4 \<Longrightarrow> 1 \<le> cp" and "0 \<le> cp"
  obtains d s' t' cp' where "s = d # s'" "t = d # t'" "utf8_decode st d = 2" "2 \<le> cp'" "dump_escaped_loop 2 cp' s' = Inr t'"
proof (cases s)
  case (Cons d s')
  have "2 \<le> byte d mod 64 + cp * 64" if "utf8_decode st d = 2"
  proof (cases "1 \<le> cp")
    case False
    then have "st = 4" "cp = 0" using assms by auto
    then show ?thesis using that mod_tail [of "byte d"] by (auto simp: decode_4 split: if_splits)
  qed (use pos_mod_sign [of 64 "byte d"] in linarith)
  moreover have "utf8_decode st d = 2" using assms(1,2) Cons by (auto simp: Let_def decode_tail split: if_splits)
  ultimately show ?thesis
    using that [of d s'] assms(1,2) Cons by (auto simp: Let_def decode_codep_def mapR_def bindR_eq_Inr)
qed (use assms in auto)


lemma dump_tail_4:
  assumes "dump_escaped_loop st cp s = Inr t" and "st \<in> {6, 7, 8}" and "st \<noteq> 6 \<Longrightarrow> 1 \<le> cp" and "0 \<le> cp"
  obtains d s' t' cp' where "s = d # s'" "t = d # t'" "utf8_decode st d = 3" "1 \<le> cp'" "dump_escaped_loop 3 cp' s' = Inr t'"
proof (cases s)
  case (Cons d s')
  have "1 \<le> byte d mod 64 + cp * 64" if "utf8_decode st d = 3"
  proof (cases "1 \<le> cp")
    case False
    then have "st = 6" "cp = 0" using assms by auto
    then show ?thesis using that mod_tail [of "byte d"] by (auto simp: decode_6 split: if_splits)
  qed (use pos_mod_sign [of 64 "byte d"] in linarith)
  moreover have "utf8_decode st d = 3" using assms(1,2) Cons by (auto simp: Let_def decode_tail split: if_splits)
  ultimately show ?thesis
    using that [of d s'] assms(1,2) Cons by (auto simp: Let_def decode_codep_def mapR_def bindR_eq_Inr)
qed (use assms in auto)

text \<open>The first byte of a longer sequence.\<close>

lemma decode_bad: "128 \<le> byte c \<and> byte c < 194 \<or> 244 < byte c \<Longrightarrow> utf8_decode 0 c = 1"
  by (simp add: utf8_table) linarith

lemma decode_lead:
  assumes "0x80 \<le> byte c" and "utf8_decode 0 c \<noteq> 1"
  obtains "utf8_decode 0 c = 2" "2 \<le> decode_codep 0 cp c" "utf8_ranges c = Some [(0x80, 0xBF)]"
  | "utf8_decode 0 c = 4" "0 \<le> decode_codep 0 cp c" "utf8_ranges c = Some [(0xA0, 0xBF), (0x80, 0xBF)]"
  | "utf8_decode 0 c = 5" "1 \<le> decode_codep 0 cp c" "utf8_ranges c = Some [(0x80, 0x9F), (0x80, 0xBF)]"
  | "utf8_decode 0 c = 3" "1 \<le> decode_codep 0 cp c" "utf8_ranges c = Some [(0x80, 0xBF), (0x80, 0xBF)]"
  | "utf8_decode 0 c = 6" "0 \<le> decode_codep 0 cp c" "utf8_ranges c = Some [(0x90, 0xBF), (0x80, 0xBF), (0x80, 0xBF)]"
  | "utf8_decode 0 c = 7" "1 \<le> decode_codep 0 cp c" "utf8_ranges c = Some [(0x80, 0xBF), (0x80, 0xBF), (0x80, 0xBF)]"
  | "utf8_decode 0 c = 8" "1 \<le> decode_codep 0 cp c" "utf8_ranges c = Some [(0x80, 0x8F), (0x80, 0xBF), (0x80, 0xBF)]"
proof -
  have m: "2 \<le> x mod 64" if "194 \<le> x" "x < 224" for x :: int using that by presburger
  have m': "1 \<le> x mod 32" if "225 \<le> x" "x < 240" for x :: int using that by presburger
  have m'': "1 \<le> x mod 4" if "241 \<le> x" "x < 244" for x :: int using that by presburger
  let ?b = "byte c"
  have "\<not> (128 \<le> ?b \<and> ?b < 194 \<or> 244 < ?b)" using assms(2) decode_bad by blast
  then consider "194 \<le> ?b" "?b < 224" | "?b = 224" | "?b = 237" | "225 \<le> ?b" "?b < 240" "?b \<noteq> 237" | "?b = 240"
    | "241 \<le> ?b" "?b < 244" | "?b = 244" using assms(1) by linarith
  then show ?thesis
  proof cases
    case 1
    then show ?thesis using that(1) m by (simp add: utf8_table decode_codep_def utf8_ranges_def)
  next
    case 2
    then show ?thesis using that(2) by (simp add: utf8_table decode_codep_def utf8_ranges_def)
  next
    case 3
    then show ?thesis using that(3) by (simp add: utf8_table decode_codep_def utf8_ranges_def)
  next
    case 4
    then show ?thesis using that(4) m' by (simp add: utf8_table decode_codep_def utf8_ranges_def)
  next
    case 5
    then show ?thesis using that(5) by (simp add: utf8_table decode_codep_def utf8_ranges_def)
  next
    case 6
    then show ?thesis using that(6) m'' by (simp add: utf8_table decode_codep_def utf8_ranges_def)
  next
    case 7
    then show ?thesis using that(7) by (simp add: utf8_table decode_codep_def utf8_ranges_def)
  qed
qed


text \<open>Serializer and lexer agree on the bytes that complete a sequence.\<close>

definition completes :: "(int \<times> int) list \<Rightarrow> int \<Rightarrow> int \<Rightarrow> bool" where
  "completes rs st cp \<longleftrightarrow> (\<forall>s t. dump_escaped_loop st cp s = Inr t \<longrightarrow>
     (\<exists>bs s' t' cp'. s = bs @ s' \<and> t = bs @ t' \<and> (\<forall>rest. next_byte_in_range rs (bs @ rest) = Some (bs, rest))
        \<and> dump_escaped_loop 0 cp' s' = Inr t'))"

lemma completes_step:
  assumes "\<And>s t. dump_escaped_loop st cp s = Inr t \<Longrightarrow> \<exists>d s' t' cp'. s = d # s' \<and> t = d # t' \<and> lo \<le> byte d \<and> byte d \<le> hi
      \<and> completes rs st' cp' \<and> dump_escaped_loop st' cp' s' = Inr t'"
  shows "completes ((lo, hi) # rs) st cp"
  unfolding completes_def
proof (intro allI impI)
  fix s t
  assume "dump_escaped_loop st cp s = Inr t"
  from assms [OF this] obtain d s' t' cp' where d: "s = d # s'" "t = d # t'" "lo \<le> byte d" "byte d \<le> hi"
    "completes rs st' cp'" "dump_escaped_loop st' cp' s' = Inr t'" by blast
  from d(5,6) obtain bs s2 t2 cp2 where "s' = bs @ s2" "t' = bs @ t2"
    "\<forall>rest. next_byte_in_range rs (bs @ rest) = Some (bs, rest)" "dump_escaped_loop 0 cp2 s2 = Inr t2"
    unfolding completes_def by blast
  then show "\<exists>bs s' t' cp'. s = bs @ s' \<and> t = bs @ t' \<and> (\<forall>rest. next_byte_in_range ((lo, hi) # rs) (bs @ rest) = Some (bs, rest))
      \<and> dump_escaped_loop 0 cp' s' = Inr t'"
    using d by (intro exI [of _ "d # bs"] exI [of _ s2] exI [of _ t2] exI [of _ cp2]) simp
qed

lemma completes_0: "completes [] 0 cp"
  unfolding completes_def by (metis append_Nil next_byte_in_range.simps(1))

lemma completes_2: "2 \<le> cp \<Longrightarrow> completes [(0x80, 0xBF)] 2 cp"
  by (rule completes_step [where st' = 0]) (metis dump_tail_2 completes_0)

lemma completes_3:
  assumes "st \<in> {3, 4, 5}" and "st \<noteq> 4 \<Longrightarrow> 1 \<le> cp" and "0 \<le> cp" and "\<And>d. utf8_decode st d = 2 \<Longrightarrow> lo \<le> byte d \<and> byte d \<le> hi"
  shows "completes [(lo, hi), (0x80, 0xBF)] st cp"
  by (rule completes_step [where st' = 2]) (metis dump_tail_3 [OF _ assms(1-3)] assms(4) completes_2)

lemma completes_4:
  assumes "st \<in> {6, 7, 8}" and "st \<noteq> 6 \<Longrightarrow> 1 \<le> cp" and "0 \<le> cp" and "\<And>d. utf8_decode st d = 3 \<Longrightarrow> lo \<le> byte d \<and> byte d \<le> hi"
  shows "completes [(lo, hi), (0x80, 0xBF), (0x80, 0xBF)] st cp"
proof (rule completes_step [where st' = 3])
  have "completes [(0x80, 0xBF), (0x80, 0xBF)] 3 cp'" if "1 \<le> cp'" for cp'
    using that by (intro completes_3) (auto simp: decode_3 split: if_splits)
  then show "\<exists>d s' t' cp'. s = d # s' \<and> t = d # t' \<and> lo \<le> byte d \<and> byte d \<le> hi
      \<and> completes [(0x80, 0xBF), (0x80, 0xBF)] 3 cp' \<and> dump_escaped_loop 3 cp' s' = Inr t'"
    if "dump_escaped_loop st cp s = Inr t" for s t
    using dump_tail_4 [OF that assms(1-3)] assms(4) by metis
qed

lemma dump_sequence:
  assumes run: "dump_escaped_loop 0 cp (c # s) = Inr t" and c: "0x80 \<le> byte c"
  obtains rs bs s' t' cp' where "utf8_ranges c = Some rs" "s = bs @ s'" "t = c # bs @ t'"
    "\<And>rest. next_byte_in_range rs (bs @ rest) = Some (bs, rest)" "dump_escaped_loop 0 cp' s' = Inr t'"
proof -
  let ?st = "utf8_decode 0 c" and ?cp = "decode_codep 0 cp c"
  have "?st \<noteq> 1" using run by (auto simp: Let_def split: if_splits)
  then have lead: "?st \<noteq> 0 \<and> (\<exists>rs. utf8_ranges c = Some rs \<and> completes rs ?st ?cp)"
    by (cases rule: decode_lead [OF c, of cp]; simp)
      (rule completes_2 completes_3 completes_4; simp add: decode_tail split: if_splits; fail)+
  then obtain rs t1 where t1: "utf8_ranges c = Some rs" "completes rs ?st ?cp" "t = c # t1" "dump_escaped_loop ?st ?cp s = Inr t1"
    using run by (auto simp: Let_def mapR_def bindR_eq_Inr split: if_splits)
  then obtain bs s' t' cp' where "s = bs @ s'" "t1 = bs @ t'" "\<forall>rest. next_byte_in_range rs (bs @ rest) = Some (bs, rest)"
    "dump_escaped_loop 0 cp' s' = Inr t'" unfolding completes_def by blast
  then show thesis using that [OF t1(1)] t1(3) by simp
qed


lemma char_of_byte: "byte c = n \<Longrightarrow> c = to_char n"
  by (metis char_of_char to_char_def)

lemma byte_char: "\<lbrakk>0 \<le> n; n < 256\<rbrakk> \<Longrightarrow> byte (to_char n) = n"
  by (simp add: to_char_def of_char_of)

lemma hex_digit_char: "\<lbrakk>0 \<le> d; d < 16\<rbrakk> \<Longrightarrow> hex_digit (hex_char d) = Some d"
  by (simp add: hex_digit_def hex_char_def byte_char Let_def)

lemma scan_unicode_escape:
  assumes "0 \<le> cp" and "cp \<le> 0x1F"
  shows "scan_unicode (map hex_char [cp div 4096 mod 16, cp div 256 mod 16, cp div 16 mod 16, cp mod 16] @ rest) = Some (cp, rest)"
proof -
  have "cp div 4096 = 0" "cp div 256 = 0" "cp div 16 < 16" "0 \<le> cp div 16" using assms by auto
  moreover have "push_bit 4 (cp div 16) + cp mod 16 = cp" by (simp add: push_bit_eq_mult)
  ultimately show ?thesis
    using assms by (simp add: scan_unicode_def get_codepoint_def hex_digit_char numeral_2_eq_2)
qed

text \<open>The characters that are escaped one by one.\<close>

lemma scan_escape:
  assumes "byte c < 0x80"
  shows "scan_string buf (escape_codepoint (byte c) c @ rest) = scan_string (buf @ [c]) rest"
proof -
  let ?b = "byte c"
  have b: "0 \<le> ?b" using of_char_range by simp
  consider (simple) "?b \<in> {0x08, 0x09, 0x0A, 0x0C, 0x0D, 0x22, 0x5C}" | (ctrl) "?b \<notin> {0x08, 0x09, 0x0A, 0x0C, 0x0D, 0x22, 0x5C}" "?b \<le> 0x1F"
    | (plain) "?b \<noteq> 0x22" "?b \<noteq> 0x5C" "0x20 \<le> ?b" by fastforce
  then show ?thesis
  proof cases
    case simple
    then show ?thesis
      by (auto dest!: char_of_byte simp: escape_codepoint_def scan_string.simps simple_escape_def to_char_def) (simp_all add: char_of_def)
  next
    case ctrl
    moreover have "codepoint_bytes ?b = [c]" using assms char_of_byte [of c] by (simp add: codepoint_bytes_def)
    ultimately show ?thesis
      using scan_unicode_escape [of ?b rest] b by (simp add: escape_codepoint_def unicode_escape_def scan_string.simps)
  next
    case plain
    then have "c \<noteq> CHR 0x22" "c \<noteq> CHR 0x5C" by auto
    then show ?thesis
      using plain assms by (simp add: escape_codepoint_def scan_string.simps(2) utf8_ranges_def Let_def)
  qed
qed

text \<open>A string that was written between quotes is read back.\<close>

lemma scan_escaped_loop:
  "dump_escaped_loop 0 cp s = Inr t \<Longrightarrow> scan_string buf (t @ CHR 0x22 # rest) = Some (buf @ s, rest)"
proof (induction "length s" arbitrary: cp s t buf rule: less_induct)
  case less
  show ?case
  proof (cases s)
    case Nil
    then show ?thesis using less.prems by (simp add: scan_string.simps)
  next
    case (Cons c s')
    show ?thesis
    proof (cases "byte c < 0x80")
      case True
      then have "utf8_decode 0 c = 0" "decode_codep 0 cp c = byte c"
        using of_char_range [of c] utf8_decode_ascii by (simp_all add: decode_codep_def utf8_class_def)
      then obtain t' where "t = escape_codepoint (byte c) c @ t'" "dump_escaped_loop 0 (byte c) s' = Inr t'"
        using less.prems Cons by (auto simp: Let_def mapR_def bindR_eq_Inr)
      then show ?thesis using less.hyps [of s' "byte c" t' "buf @ [c]"] scan_escape [OF True] Cons by simp
    next
      case False
      then obtain rs bs s2 t2 cp2 where d: "utf8_ranges c = Some rs" "s' = bs @ s2" "t = c # bs @ t2"
        "\<And>rest. next_byte_in_range rs (bs @ rest) = Some (bs, rest)" "dump_escaped_loop 0 cp2 s2 = Inr t2"
        using dump_sequence [of cp c s' t] less.prems Cons by (metis linorder_not_less)
      have "c \<noteq> CHR 0x22" "c \<noteq> CHR 0x5C" "\<not> byte c < 0x20" using False by auto
      then have "scan_string buf (t @ CHR 0x22 # rest) = scan_string (buf @ c # bs) (t2 @ CHR 0x22 # rest)"
        using d by (simp add: scan_string.simps(2))
      then show ?thesis using less.hyps [OF _ d(5), of "buf @ c # bs"] Cons d(2) by simp
    qed
  qed
qed

lemma scan_written_string:
  assumes "dump_escaped s = Inr t"
  shows "scan (CHR 0x22 # t @ CHR 0x22 # rest) = (Value_string s, rest)"
  using scan_escaped_loop [OF assms [unfolded dump_escaped_def], of "[]" rest]
  by (simp add: scan_def scan_at_def json_space_def)


section \<open>Numbers are read back\<close>

text \<open>What may follow a number so that the lexer stops there.\<close>

definition number_end :: "string \<Rightarrow> bool" where
  "number_end rest \<longleftrightarrow> rest = [] \<or> \<not> isdigit (hd rest) \<and> hd rest \<notin> {CHR ''.'', CHR ''e'', CHR ''E''}"

lemma scan_number_at_append:
  assumes "scan_number_at st ty buf cs = Some (ty', buf', [])" and "number_end rest"
  shows "scan_number_at st ty buf (cs @ rest) = Some (ty', buf', rest)"
  using assms
proof (induction st ty buf cs rule: scan_number_at.induct)
qed (cases rest; auto simp: number_end_def split: if_splits)+

lemma dec_value_snoc: "dec_value (ds @ [c]) = 10 * dec_value ds + (byte c - 48)"
  by (simp add: dec_value_def)

lemma byte_digit: "\<lbrakk>0 \<le> d; d < 10\<rbrakk> \<Longrightarrow> byte (digit_char d) = 48 + d \<and> isdigit (digit_char d)"
  by (simp add: digit_char_def byte_char isdigit_def schar_to_char)

lemma dump_digits_value:
  "0 < n \<Longrightarrow> \<exists>c ds. dump_digits n = c # ds \<and> digit19 c \<and> list_all isdigit ds \<and> dec_value (c # ds) = n"
proof (induction n rule: dump_digits.induct)
  case (1 n)
  have nz: "digit_char d \<noteq> CHR ''0''" if "0 < d" "d < 10" for d using byte_digit [of d] that by auto
  consider "n < 10" | "10 \<le> n" "n < 100" | "100 \<le> n" by linarith
  then show ?case
  proof cases
    case 1
    then show ?thesis
      using \<open>0 < n\<close> byte_digit [of n] nz by (simp add: dump_digits.simps [of n] digit19_def dec_value_def)
  next
    case 2
    then show ?thesis
      using byte_digit [of "n div 10"] byte_digit [of "n mod 10"] nz [of "n div 10"]
      by (simp add: dump_digits.simps [of n] digit19_def dec_value_def)
  next
    case 3
    then have "0 < n div 100" by linarith
    then obtain c ds where ih: "dump_digits (n div 100) = c # ds" "digit19 c" "list_all isdigit ds" "dec_value (c # ds) = n div 100"
      using "1.IH" 3 by auto
    let ?a = "n mod 100 div 10" and ?b = "n mod 100 mod 10"
    have ab: "0 \<le> ?a" "?a < 10" "0 \<le> ?b" "?b < 10" by auto
    have "dec_value (c # ds @ [digit_char ?a, digit_char ?b]) = 10 * (10 * (n div 100) + ?a) + ?b"
      using dec_value_snoc [of "c # ds @ [digit_char ?a]" "digit_char ?b"] dec_value_snoc [of "c # ds" "digit_char ?a"]
        byte_digit [OF ab(1,2)] byte_digit [OF ab(3,4)] ih(4) by simp
    also have "\<dots> = n" by presburger
    finally show ?thesis
      using 3 ih byte_digit [OF ab(1,2)] byte_digit [OF ab(3,4)] by (simp add: dump_digits.simps [of n])
  qed
qed

lemma scan_digits:
  assumes "list_all isdigit ds" and "number_end rest"
  shows "scan_number_at Any1 ty buf (ds @ rest) = Some (ty, buf @ ds, rest)"
  using assms(1)
proof (induction ds arbitrary: buf)
  case Nil
  then show ?case using assms(2) by (cases rest) (auto simp: number_end_def)
qed simp

definition int64_ok :: "int \<Rightarrow> bool" where
  "int64_ok i \<longleftrightarrow> - 9223372036854775808 \<le> i \<and> i \<le> 18446744073709551615"

text \<open>The characters that the lexer looks for before it takes a digit.\<close>

lemma not_digits:
  "list_all (\<lambda>c. \<not> isdigit c) [CHR '' '', CHR 0x09, CHR 0x0A, CHR 0x0D, CHR ''['', CHR '']'', CHR ''{'', CHR ''}'', CHR '':'', CHR '','',
     CHR ''t'', CHR ''f'', CHR ''n'', CHR 0x22, CHR ''-'', CHR ''+'', CHR ''.'', CHR ''e'', CHR ''E'']"
  by code_simp

lemma digit_neq: "isdigit c \<Longrightarrow> c \<noteq> CHR '' '' \<and> c \<noteq> CHR 0x09 \<and> c \<noteq> CHR 0x0A \<and> c \<noteq> CHR 0x0D \<and> c \<noteq> CHR ''['' \<and> c \<noteq> CHR '']''
   \<and> c \<noteq> CHR ''{'' \<and> c \<noteq> CHR ''}'' \<and> c \<noteq> CHR '':'' \<and> c \<noteq> CHR '','' \<and> c \<noteq> CHR ''t'' \<and> c \<noteq> CHR ''f'' \<and> c \<noteq> CHR ''n''
   \<and> c \<noteq> CHR 0x22 \<and> c \<noteq> CHR ''-'' \<and> c \<noteq> CHR ''+'' \<and> c \<noteq> CHR ''.'' \<and> c \<noteq> CHR ''e'' \<and> c \<noteq> CHR ''E''"
  using not_digits by (simp only: list.pred_inject) metis

lemma digit_no_space: "c = CHR ''-'' \<or> isdigit c \<Longrightarrow> scan (c # cs) = scan_number c cs"
proof (elim disjE)
  assume "isdigit c"
  with digit_neq [OF this] show ?thesis by (simp add: scan_def scan_at_def json_space_def)
qed (simp add: scan_def scan_at_def json_space_def)

lemma scan_written_int:
  assumes "int64_ok i" and "number_end rest"
  shows "scan (dump_integer i @ rest) = ((if i < 0 then Value_integer i else Value_unsigned i), rest)"
proof -
  consider "i = 0" | "0 < i" | "i < 0" by linarith
  then show ?thesis
  proof cases
    case 1
    have "scan (CHR ''0'' # rest) = scan_number (CHR ''0'') rest" by (rule digit_no_space) (simp add: isdigit_def schar_def)
    then show ?thesis using 1 scan_number_at_append [of Zero Num_unsigned "''0''" "[]" _ _ rest] assms(2)
      by (simp add: dump_integer_def scan_number_def dec_value_def)
  next
    case 2
    then obtain c ds where d: "dump_digits i = c # ds" "digit19 c" "list_all isdigit ds" "dec_value (c # ds) = i"
      using dump_digits_value by blast
    then have "scan (c # ds @ rest) = scan_number c (ds @ rest)" "c \<noteq> CHR ''-''" "c \<noteq> CHR ''0''"
      using digit_no_space digit_neq [of c] by (simp_all add: digit19_def)
    then show ?thesis using 2 d assms scan_digits [OF d(3) assms(2)]
      by (simp add: dump_integer_def scan_number_def int64_ok_def)
  next
    case 3
    then obtain c ds where d: "dump_digits (- i) = c # ds" "digit19 c" "list_all isdigit ds" "dec_value (c # ds) = - i"
      using dump_digits_value [of "- i"] by auto
    have "scan (CHR ''-'' # c # ds @ rest) = scan_number (CHR ''-'') (c # ds @ rest)" by (rule digit_no_space) simp
    moreover have "c \<noteq> CHR ''0''" using d(2) by (simp add: digit19_def)
    ultimately show ?thesis using 3 d assms scan_digits [OF d(3) assms(2)]
      by (simp add: dump_integer_def scan_number_def int64_ok_def)
  qed
qed

text \<open>What the text of a double has to be: a number of the grammar that \<^verbatim>\<open>strtod\<close> reads as this double.\<close>

definition float_text :: "string \<Rightarrow> dbl \<Rightarrow> bool" where
  "float_text t d \<longleftrightarrow> t \<noteq> [] \<and> (hd t = CHR ''-'' \<or> isdigit (hd t)) \<and> scan_number (hd t) (tl t) = (Value_float d, [])"

lemma scan_float_text:
  assumes "float_text t d" and "number_end rest"
  shows "scan (t @ rest) = (Value_float d, rest)"
proof -
  obtain c cs where t: "t = c # cs" "c = CHR ''-'' \<or> isdigit c" "scan_number c cs = (Value_float d, [])"
    using assms(1) by (cases t) (auto simp: float_text_def)
  let ?st = "if c = CHR ''-'' then Minus else if c = CHR ''0'' then Zero else Any1"
  obtain ty buf where "scan_number_at ?st Num_unsigned [c] cs = Some (ty, buf, [])" "number_token ty buf = Value_float d"
    using t(3) unfolding scan_number_def Let_def by (cases "scan_number_at ?st Num_unsigned [c] cs") auto
  then have "scan_number c (cs @ rest) = (Value_float d, rest)"
    using scan_number_at_append [OF _ assms(2)] unfolding scan_number_def Let_def by fastforce
  then show ?thesis using t digit_no_space by simp
qed

end
