(* ===== verification/Grisu_Digits.thy ===== *)
theory Grisu_Digits
  imports Grisu_Scale Json_Tokens
begin

text \<open>
  The digit loops of Grisu2 (\<^verbatim>\<open>grisu2_digit_gen\<close> and \<^verbatim>\<open>grisu2_round\<close> in \<^verbatim>\<open>include/nlohmann/json.hpp\<close>): no assertion
  fails, at most 17 digits are written, the first one is not zero, and the number they denote lies between the scaled
  boundaries.
\<close>

section \<open>Digits\<close>

definition digit_value :: "char \<Rightarrow> int" where
  "digit_value c = schar c - 48"

lemma digit_byte_value: "isdigit c \<Longrightarrow> byte c - 48 = digit_value c"
  using of_char_range [of c] by (auto simp: digit_value_def isdigit_def schar_def Let_def split: if_splits)

lemma digit_value_range: "isdigit c \<Longrightarrow> 0 \<le> digit_value c \<and> digit_value c \<le> 9"
  by (simp add: digit_value_def isdigit_def)

lemma digit_value_zero: "digit_value c = 0 \<longleftrightarrow> c = CHR ''0''"
  using schar_eq_iff [of c "CHR ''0''"] by (simp add: digit_value_def schar_def)

lemma to_char_digit: "\<lbrakk>0 \<le> d; d \<le> 9\<rbrakk> \<Longrightarrow> isdigit (to_char (48 + d)) \<and> digit_value (to_char (48 + d)) = d"
  by (simp add: digit_value_def isdigit_def schar_to_char)

lemma schar_pred: "schar c - 1 = 48 + (digit_value c - 1)"
  by (simp add: digit_value_def)

lemma dec_value_digits_snoc: "isdigit c \<Longrightarrow> dec_value (ds @ [c]) = 10 * dec_value ds + digit_value c"
  by (simp add: dec_value_snoc digit_byte_value)

lemma dec_value_append: "dec_value (xs @ ys) = dec_value xs * 10 ^ length ys + dec_value ys"
proof (induction ys rule: rev_induct)
  case (snoc y ys)
  have "dec_value (xs @ ys @ [y]) = 10 * dec_value (xs @ ys) + (byte y - 48)" using dec_value_snoc [of "xs @ ys" y] by simp
  then show ?case using snoc.IH by (simp add: dec_value_snoc algebra_simps)
qed (simp add: dec_value_def)

lemma dec_value_nonneg: "list_all isdigit ds \<Longrightarrow> 0 \<le> dec_value ds"
proof (induction ds rule: rev_induct)
  case (snoc c ds)
  then show ?case using dec_value_digits_snoc [of c ds] digit_value_range [of c] by simp
qed (simp add: dec_value_def)

lemma dec_value_lower:
  assumes "list_all isdigit ds" and "ds \<noteq> []" and "hd ds \<noteq> CHR ''0''"
  shows "10 ^ (length ds - 1) \<le> dec_value ds"
proof -
  obtain c cs where ds: "ds = [c] @ cs" using assms(2) by (cases ds) simp_all
  have "1 \<le> digit_value c" using assms ds digit_value_range [of c] digit_value_zero [of c] by simp
  then have "1 * 10 ^ length cs \<le> digit_value c * 10 ^ length cs" by (intro mult_right_mono) simp_all
  moreover have "dec_value [c] = digit_value c" using dec_value_digits_snoc [of c "[]"] assms ds by (simp add: dec_value_def)
  moreover have "0 \<le> dec_value cs" using assms(1) ds by (intro dec_value_nonneg) simp
  ultimately have "10 ^ length cs \<le> dec_value [c] * 10 ^ length cs + dec_value cs" by (simp only:)
  then show ?thesis using dec_value_append [of "[c]" cs] ds by simp
qed

section \<open>Rounding the last digit\<close>

lemma round_loop_ok:
  assumes "0 < T" and "buf \<noteq> []" and "list_all isdigit buf" and "rest \<le> delta" and "delta < digit_value (last buf) * T + rest"
  shows "\<exists>buf' rest'. round_loop buf dst delta rest T = Inr buf' \<and> length buf' = length buf \<and> butlast buf' = butlast buf \<and>
    list_all isdigit buf' \<and> rest \<le> rest' \<and> rest' \<le> delta \<and> dec_value buf' * T + rest' = dec_value buf * T + rest"
  using assms
proof (induction buf dst delta rest T rule: round_loop.induct)
  case (1 buf dst delta rest T)
  let ?c = "last buf" and ?go = "0 < T \<and> rest < dst \<and> T \<le> delta - rest \<and> (rest + T < dst \<or> rest + T - dst < dst - rest)"
  show ?case
  proof (cases ?go)
    case True
    let ?buf = "butlast buf @ [to_char (schar ?c - 1)]"
    have buf: "buf = butlast buf @ [?c]" using "1.prems"(2) by simp
    have dig: "isdigit ?c" "list_all isdigit (butlast buf)" using "1.prems"(2,3) by (auto simp: list_all_iff dest: in_set_butlastD)
    have nz: "?c \<noteq> CHR ''0''" using "1.prems"(4,5) digit_value_zero [of ?c] by auto
    then have "1 \<le> digit_value ?c" using digit_value_range [OF dig(1)] digit_value_zero [of ?c] by simp
    then have new: "isdigit (to_char (schar ?c - 1))" "digit_value (to_char (schar ?c - 1)) = digit_value ?c - 1"
      using to_char_digit [of "digit_value ?c - 1"] digit_value_range [OF dig(1)] by (simp_all add: schar_pred)
    have val: "dec_value ?buf = dec_value buf - 1"
      using dec_value_digits_snoc [OF new(1)] dec_value_digits_snoc [OF dig(1), of "butlast buf"] new(2) buf by simp
    have step: "digit_value (last ?buf) * T + (rest + T) = digit_value ?c * T + rest" using new(2) by (simp add: left_diff_distrib)
    have "\<exists>buf' rest'. round_loop ?buf dst delta (rest + T) T = Inr buf' \<and> length buf' = length ?buf \<and> butlast buf' = butlast ?buf \<and>
        list_all isdigit buf' \<and> rest + T \<le> rest' \<and> rest' \<le> delta \<and> dec_value buf' * T + rest' = dec_value ?buf * T + (rest + T)"
    proof (rule "1.IH" [OF True "1.prems"(1)])
      show "delta < digit_value (last ?buf) * T + (rest + T)" unfolding step by (rule "1.prems"(5))
    qed (use new dig True in simp_all)
    then obtain buf' rest' where r: "round_loop ?buf dst delta (rest + T) T = Inr buf'" "length buf' = length ?buf" "butlast buf' = butlast ?buf"
      "list_all isdigit buf'" "rest + T \<le> rest'" "rest' \<le> delta" "dec_value buf' * T + rest' = dec_value ?buf * T + (rest + T)" by blast
    have "round_loop buf dst delta rest T = Inr buf'"
      using True nz r(1) by (subst round_loop.simps) (simp add: assertion_def)
    moreover have "dec_value buf' * T + rest' = dec_value buf * T + rest" using r(7) val by (simp add: left_diff_distrib)
    moreover have "length buf' = length buf" "butlast buf' = butlast buf" using r(2,3) "1.prems"(2) by simp_all
    moreover have "rest \<le> rest'" using r(5) "1.prems"(1) by simp
    ultimately show ?thesis using r(4,6) by blast
  next
    case False
    then have "round_loop buf dst delta rest T = Inr buf" by (subst round_loop.simps) auto
    then show ?thesis using "1.prems" by auto
  qed
qed

text \<open>
  The last digit: the remainder \<open>d * T + R\<close> before it is larger than the distance \<open>delta\<close> of the boundaries, so the digit
  is never decremented below zero.
\<close>

lemma last_digit:
  assumes T: "0 < T" and d: "0 \<le> d" "d \<le> 9" and R: "0 \<le> R" "R \<le> delta" "delta < d * T + R" and dst: "dst \<le> delta"
    and buf: "list_all isdigit buf" "buf \<noteq> [] \<Longrightarrow> hd buf \<noteq> CHR ''0''" and N: "N = dec_value buf * (10 * T) + (d * T + R)"
  shows "\<exists>buf' R'. grisu2_round (buf @ [to_char (48 + d)]) dst delta R T = Inr buf' \<and> length buf' = Suc (length buf) \<and>
    list_all isdigit buf' \<and> hd buf' \<noteq> CHR ''0'' \<and> N = dec_value buf' * T + R' \<and> 0 \<le> R' \<and> R' \<le> delta"
proof -
  let ?c = "to_char (48 + d)"
  have c: "isdigit ?c" "digit_value ?c = d" using to_char_digit [OF d] by simp_all
  have "delta < digit_value (last (buf @ [?c])) * T + R" using R(3) c(2) by simp
  then obtain buf' R' where r: "round_loop (buf @ [?c]) dst delta R T = Inr buf'" "length buf' = length (buf @ [?c])"
    "butlast buf' = butlast (buf @ [?c])" "list_all isdigit buf'" "R \<le> R'" "R' \<le> delta" "dec_value buf' * T + R' = dec_value (buf @ [?c]) * T + R"
    using round_loop_ok [OF T _ _ R(2), of "buf @ [?c]" dst] buf(1) c(1) by auto
  have N': "N = dec_value buf' * T + R'" using N r(7) dec_value_digits_snoc [OF c(1), of buf] c(2) by (simp add: algebra_simps)
  have "hd buf' \<noteq> CHR ''0''"
  proof (cases buf)
    case Nil
    then obtain x where x: "buf' = [x]" using r(2) by (cases buf') auto
    have "delta < N" using N R(3) Nil by (simp add: dec_value_def)
    then have "dec_value buf' * T \<noteq> 0" using N' r(6) by linarith
    then show ?thesis using x r(4) dec_value_digits_snoc [of x "[]"] digit_value_zero [of x] by (auto simp: dec_value_def)
  next
    case (Cons x xs)
    then have "hd buf' = x" using r(2,3) by (cases buf') (auto split: if_splits)
    then show ?thesis using buf(2) Cons by simp
  qed
  moreover have "grisu2_round (buf @ [?c]) dst delta R T = Inr buf'" using r(1) dst R(2) T by (simp add: grisu2_round_def assertion_def)
  moreover have "length buf' = Suc (length buf)" "0 \<le> R'" using r(2,5) R(1) by simp_all
  ultimately show ?thesis using r(4,6) N' by blast
qed

section \<open>The loops\<close>

definition decimal_in :: "nat \<Rightarrow> int \<Rightarrow> int \<Rightarrow> string \<Rightarrow> int \<Rightarrow> bool" where
  "decimal_in s lo hi buf dec \<longleftrightarrow> buf \<noteq> [] \<and> list_all isdigit buf \<and> hd buf \<noteq> CHR ''0'' \<and> length buf \<le> 17 \<and> - 17 \<le> dec \<and> dec \<le> 9 \<and>
     real_of_int lo * two (- int s) \<le> real_of_int (dec_value buf) * 10 powi dec \<and>
     real_of_int (dec_value buf) * 10 powi dec \<le> real_of_int hi * two (- int s)"

lemma digits_range:
  assumes N: "hi * 10 ^ j = B * (10 ^ n * 2 ^ s) + R" and R: "0 \<le> R" "R \<le> (hi - lo) * 10 ^ j"
  shows "real_of_int lo * two (- int s) \<le> real_of_int B * 10 powi (int n - int j)"
    and "real_of_int B * 10 powi (int n - int j) \<le> real_of_int hi * two (- int s)"
proof -
  have "lo * 10 ^ j \<le> B * (10 ^ n * 2 ^ s)" "B * (10 ^ n * 2 ^ s) \<le> hi * 10 ^ j" using N R by (simp_all add: left_diff_distrib)
  then have "real_of_int (lo * 10 ^ j) \<le> real_of_int (B * (10 ^ n * 2 ^ s))" "real_of_int (B * (10 ^ n * 2 ^ s)) \<le> real_of_int (hi * 10 ^ j)"
    by (simp_all only: of_int_le_iff)
  then show "real_of_int lo * two (- int s) \<le> real_of_int B * 10 powi (int n - int j)"
    "real_of_int B * 10 powi (int n - int j) \<le> real_of_int hi * two (- int s)"
    by (simp_all add: power_int_diff power_int_minus field_simps)
qed

lemma decimal_inI:
  assumes "hi * 10 ^ j = dec_value buf * (10 ^ n * 2 ^ s) + R" "0 \<le> R" "R \<le> (hi - lo) * 10 ^ j"
    and "buf \<noteq> []" "list_all isdigit buf" "hd buf \<noteq> CHR ''0''" "length buf \<le> 17" "j \<le> 17" "n \<le> 9" and "dec = int n - int j"
  shows "decimal_in s lo hi buf dec"
  using digits_range [OF assms(1-3)] assms(4-) by (simp add: decimal_in_def)

text \<open>Not more than 17 digits: as long as the remainder exceeds the distance, fewer than 17 have been written.\<close>

lemma digits_left:
  assumes buf: "list_all isdigit buf" "buf \<noteq> []" "hd buf \<noteq> CHR ''0''" and N: "N = dec_value buf * T + r" "0 \<le> r"
    and T: "delta < T" "0 \<le> delta" and hi: "N \<le> delta * 10 ^ 16"
  shows "length buf \<le> 16"
proof (rule ccontr)
  assume "\<not> length buf \<le> 16"
  then have "(10 :: int) ^ 16 \<le> 10 ^ (length buf - 1)" by (intro power_increasing) simp_all
  then have "10 ^ 16 \<le> dec_value buf" using dec_value_lower [OF buf] by linarith
  then have "10 ^ 16 * T \<le> dec_value buf * T" using T by (intro mult_right_mono) simp_all
  moreover have "10 ^ 16 * delta < 10 ^ 16 * T" using T(1) by simp
  ultimately show False using N hi by (simp only: mult.commute [of delta])
qed

lemma gen_fraction_ok:
  assumes s: "s \<le> 60" and hi: "hi \<le> (hi - lo) * 10 ^ 16" and dst: "0 \<le> dst" "dst \<le> hi - lo"
    and buf: "list_all isdigit buf" "buf \<noteq> []" "hd buf \<noteq> CHR ''0''" "m \<le> length buf"
    and N: "hi * 10 ^ m = dec_value buf * 2 ^ s + p2" and p2: "p2 < 2 ^ s" "(hi - lo) * 10 ^ m < p2"
  shows "\<exists>buf' dec. gen_fraction s p2 (int m) ((hi - lo) * 10 ^ m) (dst * 10 ^ m) buf = Inr (buf', dec) \<and> decimal_in s lo hi buf' dec"
  using buf N p2
proof (induction "17 - length buf" arbitrary: m p2 buf rule: less_induct)
  case less
  define D d r where D: "D = (hi - lo) * 10 ^ m" and d: "d = 10 * p2 div 2 ^ s" and r: "r = 10 * p2 mod 2 ^ s"
  let ?buf = "buf @ [to_char (48 + d)]"
  have D0: "0 \<le> D" "0 \<le> dst * 10 ^ m" "dst * 10 ^ m \<le> D" using dst by (simp_all add: D mult_right_mono)
  have p: "0 \<le> p2" "D < p2" using less.prems(7) D0 by (simp_all add: D)
  have "(2 :: int) ^ s \<le> 2 ^ 60" using s by (intro power_increasing) simp_all
  then have lim: "p2 < 1152921504606846976" using less.prems(6) by simp
  have eq: "10 * p2 = d * 2 ^ s + r" unfolding d r by (simp only: div_mult_mod_eq)
  have "0 \<le> r" "r < 2 ^ s" by (simp_all add: r)
  have "0 \<le> d" using p(1) by (simp add: d pos_imp_zdiv_nonneg_iff)
  have "d * 2 ^ s < 10 * 2 ^ s" using less.prems(6) eq \<open>0 \<le> r\<close> by linarith
  then have "d < 10" by simp
  have u: "u64 (10 * D) = 10 * D" "u64 (10 * (dst * 10 ^ m)) = 10 * (dst * 10 ^ m)" using D0 p(2) lim by (simp_all add: u64_id)
  have len: "length buf \<le> 16"
  proof (rule digits_left [OF less.prems(1-3) less.prems(5) p(1)])
    show "D < 2 ^ s" using p less.prems(6) by simp
    show "hi * 10 ^ m \<le> D * 10 ^ 16" using mult_right_mono [OF hi, of "10 ^ m"] by (simp add: D mult.commute mult.left_commute)
  qed (rule D0)
  have step: "gen_fraction s p2 (int m) D (dst * 10 ^ m) buf =
      (if r \<le> 10 * D then mapR (\<lambda>b. (b, - (int m + 1))) (grisu2_round ?buf (10 * (dst * 10 ^ m)) (10 * D) r (2 ^ s))
       else gen_fraction s r (int (Suc m)) (10 * D) (10 * (dst * 10 ^ m)) ?buf)"
    using lim \<open>d < 10\<close> by (subst gen_fraction.simps) (simp add: Let_def d [symmetric] r [symmetric] u add.commute)
  have N': "hi * 10 ^ Suc m = dec_value buf * (10 * 2 ^ s) + (d * 2 ^ s + r)" using less.prems(5) eq by simp
  show ?case
  proof (cases "r \<le> 10 * D")
    case True
    obtain buf' R' where b: "grisu2_round ?buf (10 * (dst * 10 ^ m)) (10 * D) r (2 ^ s) = Inr buf'" "length buf' = Suc (length buf)"
      "list_all isdigit buf'" "hd buf' \<noteq> CHR ''0''" "hi * 10 ^ Suc m = dec_value buf' * 2 ^ s + R'" "0 \<le> R'" "R' \<le> 10 * D"
      using last_digit [OF _ \<open>0 \<le> d\<close> _ \<open>0 \<le> r\<close> True _ _ less.prems(1,3) N', of "10 * (dst * 10 ^ m)"] \<open>d < 10\<close> p(2) eq D0 by auto
    have "decimal_in s lo hi buf' (- (int m + 1))"
      by (rule decimal_inI [where j = "Suc m" and n = 0 and R = R']) (use b len less.prems(2,4) in \<open>auto simp: D\<close>)
    then show ?thesis using step True b(1) by (simp add: D)
  next
    case False
    have c: "isdigit (to_char (48 + d))" "digit_value (to_char (48 + d)) = d" using to_char_digit \<open>0 \<le> d\<close> \<open>d < 10\<close> by simp_all
    have "\<exists>buf' dec. gen_fraction s r (int (Suc m)) ((hi - lo) * 10 ^ Suc m) (dst * 10 ^ Suc m) ?buf = Inr (buf', dec) \<and> decimal_in s lo hi buf' dec"
    proof (rule less.hyps)
      show "hi * 10 ^ Suc m = dec_value ?buf * 2 ^ s + r" using N' dec_value_digits_snoc [OF c(1)] c(2) by (simp add: algebra_simps)
      show "(hi - lo) * 10 ^ Suc m < r" using False by (simp add: D)
    qed (use less.prems c len \<open>r < 2 ^ s\<close> in auto)
    moreover have "10 * D = (hi - lo) * 10 ^ Suc m" "10 * (dst * 10 ^ m) = dst * 10 ^ Suc m" by (simp_all add: D)
    ultimately show ?thesis using step False by (simp only: D if_False)
  qed
qed

text \<open>The place value of the next digit and the remainder stay below the number.\<close>

lemma place_le:
  assumes buf: "list_all isdigit buf" "buf \<noteq> [] \<Longrightarrow> hd buf \<noteq> CHR ''0''" and d: "buf = [] \<Longrightarrow> 0 < d" "0 \<le> d" and T: "0 < T"
    and rest: "0 \<le> rest" and N: "N = dec_value buf * (10 * T) + (d * T + rest)"
  shows "T \<le> N" and "rest \<le> N"
proof -
  have dT: "0 \<le> d * T" using d T by simp
  have B: "0 \<le> dec_value buf * (10 * T)" using dec_value_nonneg [OF buf(1)] T by simp
  then show "rest \<le> N" using N dT by linarith
  show "T \<le> N"
  proof (cases "buf = []")
    case True
    then have "1 * T \<le> d * T" using d T by (intro mult_right_mono) simp_all
    then show ?thesis using N B rest by linarith
  next
    case False
    have "(1 :: int) \<le> 10 ^ (length buf - 1)" by simp
    then have "1 \<le> dec_value buf" using dec_value_lower [OF buf(1) False buf(2) [OF False]] by linarith
    then have "1 * (10 * T) \<le> dec_value buf * (10 * T)" using T by (intro mult_right_mono) simp_all
    then show ?thesis using N dT T rest by linarith
  qed
qed

text \<open>One round of the first loop: what is left stays within the digits, and the digit that is written is not a leading zero.\<close>

lemma integral_left:
  assumes buf: "list_all isdigit buf" "buf \<noteq> [] \<Longrightarrow> hd buf \<noteq> CHR ''0''" and N: "hi = dec_value buf * T + x"
    and x: "0 \<le> x" "x < T" "delta < x" and delta: "0 \<le> delta" "hi \<le> delta * 10 ^ 16"
  shows "length buf \<le> 16"
proof (cases "buf = []")
  case False
  then show ?thesis using digits_left [OF buf(1) False buf(2) [OF False] N x(1) _ delta] x by simp
qed simp

lemma next_head:
  assumes "buf = [] \<Longrightarrow> 0 < d" and "buf \<noteq> [] \<Longrightarrow> hd buf \<noteq> CHR ''0''" and "digit_value c = d"
  shows "hd (buf @ [c]) \<noteq> CHR ''0''"
proof (cases "buf = []")
  case True
  then show ?thesis using assms(1,3) digit_value_zero [of c] by auto
qed (use assms(2) in simp)

lemma integral_digit:
  fixes p1 :: int
  assumes "0 \<le> p1" "p1 < 10 ^ Suc n"
  shows "0 \<le> p1 div 10 ^ n" "p1 div 10 ^ n \<le> 9" "p1 = p1 div 10 ^ n * 10 ^ n + p1 mod 10 ^ n"
    "0 \<le> p1 mod 10 ^ n" "p1 mod 10 ^ n < 10 ^ n" "10 ^ n \<le> p1 \<Longrightarrow> 0 < p1 div 10 ^ n"
proof -
  show "0 \<le> p1 div 10 ^ n" using assms(1) by (simp add: pos_imp_zdiv_nonneg_iff)
  show eq: "p1 = p1 div 10 ^ n * 10 ^ n + p1 mod 10 ^ n" by (simp only: div_mult_mod_eq)
  show r: "0 \<le> p1 mod 10 ^ n" "p1 mod 10 ^ n < 10 ^ n" by simp_all
  have "p1 div 10 ^ n * 10 ^ n < 10 * 10 ^ n" using assms(2) eq r(1) unfolding power_Suc by linarith
  then show "p1 div 10 ^ n \<le> 9" by simp
  show "0 < p1 div 10 ^ n" if "10 ^ n \<le> p1" using that by (simp add: pos_imp_zdiv_pos_iff)
qed

lemma gen_integral_ok:
  assumes s: "s \<le> 60" and hi: "hi < 2 ^ 64" "hi \<le> (hi - lo) * 10 ^ 16" and dst: "0 \<le> dst" "dst \<le> hi - lo" and p2: "0 \<le> p2" "p2 < 2 ^ s"
    and "list_all isdigit buf" "buf \<noteq> [] \<Longrightarrow> hd buf \<noteq> CHR ''0''" "buf = [] \<Longrightarrow> 0 < n \<and> pow10 \<le> p1" "0 \<le> p1" "p1 < 10 ^ n"
    "0 < n \<Longrightarrow> pow10 = 10 ^ (n - 1)" "n \<le> 10" "hi = dec_value buf * (10 ^ n * 2 ^ s) + (p1 * 2 ^ s + p2)" "hi - lo < p1 * 2 ^ s + p2"
  shows "\<exists>buf' dec. gen_integral s p2 (hi - lo) dst n p1 pow10 buf = Inr (buf', dec) \<and> decimal_in s lo hi buf' dec"
  using assms(8-)
proof (induction n arbitrary: p1 pow10 buf)
  case 0
  then have "p1 = 0" "buf \<noteq> []" by auto
  then show ?case using 0 gen_fraction_ok [OF s hi(2) dst, of buf 0 p2] p2 by (simp add: assertion_def)
next
  case (Suc n)
  note buf = Suc.prems(1-3) and p1 = Suc.prems(4,5)
  define d r T where d: "d = p1 div 10 ^ n" and r: "r = p1 mod 10 ^ n" and T: "T = 10 ^ n * (2 :: int) ^ s"
  let ?buf = "buf @ [to_char (48 + d)]" and ?rest = "r * 2 ^ s + p2"
  have pow: "pow10 = 10 ^ n" using Suc.prems(6) by simp
  note digit = integral_digit [OF p1, folded d r]
  have dpos: "0 < d" if "buf = []" using buf(3) [OF that] pow digit(6) by simp
  have c: "isdigit (to_char (48 + d))" "digit_value (to_char (48 + d)) = d" using to_char_digit digit(1,2) by simp_all
  have rem: "p1 * 2 ^ s + p2 = d * T + ?rest" by (subst digit(3)) (simp add: T algebra_simps)
  have N: "hi = dec_value buf * (10 * T) + (d * T + ?rest)" using Suc.prems(8) rem by (simp add: T)
  have T0: "0 < T" and rest0: "0 \<le> r * 2 ^ s" "0 \<le> ?rest" using digit(4) p2 by (simp_all add: T)
  have "T \<le> hi" "?rest \<le> hi" using place_le [OF buf(1,2) dpos digit(1) T0 rest0(2) N] by simp_all
  then have u: "u64 (r * 2 ^ s) = r * 2 ^ s" "u64 ?rest = ?rest" "u64 T = T" using rest0 T0 p2 hi(1) by (simp_all add: u64_id)
  have step: "gen_integral s p2 (hi - lo) dst (Suc n) p1 pow10 buf =
      (if ?rest \<le> hi - lo then mapR (\<lambda>b. (b, int n)) (grisu2_round ?buf dst (hi - lo) ?rest T)
       else gen_integral s p2 (hi - lo) dst n r (10 ^ n div 10) ?buf)"
    using digit(2) by (simp add: Let_def pow d [symmetric] r [symmetric] T [symmetric] u assertion_def)
  show ?case
  proof (cases "?rest \<le> hi - lo")
    case True
    obtain buf' R' where b: "grisu2_round ?buf dst (hi - lo) ?rest T = Inr buf'" "length buf' = Suc (length buf)"
      "list_all isdigit buf'" "hd buf' \<noteq> CHR ''0''" "hi = dec_value buf' * T + R'" "0 \<le> R'" "R' \<le> hi - lo"
      using last_digit [OF T0 digit(1,2) rest0(2) True _ dst(2) buf(1,2) N] Suc.prems(9) rem by auto
    have "(p1 + 1) * 2 ^ s \<le> 10 ^ Suc n * 2 ^ s" using p1 by (intro mult_right_mono) simp_all
    then have "p1 * 2 ^ s + p2 < 10 * T" using p2(2) by (simp add: T distrib_right)
    then have "length buf \<le> 16"
      using integral_left [OF buf(1,2) N, of "hi - lo"] Suc.prems(9) rem digit(1) T0 rest0 dst hi(2) by simp
    then have "decimal_in s lo hi buf' (int n)"
      by (intro decimal_inI [where j = 0 and n = n and R = R']) (use b Suc.prems(7) in \<open>auto simp: T\<close>)
    then show ?thesis using step True b(1) by simp
  next
    case False
    have "\<exists>buf' dec. gen_integral s p2 (hi - lo) dst n r (10 ^ n div 10) ?buf = Inr (buf', dec) \<and> decimal_in s lo hi buf' dec"
    proof (rule Suc.IH)
      show "hi = dec_value ?buf * (10 ^ n * 2 ^ s) + ?rest" using N dec_value_digits_snoc [OF c(1)] c(2) by (simp add: T algebra_simps)
      show "hd ?buf \<noteq> CHR ''0''" by (rule next_head [OF dpos buf(2) c(2)])
      show "10 ^ n div 10 = (10 :: int) ^ (n - 1)" if "0 < n" using that by (cases n) simp_all
    qed (use buf c digit(4,5) False Suc.prems(7) in simp_all)
    then show ?thesis using step False by simp
  qed
qed

section \<open>Generation\<close>

lemma find_largest_pow10_ok:
  assumes "0 < n" and "n < 2 ^ 32" and "find_largest_pow10 n = (k, p)"
  shows "0 < k \<and> k \<le> 10 \<and> p = 10 ^ (k - 1) \<and> p \<le> n \<and> n < 10 ^ k"
  using assms by (simp add: find_largest_pow10_def split: if_splits; clarsimp)

lemma grisu2_digit_gen_ok:
  assumes inp: "gen_input s lo w hi"
  shows "\<exists>buf dec. grisu2_digit_gen \<lparr>df = lo, de = - int s\<rparr> \<lparr>df = w, de = - int s\<rparr> \<lparr>df = hi, de = - int s\<rparr> = Inr (buf, dec) \<and>
    decimal_in s lo hi buf dec"
proof -
  have i: "32 \<le> s" "s \<le> 60" "0 < lo" "lo \<le> w" "w \<le> hi" "hi < 2 ^ 64" "2 ^ s \<le> hi" "hi \<le> (hi - lo) * 10 ^ 16"
    using inp by (simp_all add: gen_input_def)
  define p1 p2 where p: "p1 = hi div 2 ^ s" "p2 = hi mod 2 ^ s"
  have eq: "hi = p1 * 2 ^ s + p2" unfolding p by (simp only: div_mult_mod_eq)
  have p2: "0 \<le> p2" "p2 < 2 ^ s" by (simp_all add: p)
  have "(2 :: int) ^ 32 \<le> 2 ^ s" using i(1) by (intro power_increasing) simp_all
  then have "(2 :: int) ^ 32 * 2 ^ 32 \<le> 2 ^ 32 * 2 ^ s" by (intro mult_left_mono) simp_all
  moreover have "(2 :: int) ^ 32 * 2 ^ 32 = 2 ^ 64" by simp
  ultimately have "p1 * 2 ^ s < 2 ^ 32 * 2 ^ s" using eq p2(1) i(6) by linarith
  then have "p1 < 2 ^ 32" by simp
  moreover have "0 < p1" using i(7) by (simp add: p pos_imp_zdiv_pos_iff)
  moreover obtain k p where k: "find_largest_pow10 p1 = (k, p)" by force
  ultimately have kp: "0 < k" "k \<le> 10" "p = 10 ^ (k - 1)" "p \<le> p1" "p1 < 10 ^ k" using find_largest_pow10_ok by blast+
  have "\<exists>buf dec. gen_integral s p2 (hi - lo) (hi - w) k p1 p [] = Inr (buf, dec) \<and> decimal_in s lo hi buf dec"
    by (rule gen_integral_ok) (use i p2 kp eq \<open>0 < p1\<close> in \<open>simp_all add: dec_value_def\<close>)
  moreover have "hi div 2 ^ s mod 4294967296 = p1" using \<open>0 < p1\<close> \<open>p1 < 2 ^ 32\<close> by (simp add: p)
  ultimately show ?thesis
    using i k \<open>0 < p1\<close> by (simp add: grisu2_digit_gen_def diyfp_sub_def assertion_def kAlpha_def kGamma_def Let_def p(2) [symmetric])
qed

text \<open>\<^verbatim>\<open>grisu2\<close>: the digits denote a number strictly between the boundaries of the double.\<close>

lemma grisu2_value_ok:
  assumes wf: "dbl_wf (Fin False m e)" and m: "0 < m"
  obtains buf dec where "grisu2_value (Fin False m e) = Inr (buf, dec)" "buf \<noteq> []" "list_all isdigit buf" "hd buf \<noteq> CHR ''0''"
    "length buf \<le> 17" "- 341 \<le> dec" "dec \<le> 309"
    "lower_bound m e < real_of_int (dec_value buf) * 10 powi dec" "real_of_int (dec_value buf) * 10 powi dec < upper_bound m e"
proof -
  obtain s lo w hi k where g: "grisu2_value (Fin False m e) = mapR (\<lambda>(buf, dec). (buf, dec - k))
      (grisu2_digit_gen \<lparr>df = lo, de = - int s\<rparr> \<lparr>df = w, de = - int s\<rparr> \<lparr>df = hi, de = - int s\<rparr>)"
    "gen_input s lo w hi" "- 300 \<le> k" "k \<le> 324"
    "lower_bound m e * 10 powi k < real_of_int lo * two (- int s)" "real_of_int hi * two (- int s) < upper_bound m e * 10 powi k"
    using grisu2_value_scaled [OF wf m] by metis
  obtain buf dec where d: "grisu2_digit_gen \<lparr>df = lo, de = - int s\<rparr> \<lparr>df = w, de = - int s\<rparr> \<lparr>df = hi, de = - int s\<rparr> = Inr (buf, dec)"
    "decimal_in s lo hi buf dec" using grisu2_digit_gen_ok [OF g(2)] by blast
  have split: "10 powi dec = 10 powi (dec - k) * (10 powi k :: real)" by (simp flip: power_int_add)
  let ?x = "real_of_int (dec_value buf) * 10 powi (dec - k)"
  have "lower_bound m e * 10 powi k < ?x * 10 powi k" "?x * 10 powi k < upper_bound m e * 10 powi k"
    using g(5,6) d(2) unfolding decimal_in_def split mult.assoc by linarith+
  then have "lower_bound m e < ?x" "?x < upper_bound m e" by simp_all
  then show thesis using that [of buf "dec - k"] g(1,3,4) d by (simp add: decimal_in_def)
qed

end
