(* ===== verification/Grisu_Text.thy ===== *)
theory Grisu_Text
  imports Grisu_Digits
begin

text \<open>
  The text of a double (\<^verbatim>\<open>to_chars\<close> with \<^verbatim>\<open>format_buffer\<close> and \<^verbatim>\<open>append_exponent\<close> in \<^verbatim>\<open>include/nlohmann/json.hpp\<close>):
  it is a number of the JSON grammar, and \<^verbatim>\<open>strtod\<close> reads the same double back.
\<close>

section \<open>Numbers with a point or an exponent\<close>

definition point_text :: "string \<Rightarrow> string" where
  "point_text fr = (if fr = [] then [] else CHR ''.'' # fr)"

fun exponent_text :: "string \<Rightarrow> bool" where
  "exponent_text [] \<longleftrightarrow> True"
| "exponent_text [c] \<longleftrightarrow> False"
| "exponent_text (c # sg # ds) \<longleftrightarrow> c = CHR ''e'' \<and> (sg = CHR ''+'' \<or> sg = CHR ''-'') \<and> ds \<noteq> [] \<and> list_all isdigit ds"

lemma no_digit [simp]: "\<not> isdigit (CHR ''.'')" "\<not> isdigit (CHR ''e'')" "\<not> isdigit (CHR ''+'')" "\<not> isdigit (CHR ''-'')"
  by (simp_all add: isdigit_def schar_def)

lemma scan_digit_run:
  assumes "list_all isdigit ds"
  shows "scan_number_at Any1 ty buf (ds @ rest) = scan_number_at Any1 ty (buf @ ds) rest"
    and "scan_number_at Any2 ty buf (ds @ rest) = scan_number_at Any2 ty (buf @ ds) rest"
    and "scan_number_at Decimal2 ty buf (ds @ rest) = scan_number_at Decimal2 ty (buf @ ds) rest"
  using assms by (induction ds arbitrary: buf) simp_all

lemma scan_exponent:
  assumes "exponent_text ex" and "st = Zero \<or> st = Any1 \<or> st = Decimal2" and "ty = Num_float \<or> ex \<noteq> []"
  shows "scan_number_at st ty buf ex = Some (Num_float, buf @ ex, [])"
proof (cases ex rule: exponent_text.cases)
  case (3 c sg ds)
  then obtain d ds' where "ds = d # ds'" "isdigit d" "list_all isdigit ds'" using assms(1) by (cases ds) simp_all
  then show ?thesis using 3 assms scan_digit_run(2) [of ds' Num_float _ "[]"] by auto
qed (use assms in auto)

lemma scan_point_exponent:
  assumes "list_all isdigit fr" and ex: "exponent_text ex" "fr \<noteq> [] \<or> ex \<noteq> []" and st: "st = Zero \<or> st = Any1"
  shows "scan_number_at st ty buf (point_text fr @ ex) = Some (Num_float, buf @ point_text fr @ ex, [])"
proof (cases fr)
  case (Cons d ds)
  then have d: "isdigit d" "list_all isdigit ds" using assms(1) by simp_all
  then have "scan_number_at st ty buf (point_text fr @ ex) = scan_number_at Decimal2 Num_float (buf @ CHR ''.'' # fr) ex"
    using st scan_digit_run(3) [OF d(2), of Num_float "buf @ [CHR ''.'', d]" ex] Cons by (auto simp: point_text_def)
  then show ?thesis using scan_exponent [OF ex(1), of Decimal2 Num_float] Cons by (simp add: point_text_def)
qed (use scan_exponent [OF ex(1)] ex st in \<open>auto simp: point_text_def\<close>)

text \<open>The start of the number: one zero, or digits that do not start with a zero.\<close>

definition integral_text :: "string \<Rightarrow> bool" where
  "integral_text ip \<longleftrightarrow> ip \<noteq> [] \<and> list_all isdigit ip \<and> (hd ip = CHR ''0'' \<longrightarrow> ip = ''0'')"

lemma scan_integral:
  assumes "integral_text ip" and "list_all isdigit fr" "exponent_text ex" "fr \<noteq> [] \<or> ex \<noteq> []"
  shows "scan_number_at (if hd ip = CHR ''0'' then Zero else Any1) ty (buf @ [hd ip]) (tl ip @ point_text fr @ ex)
    = Some (Num_float, buf @ ip @ point_text fr @ ex, [])"
proof -
  obtain c cs where ip: "ip = c # cs" "list_all isdigit cs" "c = CHR ''0'' \<Longrightarrow> cs = []"
    using assms(1) by (cases ip) (auto simp: integral_text_def)
  show ?thesis
    using ip scan_digit_run(1) [OF ip(2), of ty "buf @ [c]" "point_text fr @ ex"] scan_point_exponent [OF assms(2-4)] by auto
qed

lemma dropWhile_digits:
  assumes "list_all isdigit ds" and "rest = [] \<or> \<not> isdigit (hd rest)"
  shows "takeWhile isdigit (ds @ rest) = ds" and "dropWhile isdigit (ds @ rest) = rest"
  using assms by (induction ds) (cases rest; auto)+

lemma strtod_abs_text:
  assumes ip: "list_all isdigit ip" and fr: "list_all isdigit fr" and ex: "exponent_text ex"
  shows "strtod_abs neg (ip @ point_text fr @ ex) = decimal_to_dbl neg (dec_value (ip @ fr)) (exponent_value (tl ex) - int (length fr))"
proof -
  have e: "ex = [] \<or> \<not> isdigit (hd ex) \<and> hd ex \<noteq> CHR ''.''" using ex by (cases ex rule: exponent_text.cases) auto
  then have "point_text fr @ ex = [] \<or> \<not> isdigit (hd (point_text fr @ ex))" by (auto simp: point_text_def)
  note w = dropWhile_digits [OF ip this]
  show ?thesis
  proof (cases "fr = []")
    case True
    then show ?thesis unfolding strtod_abs_def Let_def w using e by (auto simp: point_text_def)
  next
    case False
    have "takeWhile isdigit (fr @ ex) = fr" "dropWhile isdigit (fr @ ex) = ex" using dropWhile_digits [OF fr, of ex] e by auto
    then show ?thesis unfolding strtod_abs_def Let_def w using False by (simp add: point_text_def del: takeWhile_append2 dropWhile_append2)
  qed
qed

lemma number_float_text:
  assumes ip: "integral_text ip" and fr: "list_all isdigit fr" and ex: "exponent_text ex" "fr \<noteq> [] \<or> ex \<noteq> []"
  shows "float_text ((if neg then ''-'' else []) @ ip @ point_text fr @ ex)
    (decimal_to_dbl neg (dec_value (ip @ fr)) (exponent_value (tl ex) - int (length fr)))"
proof -
  obtain c cs where c: "ip = c # cs" "isdigit c" "list_all isdigit ip" using ip by (cases ip) (auto simp: integral_text_def)
  then have nm: "c \<noteq> CHR ''-''" by auto
  note scan = scan_integral [OF ip fr ex] and val = strtod_abs_text [OF c(3) fr ex(1)]
  show ?thesis
  proof (cases neg)
    case True
    have "scan_number (CHR ''-'') (ip @ point_text fr @ ex) = (Value_float (strtod (CHR ''-'' # ip @ point_text fr @ ex)), [])"
      using scan [of Num_integer "''-''"] c by (cases "c = CHR ''0''") (simp_all add: scan_number_def digit19_def)
    then show ?thesis using True val [of True] by (simp add: float_text_def strtod_def)
  next
    case False
    have "scan_number c (cs @ point_text fr @ ex) = (Value_float (strtod (ip @ point_text fr @ ex)), [])"
      using scan [of Num_unsigned "[]"] c nm by (simp add: scan_number_def)
    then show ?thesis using False val [of False] c nm by (simp add: float_text_def strtod_def)
  qed
qed

section \<open>Formatting\<close>

definition exponent_digits :: "int \<Rightarrow> string" where
  "exponent_digits k =
     (if k < 10 then [CHR ''0'', to_char (48 + k)]
      else if k < 100 then [to_char (48 + k div 10), to_char (48 + k mod 10)]
      else [to_char (48 + k div 100), to_char (48 + k mod 100 div 10), to_char (48 + k mod 100 mod 10)])"

lemma exponent_digits_ok:
  assumes "0 \<le> k" and "k < 1000"
  shows "list_all isdigit (exponent_digits k) \<and> exponent_digits k \<noteq> [] \<and> dec_value (exponent_digits k) = k"
proof -
  have d: "isdigit (to_char (48 + i)) \<and> byte (to_char (48 + i)) = 48 + i" if "0 \<le> i" "i \<le> 9" for i
    using to_char_digit [OF that] digit_byte_value [of "to_char (48 + i)"] by simp
  consider "k < 10" | "10 \<le> k" "k < 100" | "100 \<le> k" by linarith
  then show ?thesis
  proof cases
    case 1
    then show ?thesis using d [of k] d [of 0] assms by (simp add: exponent_digits_def dec_value_def isdigit_def schar_def)
  next
    case 2
    then have "0 \<le> k div 10" "k div 10 \<le> 9" "0 \<le> k mod 10" "k mod 10 \<le> 9" by linarith+
    then show ?thesis using d [of "k div 10"] d [of "k mod 10"] 2 by (simp add: exponent_digits_def dec_value_def)
  next
    case 3
    have r: "0 \<le> k div 100" "k div 100 \<le> 9" "0 \<le> k mod 100 div 10" "k mod 100 div 10 \<le> 9" "0 \<le> k mod 100 mod 10" "k mod 100 mod 10 \<le> 9"
      using assms by (simp_all; linarith)+
    have "10 * (10 * (k div 100) + k mod 100 div 10) + k mod 100 mod 10 = k" by presburger
    then show ?thesis
      using d [OF r(1,2)] d [OF r(3,4)] d [OF r(5,6)] 3 by (simp add: exponent_digits_def dec_value_def)
  qed
qed

lemma append_exponent_ok:
  assumes "- 1000 < e" and "e < 1000"
  obtains ex where "append_exponent e = Inr ex" "exponent_text (CHR ''e'' # ex)" "exponent_value ex = e" "length ex \<le> 4"
proof -
  let ?ex = "(if e < 0 then CHR ''-'' else CHR ''+'') # exponent_digits \<bar>e\<bar>"
  have "append_exponent e = Inr ?ex" using assms by (simp add: append_exponent_def assertion_def Let_def exponent_digits_def)
  moreover have "0 \<le> \<bar>e\<bar>" "\<bar>e\<bar> < 1000" using assms by simp_all
  moreover have "length (exponent_digits \<bar>e\<bar>) \<le> 3" by (simp add: exponent_digits_def)
  ultimately show thesis using that [of ?ex] exponent_digits_ok [of "\<bar>e\<bar>"] by auto
qed

lemma dec_value_zeros: "dec_value (replicate n (CHR ''0'') @ ds) = dec_value ds"
  by (induction n) (simp_all add: dec_value_def)

text \<open>What the text of the digits has to be: a number of the grammar with the same value.\<close>

definition decimal_text :: "string \<Rightarrow> int \<Rightarrow> string \<Rightarrow> bool" where
  "decimal_text buf dec t \<longleftrightarrow> (\<exists>ip fr ex. t = ip @ point_text fr @ ex \<and> integral_text ip \<and> list_all isdigit fr \<and> exponent_text ex \<and>
     (fr \<noteq> [] \<or> ex \<noteq> []) \<and> (\<exists>j. dec_value (ip @ fr) = dec_value buf * 10 ^ j \<and> exponent_value (tl ex) - int (length fr) = dec - int j))"

text \<open>The four forms of the text: zeros after the digits, a point within them, zeros before them, an exponent.\<close>

lemma decimal_text_zeros:
  assumes buf: "buf \<noteq> []" "list_all isdigit buf" "hd buf \<noteq> CHR ''0''" and dec: "0 \<le> dec"
  shows "decimal_text buf dec (buf @ replicate (nat dec) (CHR ''0'') @ ''.0'')"
proof -
  let ?zs = "replicate (nat dec) (CHR ''0'')"
  have zero: "isdigit (CHR ''0'')" by (simp add: isdigit_def schar_def)
  then have "integral_text (buf @ ?zs)" using buf by (auto simp: integral_text_def list_all_iff)
  moreover have "dec_value (buf @ ?zs @ ''0'') = dec_value buf * 10 ^ Suc (nat dec)"
    using dec_value_append [of buf "?zs @ ''0''"] dec_value_zeros [of "nat dec" "''0''"] by (simp add: dec_value_def)
  ultimately show ?thesis
    unfolding decimal_text_def using zero dec
    by (intro exI [of _ "buf @ ?zs"] exI [of _ "''0''"] exI [of _ "[]"]) (auto simp: point_text_def intro!: exI [of _ "Suc (nat dec)"])
qed

lemma decimal_text_point:
  assumes buf: "buf \<noteq> []" "list_all isdigit buf" "hd buf \<noteq> CHR ''0''" and n: "0 < n" "n < length buf"
  shows "decimal_text buf (int n - int (length buf)) (take n buf @ CHR ''.'' # drop n buf)"
proof -
  have "integral_text (take n buf)" using buf n(1) by (cases buf; cases n) (auto simp: integral_text_def list_all_iff dest: in_set_takeD)
  moreover have "drop n buf \<noteq> []" "list_all isdigit (drop n buf)" using buf n by (auto simp: list_all_iff dest: in_set_dropD)
  ultimately show ?thesis
    unfolding decimal_text_def using n
    by (intro exI [of _ "take n buf"] exI [of _ "drop n buf"] exI [of _ "[]"]) (auto simp: point_text_def intro!: exI [of _ 0])
qed

lemma decimal_text_fraction:
  assumes buf: "buf \<noteq> []" "list_all isdigit buf"
  shows "decimal_text buf (- int n - int (length buf)) (CHR ''0'' # CHR ''.'' # replicate n (CHR ''0'') @ buf)"
proof -
  have "isdigit (CHR ''0'')" by (simp add: isdigit_def schar_def)
  then show ?thesis
    unfolding decimal_text_def using buf dec_value_zeros [of "Suc n" buf]
    by (intro exI [of _ "''0''"] exI [of _ "replicate n (CHR ''0'') @ buf"] exI [of _ "[]"])
      (auto simp: point_text_def integral_text_def list_all_iff intro!: exI [of _ 0])
qed

lemma decimal_text_exponent:
  assumes buf: "list_all isdigit (c # cs)" "c \<noteq> CHR ''0''" and ex: "exponent_text (CHR ''e'' # ex)" "exponent_value ex = int (length cs) + dec"
  shows "decimal_text (c # cs) dec ([c] @ point_text cs @ CHR ''e'' # ex)"
  unfolding decimal_text_def using assms
  by (intro exI [of _ "[c]"] exI [of _ cs] exI [of _ "CHR ''e'' # ex"]) (auto simp: integral_text_def intro!: exI [of _ 0])

lemma format_buffer_ok:
  assumes buf: "buf \<noteq> []" "list_all isdigit buf" "hd buf \<noteq> CHR ''0''" "length buf \<le> 17" and dec: "- 900 \<le> dec" "dec \<le> 900"
  obtains t where "format_buffer buf dec (- 4) 15 = Inr t" "decimal_text buf dec t" "length t \<le> 23"
proof -
  define k n where "k = int (length buf)" and "n = k + dec"
  have k: "1 \<le> k" "k \<le> 17" using buf(1,4) by (simp_all add: k_def Suc_leI flip: length_greater_0_conv)
  have eq: "format_buffer buf dec (- 4) 15 =
      (if k \<le> n \<and> n \<le> 15 then Inr (buf @ replicate (nat (n - k)) (CHR ''0'') @ ''.0'')
       else if 0 < n \<and> n \<le> 15 then assertion (n < k) (Inr (take (nat n) buf @ CHR ''.'' # drop (nat n) buf))
       else if - 4 < n \<and> n \<le> 0 then Inr (CHR ''0'' # CHR ''.'' # replicate (nat (- n)) (CHR ''0'') @ buf)
       else mapR (\<lambda>ex. (if k = 1 then buf else hd buf # CHR ''.'' # tl buf) @ CHR ''e'' # ex) (append_exponent (n - 1)))"
    unfolding format_buffer_def Let_def k_def n_def by (simp add: assertion_def)
  consider "k \<le> n" "n \<le> 15" | "0 < n" "n < k" "n \<le> 15" | "- 4 < n" "n \<le> 0" | "n \<le> - 4 \<or> 15 < n" by linarith
  then show thesis
  proof cases
    case 1
    then have "decimal_text buf dec (buf @ replicate (nat (n - k)) (CHR ''0'') @ ''.0'')"
      using decimal_text_zeros [OF buf(1-3), of dec] by (simp add: n_def)
    then show ?thesis using that eq 1 k by (simp add: k_def)
  next
    case 2
    then have "decimal_text buf dec (take (nat n) buf @ CHR ''.'' # drop (nat n) buf)"
      using decimal_text_point [OF buf(1-3), of "nat n"] by (simp add: n_def k_def)
    then show ?thesis using that eq 2 k by (simp add: assertion_def k_def)
  next
    case 3
    then have "decimal_text buf dec (CHR ''0'' # CHR ''.'' # replicate (nat (- n)) (CHR ''0'') @ buf)"
      using decimal_text_fraction [OF buf(1,2), of "nat (- n)"] by (simp add: n_def k_def)
    then show ?thesis using that eq 3 k by (simp add: k_def)
  next
    case 4
    obtain ex where ex: "append_exponent (n - 1) = Inr ex" "exponent_text (CHR ''e'' # ex)" "exponent_value ex = n - 1" "length ex \<le> 4"
      using append_exponent_ok [of "n - 1"] dec k by (auto simp: n_def)
    obtain c cs where c: "buf = c # cs" using buf(1) by (cases buf) auto
    have "decimal_text buf dec ([c] @ point_text cs @ CHR ''e'' # ex)"
      using decimal_text_exponent [of c cs ex dec] buf(2,3) c ex(2,3) by (simp add: n_def k_def)
    moreover have "(if k = 1 then buf else hd buf # CHR ''.'' # tl buf) @ CHR ''e'' # ex = [c] @ point_text cs @ CHR ''e'' # ex"
      using c by (simp add: k_def point_text_def)
    moreover have "length ([c] @ point_text cs @ CHR ''e'' # ex) \<le> 23" using ex(4) buf(4) c by (simp add: point_text_def)
    ultimately show ?thesis using that [of "[c] @ point_text cs @ CHR ''e'' # ex"] eq 4 k ex(1) by (auto simp del: append.simps)
  qed
qed

section \<open>The text of a double\<close>

lemma dbl_eq_zero: "dbl_eq (Fin False m e) 0 \<longleftrightarrow> m = 0"
proof -
  have "m * pow2 (e - min e EMIN) < 0 \<longleftrightarrow> m < 0" "0 < m * pow2 (e - min EMIN e) \<longleftrightarrow> 0 < m"
    using pow2_pos [of "e - min e EMIN"] by (simp_all add: mult_less_0_iff zero_less_mult_iff min.commute del: pow2_pos)
  then show ?thesis by (auto simp: dbl_eq_def zero_dbl_def scaled_def sgnd_def Let_def)
qed

lemma decimal_text_reads:
  assumes t: "decimal_text buf dec t" and B: "0 < dec_value buf" and wf: "dbl_wf (Fin neg m e)" and m: "0 < m"
    and lo: "lower_bound m e < real_of_int (dec_value buf) * 10 powi dec" and hi: "real_of_int (dec_value buf) * 10 powi dec < upper_bound m e"
  shows "float_text ((if neg then ''-'' else []) @ t) (Fin neg m e)"
proof -
  obtain ip fr ex j where t: "t = ip @ point_text fr @ ex" "integral_text ip" "list_all isdigit fr" "exponent_text ex" "fr \<noteq> [] \<or> ex \<noteq> []"
    "dec_value (ip @ fr) = dec_value buf * 10 ^ j" "exponent_value (tl ex) - int (length fr) = dec - int j"
    using t by (auto simp: decimal_text_def)
  have val: "real_of_int (dec_value buf * 10 ^ j) * 10 powi (dec - int j) = real_of_int (dec_value buf) * 10 powi dec"
    by (simp add: power_int_diff)
  have "decimal_to_dbl neg (dec_value buf * 10 ^ j) (dec - int j) = Fin neg m e"
    by (rule decimal_between [OF wf m]) (use B lo hi in \<open>simp_all only: val\<close>, simp)
  then show ?thesis using number_float_text [OF t(2-5), of neg] by (simp only: t(1,6,7))
qed

lemma float_text_zero: "float_text ((if neg then ''-'' else []) @ ''0.0'') (Fin neg 0 EMIN)"
proof -
  have "isdigit (CHR ''0'')" by (simp add: isdigit_def schar_def)
  then have "float_text ((if neg then ''-'' else []) @ ''0'' @ point_text ''0'' @ []) (decimal_to_dbl neg (dec_value (''0'' @ ''0'')) (exponent_value (tl []) - int (length ''0'')))"
    by (intro number_float_text) (simp_all add: integral_text_def)
  moreover have "decimal_to_dbl neg (dec_value (''0'' @ ''0'')) (exponent_value (tl []) - int (length ''0'')) = Fin neg 0 EMIN"
    by (simp add: decimal_to_dbl_def dec_value_def div_dyadic_def round_dyadic_def Let_def)
  ultimately show ?thesis by (simp add: point_text_def)
qed

text \<open>
  No assertion of \<^verbatim>\<open>to_chars\<close> fails, and the text is read back as the same double.
\<close>

lemma to_chars_Fin:
  "to_chars (Fin s m e) =
     (let pre = (if s then ''-'' else [])
      in if m = 0 then Inr (pre @ ''0.0'')
         else bindR (grisu2_value (Fin False m e)) (\<lambda>(buf, decimal_exponent).
              assertion (length buf \<le> 17) (mapR (\<lambda>t. pre @ t) (format_buffer buf decimal_exponent (- 4) 15))))"
  by (cases s) (simp_all add: to_chars_def assertion_def uminus_dbl_def dbl_eq_zero Let_def)

lemma to_chars_ok:
  assumes wf: "dbl_wf d" and fin: "is_finite d"
  obtains t where "to_chars d = Inr t" "float_text t d" "length t \<le> 24"
proof -
  obtain s m e where d: "d = Fin s m e" using fin by (cases d) simp_all
  let ?pre = "if s then ''-'' else []"
  have wf': "dbl_wf (Fin False m e)" using wf d by simp
  show thesis
  proof (cases "m = 0")
    case True
    then have "e = EMIN" using wf d by simp
    then show ?thesis using that [of "?pre @ ''0.0''"] True float_text_zero [of s] d by (simp add: to_chars_Fin Let_def)
  next
    case False
    then have m: "0 < m" using wf d by auto
    obtain buf dec where g: "grisu2_value (Fin False m e) = Inr (buf, dec)" "buf \<noteq> []" "list_all isdigit buf" "hd buf \<noteq> CHR ''0''"
      "length buf \<le> 17" "- 341 \<le> dec" "dec \<le> 309"
      "lower_bound m e < real_of_int (dec_value buf) * 10 powi dec" "real_of_int (dec_value buf) * 10 powi dec < upper_bound m e"
      using grisu2_value_ok [OF wf' m] by blast
    obtain t where t: "format_buffer buf dec (- 4) 15 = Inr t" "decimal_text buf dec t" "length t \<le> 23"
      by (rule format_buffer_ok [OF g(2-5), of dec]) (use g(6,7) in simp_all)
    have "(1 :: int) \<le> 10 ^ (length buf - 1)" by simp
    then have B: "0 < dec_value buf" using dec_value_lower [OF g(3,2,4)] by linarith
    have "float_text (?pre @ t) d" using decimal_text_reads [OF t(2) B _ m g(8,9)] wf d by simp
    moreover have "to_chars d = Inr (?pre @ t)"
      using g(1,5) t(1) False d by (simp add: to_chars_Fin assertion_def Let_def)
    ultimately show ?thesis using that t(3) by simp
  qed
qed

text \<open>
  C14. Grisu2 writes every finite double so that it is read back: no assertion of the computation fails, the text has at
  most 24 of the 64 bytes of the buffer, and the lexer reads from it a floating-point number that \<^verbatim>\<open>strtod\<close> rounds to
  the same double, sign of zero included.
\<close>

theorem to_chars_reads_back:
  assumes "dbl_wf d" and "is_finite d"
  shows "\<exists>t. to_chars d = Inr t \<and> length t \<le> 24 \<and> scan t = (Value_float d, [])"
proof -
  obtain t where "to_chars d = Inr t" "float_text t d" "length t \<le> 24" using to_chars_ok [OF assms] .
  then show ?thesis using scan_float_text [of t d "[]"] by (simp add: number_end_def)
qed

text \<open>The largest double, and the negative one closest to zero.\<close>

theorem to_chars_reads_back_witness:
  "(\<exists>t. to_chars DBL_MAX = Inr t \<and> length t \<le> 24 \<and> scan t = (Value_float DBL_MAX, []))
   \<and> (\<exists>t. to_chars (Fin True 1 EMIN) = Inr t \<and> length t \<le> 24 \<and> scan t = (Value_float (Fin True 1 EMIN), []))"
  by (intro conjI to_chars_reads_back) (simp_all add: DBL_MAX_def EMIN_def EMAX_def)

end
