(* ===== verification/Json_Parser.thy ===== *)
theory Json_Parser
  imports Grisu_Text
begin

text \<open>
  The parser of \<^verbatim>\<open>include/nlohmann/json.hpp\<close> (classes \<^verbatim>\<open>parser\<close> and \<^verbatim>\<open>json_sax_dom_parser\<close>) as \<^verbatim>\<open>json::parse\<close> (strict) and
  \<^verbatim>\<open>operator>>\<close> (not strict) call it, with exceptions. The parser keeps a stack of containers that are open; the source
  keeps pointers into the value that it builds, here a frame holds what its container has so far, and an ended
  container is put into the one below. A parse error is \<open>Json_parse_error\<close>, a number that overflows \<open>Json_out_of_range 406\<close>.

  Proved here: the loop ends on every input, and parsing what the serializer wrote, compact or indented, gives the value
  back; \<^verbatim>\<open>dump\<close> throws exactly on invalid UTF-8.
\<close>

section \<open>Building the value\<close>

fun obj_insert :: "string \<Rightarrow> json \<Rightarrow> (string \<times> json) list \<Rightarrow> (string \<times> json) list" where
  "obj_insert k v [] = [(k, v)]"
| "obj_insert k v ((k', v') # kvs) =
     (if k < k' then (k, v) # (k', v') # kvs else if k = k' then (k, v) # kvs else (k', v') # obj_insert k v kvs)"

text \<open>An open array with its elements, an open object with its members and the key of \<^verbatim>\<open>object_element\<close>.\<close>

datatype frame = Arr_frame "json list" | Obj_frame "(string \<times> json) list" string

type_synonym dom = "frame list \<times> json"

fun handle_value :: "json \<Rightarrow> dom \<Rightarrow> dom" where
  "handle_value v ([], result) = ([], v)"
| "handle_value v (Arr_frame js # fs, result) = (Arr_frame (js @ [v]) # fs, result)"
| "handle_value v (Obj_frame kvs k # fs, result) = (Obj_frame (obj_insert k v kvs) k # fs, result)"

definition start_object :: "dom \<Rightarrow> dom" where
  "start_object d = (Obj_frame [] [] # fst d, snd d)"

definition start_array :: "dom \<Rightarrow> dom" where
  "start_array d = (Arr_frame [] # fst d, snd d)"

text \<open>\<^verbatim>\<open>key\<close>: a new key gets null until its value is there.\<close>

fun set_key :: "string \<Rightarrow> dom \<Rightarrow> dom" where
  "set_key k (Obj_frame kvs k0 # fs, result) =
     (Obj_frame (if map_of kvs k = None then obj_insert k JNull kvs else kvs) k # fs, result)"
| "set_key k d = d"

fun end_container :: "dom \<Rightarrow> dom" where
  "end_container (Arr_frame js # fs, result) = handle_value (JArr js) (fs, result)"
| "end_container (Obj_frame kvs k # fs, result) = handle_value (JObj kvs) (fs, result)"
| "end_container ([], result) = ([], result)"

section \<open>The loop\<close>

text \<open>A key and its colon; the result has the next token.\<close>

definition parse_member :: "token \<Rightarrow> string \<Rightarrow> dom \<Rightarrow> (token \<times> string \<times> dom) res" where
  "parse_member tok cs d =
     (case tok of
        Value_string k \<Rightarrow>
          (case scan cs of (sep, cs1) \<Rightarrow>
             if sep = Name_separator then (case scan cs1 of (t, cs2) \<Rightarrow> Inr (t, cs2, set_key k d)) else Inl Json_parse_error)
      | _ \<Rightarrow> Inl Json_parse_error)"

lemma scan_takes: "(t, cs') = scan cs \<Longrightarrow> length cs' + (if t = End_of_input then 0 else 1) \<le> length cs"
  using scan_length [of cs t cs'] by auto

lemma parse_member_takes: "parse_member tok cs d = Inr (t, cs', d') \<Longrightarrow> length cs' < length cs"
  by (auto simp: parse_member_def split: token.splits prod.splits if_splits dest!: scan_takes [OF sym])

text \<open>
  \<^verbatim>\<open>sax_parse_internal\<close>: the flag is \<^verbatim>\<open>skip_to_state_evaluation\<close>, also set for the way from a value to the state
  evaluation; \<open>states\<close> is true for an array. The result has the rest of the input.
\<close>

function sax_parse_internal :: "bool \<Rightarrow> token \<Rightarrow> string \<Rightarrow> bool list \<Rightarrow> dom \<Rightarrow> (dom \<times> string) res" where
  "sax_parse_internal True tok cs states d =
     (case states of
        [] \<Rightarrow> Inr (d, cs)
      | arr # sts \<Rightarrow>
          (case scan cs of (t, cs1) \<Rightarrow>
             if t = Value_separator
             then (case scan cs1 of (t2, cs2) \<Rightarrow>
                     if arr then sax_parse_internal False t2 cs2 states d
                     else bindR (parse_member t2 cs2 d) (\<lambda>(t3, cs3, d'). sax_parse_internal False t3 cs3 states d'))
             else if t = (if arr then End_array else End_object) then sax_parse_internal True t cs1 sts (end_container d)
             else Inl Json_parse_error))"
| "sax_parse_internal False tok cs states d =
     (case tok of
        Begin_object \<Rightarrow>
          (case scan cs of (t, cs1) \<Rightarrow>
             if t = End_object then sax_parse_internal True t cs1 states (end_container (start_object d))
             else bindR (parse_member t cs1 (start_object d))
               (\<lambda>(t2, cs2, d'). sax_parse_internal False t2 cs2 (False # states) d'))
      | Begin_array \<Rightarrow>
          (case scan cs of (t, cs1) \<Rightarrow>
             if t = End_array then sax_parse_internal True t cs1 states (end_container (start_array d))
             else sax_parse_internal False t cs1 (True # states) (start_array d))
      | Value_float x \<Rightarrow>
          if is_finite x then sax_parse_internal True tok cs states (handle_value (JFloat x) d) else Inl (Json_out_of_range 406)
      | Literal_false \<Rightarrow> sax_parse_internal True tok cs states (handle_value (JBool False) d)
      | Literal_null \<Rightarrow> sax_parse_internal True tok cs states (handle_value JNull d)
      | Literal_true \<Rightarrow> sax_parse_internal True tok cs states (handle_value (JBool True) d)
      | Value_integer i \<Rightarrow> sax_parse_internal True tok cs states (handle_value (JInt i) d)
      | Value_string s \<Rightarrow> sax_parse_internal True tok cs states (handle_value (JStr s) d)
      | Value_unsigned i \<Rightarrow> sax_parse_internal True tok cs states (handle_value (JInt i) d)
      | _ \<Rightarrow> Inl Json_parse_error)"
  by pat_completeness auto

termination
  by (relation "measure (\<lambda>(skip, tok, cs, states, d). 3 * length cs + (if skip then 0 else if tok = End_of_input then 1 else 2))")
    (auto dest!: scan_takes parse_member_takes split: if_splits)

declare sax_parse_internal.simps [simp del]

definition json_parse :: "bool \<Rightarrow> string \<Rightarrow> json res" where
  "json_parse strict cs =
     (case scan_first cs of (tok, cs1) \<Rightarrow>
        bindR (sax_parse_internal False tok cs1 [] ([], JNull)) (\<lambda>((fs, result), cs2).
          if strict \<and> fst (scan cs2) \<noteq> End_of_input then Inl Json_parse_error else Inr result))"


section \<open>What was written is read back\<close>

text \<open>
  The state of the loop before a value and after one. A text is read as the value \<open>j\<close> if the loop goes from the one to
  the other with \<open>j\<close> put into the innermost open container.
\<close>

definition at_value :: "string \<Rightarrow> bool list \<Rightarrow> dom \<Rightarrow> (dom \<times> string) res" where
  "at_value cs states d = sax_parse_internal False (fst (scan cs)) (snd (scan cs)) states d"

definition at_member :: "string \<Rightarrow> bool list \<Rightarrow> dom \<Rightarrow> (dom \<times> string) res" where
  "at_member cs sts d = bindR (parse_member (fst (scan cs)) (snd (scan cs)) d) (\<lambda>(t, cs', d'). sax_parse_internal False t cs' sts d')"

definition after_value :: "string \<Rightarrow> bool list \<Rightarrow> dom \<Rightarrow> (dom \<times> string) res" where
  "after_value cs states d = sax_parse_internal True End_of_input cs states d"

definition read_as :: "string \<Rightarrow> json \<Rightarrow> bool" where
  "read_as t j \<longleftrightarrow> (\<forall>rest states d. number_end rest \<longrightarrow>
     at_value (t @ rest) states d = after_value rest states (handle_value j d) \<and> fst (scan (t @ rest)) \<noteq> End_array)"

lemma skip_token: "sax_parse_internal True tok cs states d = after_value cs states d"
  unfolding after_value_def by (simp add: sax_parse_internal.simps(1))

lemma after_value_Nil: "after_value cs [] d = Inr (d, cs)"
  by (simp add: after_value_def sax_parse_internal.simps(1))

lemma after_value_Cons:
  "after_value cs (arr # sts) d =
     (if fst (scan cs) = Value_separator
      then (if arr then at_value (snd (scan cs)) (arr # sts) d else at_member (snd (scan cs)) (arr # sts) d)
      else if fst (scan cs) = (if arr then End_array else End_object) then after_value (snd (scan cs)) sts (end_container d)
      else Inl Json_parse_error)"
  unfolding after_value_def [of cs] sax_parse_internal.simps(1) [of End_of_input cs]
  by (simp add: skip_token at_value_def at_member_def split: prod.splits)

lemma scan_spaces: "list_all json_space ws \<Longrightarrow> scan (ws @ cs) = scan cs"
  by (induction ws) (simp_all add: scan_def)

lemma read_as_spaces: "\<lbrakk>list_all json_space ws; read_as t j\<rbrakk> \<Longrightarrow> read_as (ws @ t) j"
  by (simp add: read_as_def at_value_def scan_spaces)

text \<open>Scalars.\<close>

lemma read_as_token:
  assumes "\<And>rest. number_end rest \<Longrightarrow> scan (t @ rest) = (tok, rest)"
    and "\<And>cs states d. sax_parse_internal False tok cs states d = sax_parse_internal True tok cs states (handle_value j d)"
    and "tok \<noteq> End_array"
  shows "read_as t j"
  using assms by (simp add: read_as_def at_value_def skip_token)

lemma read_as_literals: "read_as ''null'' JNull" "read_as ''true'' (JBool True)" "read_as ''false'' (JBool False)"
  by (rule read_as_token [of _ Literal_null] read_as_token [of _ Literal_true] read_as_token [of _ Literal_false];
      simp add: scan_def scan_at_def scan_literal_def json_space_def sax_parse_internal.simps(2))+

lemma read_as_int: "int64_ok i \<Longrightarrow> read_as (dump_integer i) (JInt i)"
  by (rule read_as_token [of _ "if i < 0 then Value_integer i else Value_unsigned i"])
    (auto simp: scan_written_int sax_parse_internal.simps(2))

lemma read_as_float: "\<lbrakk>float_text t d; is_finite d\<rbrakk> \<Longrightarrow> read_as t (JFloat d)"
  by (rule read_as_token [of _ "Value_float d"]) (auto simp: scan_float_text sax_parse_internal.simps(2))

lemma read_as_string: "dump_escaped s = Inr t \<Longrightarrow> read_as (CHR 0x22 # t @ [CHR 0x22]) (JStr s)"
  by (rule read_as_token [of _ "Value_string s"]) (simp_all add: scan_written_string sax_parse_internal.simps(2))

text \<open>Punctuation, with the white space of the indented form.\<close>

lemma spaces [simp]: "list_all json_space (indent n)" "json_space (CHR '' '')" "json_space (CHR 0x0A)"
  by (simp_all add: indent_def list_all_iff json_space_def)

lemma scan_punctuation:
  "scan (open_text step (CHR ''['') @ cs) = (Begin_array, case step of None \<Rightarrow> cs | Some n \<Rightarrow> CHR 0x0A # cs)"
  "scan (open_text step (CHR ''{'') @ cs) = (Begin_object, case step of None \<Rightarrow> cs | Some n \<Rightarrow> CHR 0x0A # cs)"
  "scan (comma_text step @ cs) = (Value_separator, case step of None \<Rightarrow> cs | Some n \<Rightarrow> CHR 0x0A # cs)"
  "scan (plain_close step cur (CHR '']'') @ cs) = (End_array, cs)" "scan (plain_close step cur (CHR ''}'') @ cs) = (End_object, cs)"
  "scan (case step of None \<Rightarrow> cs | Some n \<Rightarrow> CHR 0x0A # cs) = scan cs"
  "scan (plain_indent step cur @ cs) = scan cs"
  using scan_spaces [of "CHR 0x0A # indent cur" "CHR '']'' # cs"] scan_spaces [of "CHR 0x0A # indent cur" "CHR ''}'' # cs"]
    scan_spaces [of "[CHR 0x0A]" cs] scan_spaces [of "plain_indent step cur" cs]
  by (auto simp: open_text_def comma_text_def plain_close_def plain_indent_def scan_def scan_at_def json_space_def split: option.splits)

lemma number_end_punctuation [simp]:
  "number_end (comma_text step @ cs)" "number_end (plain_close step cur (CHR '']'') @ cs)" "number_end (plain_close step cur (CHR ''}'') @ cs)"
  by (simp_all add: number_end_def comma_text_def plain_close_def isdigit_def schar_def split: option.splits)


text \<open>Arrays.\<close>

lemma after_comma: "after_value (comma_text step @ cs) (True # sts) d = at_value cs (True # sts) d"
  by (simp add: after_value_Cons scan_punctuation at_value_def)

lemma after_close:
  "after_value (plain_close step cur (CHR '']'') @ cs) (True # sts) d = after_value cs sts (end_container d)"
  "after_value (plain_close step cur (CHR ''}'') @ cs) (False # sts) d = after_value cs sts (end_container d)"
  by (simp_all add: after_value_Cons scan_punctuation)

lemma read_items:
  assumes "list_all2 read_as ts js" and "ts \<noteq> []"
  shows "at_value (join (comma_text step) ts @ plain_close step cur (CHR '']'') @ rest) (True # sts) (Arr_frame pre # fs, r)
    = after_value rest sts (handle_value (JArr (pre @ js)) (fs, r))"
  using assms
proof (induction "comma_text step" ts arbitrary: js pre rule: join.induct)
  case (2 t)
  then show ?case by (auto simp: list_all2_Cons1 read_as_def after_close)
next
  case (3 t t' ts)
  then obtain j js' where j: "js = j # js'" "read_as t j" "list_all2 read_as (t' # ts) js'" by (auto simp: list_all2_Cons1)
  then show ?case using "3.hyps" [of js' "pre @ [j]"] by (simp add: read_as_def after_comma)
qed simp

lemma read_as_array:
  assumes "list_all2 read_as ts js" and "ts \<noteq> []"
  shows "read_as (open_text step (CHR ''['') @ join (comma_text step) ts @ plain_close step cur (CHR '']'')) (JArr js)"
  unfolding read_as_def
proof (intro allI impI conjI)
  fix rest sts and d :: dom
  let ?cs = "join (comma_text step) ts @ plain_close step cur (CHR '']'') @ rest"
  obtain t ts' where ts: "ts = t # ts'" using assms(2) by (cases ts) auto
  obtain more where "?cs = t @ more" "number_end more"
    unfolding ts by (cases ts') (auto simp: ts)
  moreover obtain j where "read_as t j" using assms(1) ts by (auto simp: list_all2_Cons1)
  ultimately have first: "fst (scan ?cs) \<noteq> End_array" by (simp add: read_as_def)
  have "at_value (open_text step (CHR ''['') @ ?cs) sts d = at_value ?cs (True # sts) (start_array d)"
    unfolding at_value_def using first
    by (simp add: scan_punctuation sax_parse_internal.simps(2) [of Begin_array] split: prod.splits) (metis fst_conv snd_conv)
  then show "at_value ((open_text step (CHR ''['') @ join (comma_text step) ts @ plain_close step cur (CHR '']'')) @ rest) sts d
      = after_value rest sts (handle_value (JArr js) d)"
    using read_items [OF assms, of step cur rest sts "[]" "fst d" "snd d"] by (simp add: start_array_def)
  show "fst (scan ((open_text step (CHR ''['') @ join (comma_text step) ts @ plain_close step cur (CHR '']'')) @ rest)) \<noteq> End_array"
    by (simp add: scan_punctuation)
qed

text \<open>Objects. Members come in the order of their keys, so each one is added at the end.\<close>

lemma obj_insert_last: "\<forall>k' \<in> fst ` set kvs. k' < k \<Longrightarrow> obj_insert k v kvs = kvs @ [(k, v)]"
  by (induction kvs) auto

lemma obj_insert_again: "\<forall>k' \<in> fst ` set kvs. k' < k \<Longrightarrow> obj_insert k v (kvs @ [(k, v')]) = kvs @ [(k, v)]"
  by (induction kvs) auto

definition member_text :: "nat option \<Rightarrow> nat \<Rightarrow> string \<Rightarrow> string \<Rightarrow> string" where
  "member_text step cur kt t = plain_indent step cur @ CHR 0x22 # kt @ colon_text step @ t"

lemma scan_colon: "scan (CHR '':'' # cs) = (Name_separator, cs)"
  by (simp add: scan_def scan_at_def json_space_def)

lemma read_member:
  assumes "dump_escaped k = Inr kt" and "read_as t v" and "number_end rest" and "\<forall>k' \<in> fst ` set kvs. k' < k"
  shows "at_member (member_text step cur kt t @ rest) sts (Obj_frame kvs k0 # fs, r)
    = after_value rest sts (Obj_frame (kvs @ [(k, v)]) k # fs, r)"
proof -
  let ?sp = "case step of None \<Rightarrow> [] | Some n \<Rightarrow> '' ''"
  have "scan (member_text step cur kt t @ rest) = (Value_string k, CHR '':'' # ?sp @ t @ rest)"
    using scan_written_string [OF assms(1)] by (simp add: member_text_def colon_text_def scan_punctuation)
  moreover have "scan (?sp @ t @ rest) = scan (t @ rest)"
    using scan_spaces [of "'' ''" "t @ rest"] by (simp split: option.splits)
  moreover have "map_of kvs k = None" using assms(4) by (auto simp: map_of_eq_None_iff)
  ultimately have "at_member (member_text step cur kt t @ rest) sts (Obj_frame kvs k0 # fs, r)
      = at_value (t @ rest) sts (Obj_frame (kvs @ [(k, JNull)]) k # fs, r)"
    using assms(4) by (simp add: at_member_def parse_member_def scan_colon at_value_def obj_insert_last split: prod.splits)
  then show ?thesis using assms(2-4) by (simp add: read_as_def obj_insert_again)
qed


lemma after_comma_member: "after_value (comma_text step @ cs) (False # sts) d = at_member cs (False # sts) d"
  by (simp add: after_value_Cons scan_punctuation at_member_def)

definition member_read_as :: "nat option \<Rightarrow> nat \<Rightarrow> string \<Rightarrow> string \<times> json \<Rightarrow> bool" where
  "member_read_as step cur t kv \<longleftrightarrow>
     (\<exists>kt t'. t = member_text step cur kt t' \<and> dump_escaped (fst kv) = Inr kt \<and> read_as t' (snd kv))"

lemma read_members:
  assumes "list_all2 (member_read_as step cur) ts kvs" and "ts \<noteq> []" and "sorted_wrt (<) (map fst (pre @ kvs))"
  shows "at_member (join (comma_text step) ts @ plain_close step cur' (CHR ''}'') @ rest) (False # sts) (Obj_frame pre k0 # fs, r)
    = after_value rest sts (handle_value (JObj (pre @ kvs)) (fs, r))"
  using assms
proof (induction "comma_text step" ts arbitrary: kvs pre k0 rule: join.induct)
  case (2 t)
  then obtain kv where kv: "kvs = [kv]" "member_read_as step cur t kv" by (auto simp: list_all2_Cons1)
  then have "\<forall>k' \<in> fst ` set pre. k' < fst kv" using "2.prems"(3) by (auto simp: sorted_wrt_append)
  then show ?case using kv read_member after_close(2) by (auto simp: member_read_as_def)
next
  case (3 t t' ts)
  then obtain kv kvs' where kv: "kvs = kv # kvs'" "member_read_as step cur t kv" "list_all2 (member_read_as step cur) (t' # ts) kvs'"
    by (auto simp: list_all2_Cons1)
  then have "\<forall>k' \<in> fst ` set pre. k' < fst kv" using "3.prems"(3) by (auto simp: sorted_wrt_append)
  moreover obtain kt x where "t = member_text step cur kt x" "dump_escaped (fst kv) = Inr kt" "read_as x (snd kv)"
    using kv(2) by (auto simp: member_read_as_def)
  ultimately show ?case
    using kv(1) read_member [of "fst kv" kt x "snd kv" _ pre step cur "False # sts" k0 fs r] "3.hyps" [OF kv(3), of "pre @ [kv]" "fst kv"] "3.prems"(3)
    by (simp add: after_comma_member)
qed simp

lemma read_as_object:
  assumes "list_all2 (member_read_as step cur) ts kvs" and "ts \<noteq> []" and "sorted_wrt (<) (map fst kvs)"
  shows "read_as (open_text step (CHR ''{'') @ join (comma_text step) ts @ plain_close step cur' (CHR ''}'')) (JObj kvs)"
  unfolding read_as_def
proof (intro allI impI conjI)
  fix rest sts and d :: dom
  let ?cs = "join (comma_text step) ts @ plain_close step cur' (CHR ''}'') @ rest"
  obtain t ts' kv where ts: "ts = t # ts'" "member_read_as step cur t kv" using assms(1,2) by (cases ts) (auto simp: list_all2_Cons1)
  obtain more where "?cs = t @ more" unfolding ts by (cases ts') (auto simp: ts)
  moreover obtain kt x where "t = member_text step cur kt x" "dump_escaped (fst kv) = Inr kt" using ts(2) by (auto simp: member_read_as_def)
  ultimately have first: "fst (scan ?cs) = Value_string (fst kv)"
    using scan_written_string by (simp add: member_text_def colon_text_def scan_punctuation)
  have "at_value (open_text step (CHR ''{'') @ ?cs) sts d = at_member ?cs (False # sts) (start_object d)"
    unfolding at_value_def at_member_def using first
    by (simp add: scan_punctuation sax_parse_internal.simps(2) [of Begin_object] split: prod.splits) (metis fst_conv snd_conv token.distinct)
  then show "at_value ((open_text step (CHR ''{'') @ join (comma_text step) ts @ plain_close step cur' (CHR ''}'')) @ rest) sts d
      = after_value rest sts (handle_value (JObj kvs) d)"
    using read_members [OF assms(1,2), of "[]" cur' rest sts "[]" "fst d" "snd d"] assms(3) by (simp add: start_object_def)
  show "fst (scan ((open_text step (CHR ''{'') @ join (comma_text step) ts @ plain_close step cur' (CHR ''}'')) @ rest)) \<noteq> End_array"
    by (simp add: scan_punctuation)
qed

text \<open>The empty containers.\<close>

lemma read_as_empty: "read_as ''[]'' (JArr [])" "read_as ''{}'' (JObj [])"
proof -
  have s: "scan (CHR ''['' # cs) = (Begin_array, cs)" "scan (CHR '']'' # cs) = (End_array, cs)" "scan (CHR ''{'' # cs) = (Begin_object, cs)"
    "scan (CHR ''}'' # cs) = (End_object, cs)" for cs by (simp_all add: scan_def scan_at_def json_space_def)
  show "read_as ''[]'' (JArr [])" "read_as ''{}'' (JObj [])"
    by (simp_all add: read_as_def at_value_def s sax_parse_internal.simps(2) skip_token start_array_def start_object_def)
qed

section \<open>When \<open>dump\<close> throws\<close>

text \<open>
  The values that the types of \<^verbatim>\<open>basic_json\<close> allow: 64-bit integers, doubles, members sorted by their keys (as \<^verbatim>\<open>std::map\<close>
  keeps them).
\<close>

fun json_wf :: "json \<Rightarrow> bool" where
  "json_wf (JInt i) \<longleftrightarrow> int64_ok i"
| "json_wf (JFloat d) \<longleftrightarrow> dbl_wf d"
| "json_wf (JArr js) \<longleftrightarrow> list_all json_wf js"
| "json_wf (JObj kvs) \<longleftrightarrow> sorted_wrt (<) (map fst kvs) \<and> list_all (\<lambda>(k, v). json_wf v) kvs"
| "json_wf j \<longleftrightarrow> True"

lemma mapR_mapR: "mapR f (mapR g x) = mapR (\<lambda>a. f (g a)) x"
  by (cases x) simp_all

lemma utf8_run_316: "utf8_run st s = Inl e \<Longrightarrow> e = Json_type_error 316"
  by (induction st s rule: utf8_run.induct) (auto simp: Let_def split: if_splits)

lemma dump_escaped_loop_run: "mapR (\<lambda>t. ()) (dump_escaped_loop st cp s) = utf8_run st s"
  by (induction s arbitrary: st cp) (simp_all add: Let_def mapR_mapR)

lemma dump_escaped_run: "mapR (\<lambda>t. ()) (dump_escaped s) = utf8_run 0 s"
  by (simp add: dump_escaped_def dump_escaped_loop_run)

lemma dump_escaped_cases:
  obtains (ok) t where "dump_escaped s = Inr t" "utf8_ok s" | (bad) "dump_escaped s = Inl (Json_type_error 316)" "\<not> utf8_ok s"
proof (cases "dump_escaped s")
  case (Inl e)
  then have "utf8_run 0 s = Inl e" using dump_escaped_run [of s] by simp
  then show ?thesis using Inl bad utf8_run_316 by (auto simp: utf8_ok_def)
next
  case (Inr t)
  then show ?thesis using ok dump_escaped_run [of s] by (simp add: utf8_ok_def)
qed

lemma sequenceR_ok:
  assumes "\<And>x. x \<in> set xs \<Longrightarrow> if P x then \<exists>y. f x = Inr y else f x = Inl e"
  shows "if \<forall>x \<in> set xs. P x then \<exists>ys. sequenceR (map f xs) = Inr ys else sequenceR (map f xs) = Inl e"
  using assms
proof (induction xs)
  case (Cons x xs)
  then show ?case using Cons.prems [of x] by (cases "P x") (fastforce split: if_splits)+
qed simp

text \<open>\<^verbatim>\<open>dump\<close> fails with 316 exactly when some string is not valid UTF-8.\<close>

lemma dump_float_ok: "dbl_wf d \<Longrightarrow> \<exists>t. dump_float d = Inr t"
  by (metis dump_float_def to_chars_ok)

text \<open>Nothing else can fail if the doubles are doubles.\<close>

fun floats_wf :: "json \<Rightarrow> bool" where
  "floats_wf (JFloat d) \<longleftrightarrow> dbl_wf d"
| "floats_wf (JArr js) \<longleftrightarrow> list_all floats_wf js"
| "floats_wf (JObj kvs) \<longleftrightarrow> list_all (\<lambda>(k, v). floats_wf v) kvs"
| "floats_wf j \<longleftrightarrow> True"

lemma json_wf_floats: "json_wf j \<Longrightarrow> floats_wf j"
  by (induction j) (auto simp: list_all_iff)

lemma floats_wf_obj [simp]: "floats_wf (mk_obj kvs) \<longleftrightarrow> list_all (\<lambda>(k, v). floats_wf v) kvs"
  by (auto simp: mk_obj_def list_all_iff)

lemma plain_value_cases:
  "floats_wf j \<Longrightarrow> if dump_ok j then \<exists>t. plain_value step cur j = Inr t else plain_value step cur j = Inl (Json_type_error 316)"
proof (induction j arbitrary: cur)
  case (JStr s)
  show ?case by (cases rule: dump_escaped_cases [of s]) simp_all
next
  case (JArr js)
  let ?f = "\<lambda>j. mapR (\<lambda>t. plain_indent step cur @ t) (plain_value step (next_indent step cur) j)"
  have f: "if dump_ok j then \<exists>t. ?f j = Inr t else ?f j = Inl (Json_type_error 316)" if "j \<in> set js" for j
    using JArr.IH [OF that, of "next_indent step cur"] JArr.prems that by (auto simp: list_all_iff split: if_splits)
  then show ?case using sequenceR_ok [of js dump_ok ?f, OF f] by (cases "js = []") (auto split: if_splits)
next
  case (JObj kvs)
  let ?f = "\<lambda>(k, j). bindR (dump_escaped k) (\<lambda>kt. mapR (\<lambda>t. plain_indent step cur @ CHR 0x22 # kt @ colon_text step @ t)
    (plain_value step (next_indent step cur) j))"
  let ?ok = "\<lambda>kj. utf8_ok (fst kj) \<and> dump_ok (snd kj)"
  have f: "if ?ok kj then \<exists>t. ?f kj = Inr t else ?f kj = Inl (Json_type_error 316)" if "kj \<in> set kvs" for kj
  proof -
    have "floats_wf (snd kj)" using JObj.prems that by (auto simp: list_all_iff)
    then show ?thesis
      using JObj.IH [OF that, of "snd kj" "next_indent step cur"]
      by (cases rule: dump_escaped_cases [of "fst kj"]) (cases kj; auto split: if_splits)+
  qed
  have "dump_ok (JObj kvs) \<longleftrightarrow> (\<forall>kj \<in> set kvs. ?ok kj)"
    by (auto simp: dump_ok_def list_all_iff)
  then show ?case using sequenceR_ok [of kvs ?ok ?f, OF f] by (cases "kvs = []") (auto split: if_splits)
qed (use dump_float_ok in \<open>simp_all add: dump_ok_def\<close>)

text \<open>So \<open>strict_dump\<close> is this serializer, for the text it writes.\<close>

lemma json_dump_cases:
  "\<lbrakk>floats_wf j; indent_ok ind\<rbrakk>
    \<Longrightarrow> if dump_ok j then \<exists>t. json_dump ind j = Inr t else json_dump ind j = Inl (Json_type_error 316)"
  using plain_value_cases [of j "if 0 \<le> ind then Some (nat ind) else None" 0] by (simp add: json_dump_plain)

lemma dump_strict: "\<lbrakk>json_wf j; indent_ok ind\<rbrakk> \<Longrightarrow> json_dump ind j = strict_dump (\<lambda>j. projr (json_dump ind j)) j"
  using json_dump_cases [of j ind] json_wf_floats [of j] by (auto simp: strict_dump_def split: if_splits)

section \<open>Round trip\<close>

text \<open>A double that is not finite is written as null, so only values without such doubles are read back.\<close>

lemma sequenceR_all2: "sequenceR (map f xs) = Inr ys \<Longrightarrow> list_all2 (\<lambda>x y. f x = Inr y) xs ys"
  by (induction xs arbitrary: ys) (auto simp: bindR_eq_Inr)

lemma mapR_eq_Inr: "mapR f x = Inr b \<longleftrightarrow> (\<exists>a. x = Inr a \<and> b = f a)"
  by (auto simp: mapR_def bindR_eq_Inr)

lemma plain_indent_space: "list_all json_space (plain_indent step cur)"
  by (simp add: plain_indent_def split: option.splits)

lemma to_chars_float_text: "\<lbrakk>dbl_wf d; is_finite d; to_chars d = Inr t\<rbrakk> \<Longrightarrow> float_text t d"
  using to_chars_ok [of d] by auto

lemma dump_read_as: "\<lbrakk>json_wf j; json_finite j; plain_value step cur j = Inr t\<rbrakk> \<Longrightarrow> read_as t j"
proof (induction j arbitrary: cur t)
  case (JArr js)
  show ?case
  proof (cases "js = []")
    case False
    then obtain ts where ts: "t = open_text step (CHR ''['') @ join (comma_text step) ts @ plain_close step cur (CHR '']'')"
      "sequenceR (map (\<lambda>j. mapR (\<lambda>t. plain_indent step cur @ t) (plain_value step (next_indent step cur) j)) js) = Inr ts"
      using JArr.prems(3) by (auto simp: mapR_eq_Inr)
    have "list_all2 (\<lambda>j t. mapR (\<lambda>t. plain_indent step cur @ t) (plain_value step (next_indent step cur) j) = Inr t) js ts"
      by (rule sequenceR_all2 [OF ts(2)])
    then have "list_all2 (\<lambda>j t. read_as t j) js ts"
      by (rule list.rel_mono_strong) (use JArr.IH JArr.prems(1,2) in \<open>auto simp: mapR_eq_Inr list_all_iff intro!: read_as_spaces plain_indent_space\<close>)
    then have "list_all2 read_as ts js" by (simp add: list_all2_conv_all_nth)
    moreover have "ts \<noteq> []" using False calculation by auto
    ultimately show ?thesis using read_as_array ts(1) by simp
  qed (use JArr.prems read_as_empty in auto)
next
  case (JObj kvs)
  show ?case
  proof (cases "kvs = []")
    case False
    let ?f = "\<lambda>(k, j). bindR (dump_escaped k) (\<lambda>kt. mapR (\<lambda>t. plain_indent step cur @ CHR 0x22 # kt @ colon_text step @ t)
      (plain_value step (next_indent step cur) j))"
    obtain ts where ts: "t = open_text step (CHR ''{'') @ join (comma_text step) ts @ plain_close step cur (CHR ''}'')"
      "sequenceR (map ?f kvs) = Inr ts" using JObj.prems(3) False by (auto simp: mapR_eq_Inr)
    have "list_all2 (\<lambda>kv t. ?f kv = Inr t) kvs ts" by (rule sequenceR_all2 [OF ts(2)])
    then have "list_all2 (\<lambda>kv t. member_read_as step cur t kv) kvs ts"
    proof (rule list.rel_mono_strong)
      fix kv t
      assume kv: "kv \<in> set kvs" and "?f kv = Inr t"
      then obtain kt t' where "dump_escaped (fst kv) = Inr kt" "plain_value step (next_indent step cur) (snd kv) = Inr t'"
        "t = member_text step cur kt t'" by (auto simp: bindR_eq_Inr mapR_eq_Inr member_text_def split: prod.splits)
      moreover have "json_wf (snd kv)" "json_finite (snd kv)" using JObj.prems(1,2) kv by (auto simp: list_all_iff)
      ultimately show "member_read_as step cur t kv"
        using JObj.IH [OF kv, of "snd kv"] by (cases kv) (auto simp: member_read_as_def)
    qed
    then have "list_all2 (member_read_as step cur) ts kvs" by (simp add: list_all2_conv_all_nth)
    moreover have "ts \<noteq> []" using False calculation by auto
    ultimately show ?thesis using read_as_object JObj.prems(1) ts(1) by simp
  qed (use JObj.prems read_as_empty in auto)
qed (auto simp: mapR_eq_Inr dump_float_def intro: read_as_literals read_as_int read_as_float read_as_string to_chars_float_text)


text \<open>No text starts with a byte order mark: its first byte is ASCII.\<close>

lemma digit_byte: "isdigit c \<Longrightarrow> byte c < 0x80"
  using of_char_range [of c] by (auto simp: isdigit_def schar_def Let_def split: if_splits)

lemma dump_integer_first: "dump_integer i \<noteq> [] \<and> byte (hd (dump_integer i)) < 0x80"
  using dump_digits_value [of i] dump_digits_value [of "- i"] digit_byte by (auto simp: dump_integer_def digit19_def)

lemma dump_first:
  assumes "json_wf j" and "json_finite j" and "plain_value step cur j = Inr t"
  shows "t \<noteq> [] \<and> byte (hd t) < 0x80"
proof (cases j)
  case (JFloat d)
  then have "float_text t d" using assms to_chars_float_text by (simp add: dump_float_def)
  then show ?thesis using digit_byte by (auto simp: float_text_def)
qed (use assms dump_integer_first in \<open>auto simp: mapR_eq_Inr open_text_def split: if_splits option.splits\<close>)

lemma dump_no_bom: "\<lbrakk>json_wf j; json_finite j; plain_value step cur j = Inr t\<rbrakk> \<Longrightarrow> scan_first t = scan t"
  using dump_first [of j step cur t] by (auto simp: scan_first_def skip_bom_def)

lemma json_roundtrip:
  assumes "json_wf j" and "json_finite j" and "dump_ok j" and "indent_ok ind"
  shows "\<exists>t. json_dump ind j = Inr t \<and> json_parse strict t = Inr j"
proof -
  let ?step = "if 0 \<le> ind then Some (nat ind) else None"
  obtain t where t: "plain_value ?step 0 j = Inr t" using plain_value_cases [OF json_wf_floats [OF assms(1)], of ?step 0] assms(3) by auto
  have read: "read_as t j" by (rule dump_read_as [OF assms(1,2) t])
  have "scan t = scan_first t" by (rule dump_no_bom [OF assms(1,2) t, symmetric])
  moreover have "at_value t [] ([], JNull) = Inr (([], j), [])"
    using read [unfolded read_as_def, rule_format, of "[]" "[]" "([], JNull)"] by (simp add: number_end_def after_value_Nil)
  moreover have "fst (scan []) = End_of_input" by (simp add: scan_def)
  ultimately show ?thesis using t json_dump_plain [OF assms(4)] by (auto simp: json_parse_def at_value_def split: prod.splits)
qed

text \<open>
  C13. Parsing what the serializer wrote gives the value back. \<^verbatim>\<open>dump\<close> succeeds for every value whose strings are
  valid UTF-8, compact or with an indentation up to 1024 (for which the serializer's buffer of blanks has room), and \<^verbatim>\<open>parse\<close>, strict or not, reads the value from the text,
  for 64-bit integers, finite doubles (whose texts Grisu2 computes) and members sorted by key.
\<close>

theorem json_text_roundtrip:
  assumes "json_wf j" and "json_finite j" and "dump_ok j" and "indent_ok ind"
  shows "\<exists>t. json_dump ind j = Inr t \<and> json_parse strict t = Inr j"
  by (rule json_roundtrip [OF assms])

text \<open>The example: an object with a string that needs escapes and a two-byte character, a number, an array.\<close>

definition demo_json :: json where
  "demo_json = JObj [(''key'', JStr [CHR ''a'', CHR 0x0A, CHR 0x22, CHR 0xC3, CHR 0xA9]), (''list'', JArr [JInt (- 17), JNull, JObj []]),
     (''score'', JFloat (dbl_lit 3 2))]"

theorem json_text_roundtrip_witness:
  "\<exists>t. json_dump 2 demo_json = Inr t \<and> json_parse True t = Inr demo_json"
proof (rule json_text_roundtrip)
  have "dbl_wf (dbl_lit 3 2)" "is_finite (dbl_lit 3 2)" by code_simp+
  then show "json_wf demo_json" "json_finite demo_json" by (simp_all add: demo_json_def int64_ok_def)
  have "utf8_ok ''key''" "utf8_ok ''list''" "utf8_ok ''score''" "utf8_ok [CHR ''a'', CHR 0x0A, CHR 0x22, CHR 0xC3, CHR 0xA9]"
    unfolding utf8_ok_def by code_simp+
  then show "dump_ok demo_json" by (simp add: demo_json_def dump_ok_def)
  show "indent_ok 2" by code_simp
qed

end
