(* ===== verification/Server.thy ===== *)
theory Server
  imports Checkpoint Worker Kasiski Json_Parser
begin

text \<open>
  The coordinator server's work on tasks: \<^verbatim>\<open>src/WorkerSession.cpp\<close>, \<^verbatim>\<open>src/ClientSession.cpp\<close> and the
  task side of \<^verbatim>\<open>src/CoordServ.cpp\<close> (accepting workers and clients, starting a task, results, timeouts,
  checkpoints). The server is one thread: each handler below runs to its first suspension, a write on a
  socket, without interruption, and a coroutine started with \<^verbatim>\<open>co_spawn\<close> runs up to there at once. What is
  written is collected in \<open>sv_sent\<close>.

  A handler that ends in an exception returns it beside the state it left; the caller drops it
  (\<^verbatim>\<open>asio::detached\<close>) or handles it (the read loops).
\<close>

section \<open>State\<close>

record WorkerSession =
  ws_current_unit_index :: "nat option"
  ws_text_sent :: bool

definition new_WorkerSession :: WorkerSession where
  "new_WorkerSession = \<lparr>ws_current_unit_index = None, ws_text_sent = False\<rparr>"

definition is_free :: "WorkerSession \<Rightarrow> bool" where
  "is_free ws \<longleftrightarrow> ws_current_unit_index ws = None"

record ClientSession =
  cs_current_cipher :: CipherType

datatype sent = To_worker worker_id Message | To_client Message

record Server =
  sv_workers :: "worker_id list"
  sv_sessions :: "worker_id \<Rightarrow> WorkerSession"
  sv_client :: "ClientSession option"
  sv_coordinator :: "Coordinator option"
  sv_full_ciphertext :: string
  sv_cipher_type :: CipherType
  sv_is_subtask :: bool
  sv_checkpoint_path :: string
  sv_last_checkpoint_done :: nat
  sv_files :: files
  sv_sent :: "sent list"

definition new_Server :: "string \<Rightarrow> files \<Rightarrow> Server" where
  "new_Server path fs = \<lparr>sv_workers = [], sv_sessions = (\<lambda>w. new_WorkerSession), sv_client = None,
     sv_coordinator = None, sv_full_ciphertext = [], sv_cipher_type = CIPHER_UNKNOWN, sv_is_subtask = False,
     sv_checkpoint_path = path, sv_last_checkpoint_done = 0, sv_files = fs, sv_sent = []\<rparr>"

definition upd_session :: "worker_id \<Rightarrow> (WorkerSession \<Rightarrow> WorkerSession) \<Rightarrow> Server \<Rightarrow> Server" where
  "upd_session w f s = s\<lparr>sv_sessions := (sv_sessions s)(w := f (sv_sessions s w))\<rparr>"

definition emit :: "sent \<Rightarrow> Server \<Rightarrow> Server" where
  "emit x s = s\<lparr>sv_sent := sv_sent s @ [x]\<rparr>"

section \<open>Worker sessions\<close>

text \<open>\<^verbatim>\<open>WorkerSession::send_unit\<close>: the text goes out once per session and task.\<close>

definition send_unit :: "nat \<Rightarrow> worker_id \<Rightarrow> Server \<Rightarrow> cpp_error option \<times> Server" where
  "send_unit i w s =
     (let s1 = upd_session w (\<lambda>ws. ws\<lparr>ws_current_unit_index := Some i\<rparr>) s in
      case sv_coordinator s of None \<Rightarrow> (Some Null_dereference, s1)
      | Some c \<Rightarrow>
     (case get_unit i c of Inl e \<Rightarrow> (Some e, s1)
      | Inr u \<Rightarrow>
          let ts = (if ws_text_sent (sv_sessions s w) then [] else get_text (c_message c));
              s2 = upd_session w (\<lambda>ws. ws\<lparr>ws_text_sent := True\<rparr>) s1
          in case bindR (encode_key (m_cipher u) (m_key_length u) (m_start u)) (\<lambda>sk.
                  bindR (encode_key (m_cipher u) (m_key_length u) (m_end u)) (\<lambda>ek. Inr (sk, ek))) of
               Inl e \<Rightarrow> (Some e, s2)
             | Inr (sk, ek) \<Rightarrow>
                 (None, emit (To_worker w (create_decrypt_request (PDecrypt
                   \<lparr>dp_cipher = m_cipher u, dp_mode = m_mode u, dp_cipher_text = ts, dp_noise = m_noise u,
                    dp_start_key = sk, dp_end_key = ek, dp_key_length = m_key_length u\<rparr>))) s2)))"

text \<open>\<^verbatim>\<open>co_spawn\<close> of \<^verbatim>\<open>Coordinator::assign_to_worker\<close>, detached.\<close>

definition spawn_assign :: "worker_id \<Rightarrow> time_point \<Rightarrow> Server \<Rightarrow> Server res" where
  "spawn_assign w now s =
     (case sv_coordinator s of None \<Rightarrow> Inl Null_dereference
      | Some c \<Rightarrow>
     (case assign_to_worker w now c of
        (None, c') \<Rightarrow> Inr (s\<lparr>sv_coordinator := Some c'\<rparr>)
      | (Some i, c') \<Rightarrow>
     (case send_unit i w (s\<lparr>sv_coordinator := Some c'\<rparr>) of
        (None, s') \<Rightarrow> Inr s'
      | (Some e, s') \<Rightarrow> if is_exception e then Inr s' else Inl e)))"

definition add_worker :: "worker_id \<Rightarrow> time_point \<Rightarrow> Server \<Rightarrow> Server res" where
  "add_worker w now s =
     (let s1 = s\<lparr>sv_workers := sv_workers s @ [w], sv_sessions := (sv_sessions s)(w := new_WorkerSession)\<rparr> in
      case sv_coordinator s of
        Some c \<Rightarrow> if has_unassigned_units c then spawn_assign w now s1 else Inr s1
      | None \<Rightarrow> Inr s1)"

definition remove_worker :: "worker_id \<Rightarrow> Server \<Rightarrow> Server" where
  "remove_worker w s = s\<lparr>sv_workers := remove1 w (sv_workers s)\<rparr>"

section \<open>Results\<close>

text \<open>
  \<^verbatim>\<open>ClientSession::send_final_result\<close>: building and serialising the message is inside the \<^verbatim>\<open>try\<close>, so if \<^verbatim>\<open>dump\<close> throws
  nothing is sent and the failure is only logged. No field of this message is sent in Base64.
\<close>

definition send_final_result :: "int \<Rightarrow> ClientSession \<Rightarrow> Result \<Rightarrow> Server \<Rightarrow> cpp_error option \<times> Server" where
  "send_final_result junk cl r s =
     (let msg = create_status_response (PStatus (new_StatusPayload junk (cs_current_cipher cl) (res_text r) (res_key r) (res_score r)))
      in case send_message (\<lambda>d. d) (json_dump (-1)) msg of
           Inl e \<Rightarrow> if is_exception e then (None, s) else (Some e, s)
         | Inr bytes \<Rightarrow> (None, emit (To_client msg) s))"

definition send_result_to_client :: "int \<Rightarrow> Result \<Rightarrow> Server \<Rightarrow> cpp_error option \<times> Server" where
  "send_result_to_client junk r s =
     (case sv_client s of None \<Rightarrow> (None, s)
      | Some cl \<Rightarrow>
          let msg = (if sv_cipher_type s = CAESAR then CaesarEncryptedMessage (sv_full_ciphertext s)
                     else VigenereEncryptedMessage (sv_full_ciphertext s))
          in case decrypt msg (res_key r) of
               Inl e \<Rightarrow> (Some e, s)
             | Inr t \<Rightarrow> send_final_result junk cl (r\<lparr>res_text := t\<rparr>) s)"

text \<open>\<^verbatim>\<open>WorkerSession::handle_message\<close>.\<close>

definition handle_status :: "int \<Rightarrow> StatusPayload \<Rightarrow> worker_id \<Rightarrow> time_point \<Rightarrow> Server \<Rightarrow> cpp_error option \<times> Server" where
  "handle_status junk p w now s =
     (case sv_coordinator s of None \<Rightarrow> (Some Null_dereference, s)
      | Some c \<Rightarrow>
          let cand = \<lparr>res_key = st_key p, res_score = st_score p, res_text = st_cipher_text p\<rparr>;
              c1 = cand_to_best cand c;
              s1 = s\<lparr>sv_coordinator := Some c1\<rparr>
          in case ws_current_unit_index (sv_sessions s w) of
               None \<Rightarrow> (Some Bad_optional_access, s1)
             | Some i \<Rightarrow>
                 (case mark_unit_done i c1 of
                    Inl e \<Rightarrow> (Some e, s1)
                  | Inr (b, c2) \<Rightarrow>
                      let s2 = upd_session w (\<lambda>ws. ws\<lparr>ws_current_unit_index := None\<rparr>) (s\<lparr>sv_coordinator := Some c2\<rparr>)
                      in if all_units_done c2
                         then if sv_is_subtask s2 then (None, s2)
                              else send_result_to_client junk (c_best_result c2) s2
                         else if has_unassigned_units c2
                         then (case spawn_assign w now s2 of Inl e \<Rightarrow> (Some e, s2) | Inr s3 \<Rightarrow> (None, s3))
                         else (None, s2)))"

definition worker_message :: "int \<Rightarrow> Message \<Rightarrow> worker_id \<Rightarrow> time_point \<Rightarrow> Server \<Rightarrow> cpp_error option \<times> Server" where
  "worker_message junk m w now s =
     (if msg_type m = REQUEST \<and> msg_action m = STATUS
      then case msg_payload m of Some (PStatus p) \<Rightarrow> handle_status junk p w now s | _ \<Rightarrow> (None, s)
      else (None, s))"

text \<open>One round of \<^verbatim>\<open>WorkerSession::read_loop\<close>: an exception removes the worker.\<close>

definition worker_read :: "int \<Rightarrow> Message \<Rightarrow> worker_id \<Rightarrow> time_point \<Rightarrow> Server \<Rightarrow> Server res" where
  "worker_read junk m w now s =
     (case worker_message junk m w now s of
        (None, s') \<Rightarrow> Inr s'
      | (Some e, s') \<Rightarrow> if is_exception e then Inr (remove_worker w s') else Inl e)"

section \<open>Tasks\<close>

fun assign_all :: "worker_id list \<Rightarrow> time_point \<Rightarrow> Server \<Rightarrow> Server res" where
  "assign_all [] now s = Inr s"
| "assign_all (w # ws) now s =
     bindR (spawn_assign w now (upd_session w (\<lambda>x. x\<lparr>ws_text_sent := False\<rparr>) s)) (\<lambda>s'. assign_all ws now s')"

text \<open>\<^verbatim>\<open>set_task\<close>; \<open>None\<close> means that constructing the coordinator does not end.\<close>

definition set_task ::
    "(string \<Rightarrow> json res) \<Rightarrow> int \<Rightarrow> EncryptedMessage \<Rightarrow> StaticPolicy \<Rightarrow> VigenereMode \<Rightarrow> time_point \<Rightarrow> Server
     \<Rightarrow> (cpp_error option \<times> Server) option" where
  "set_task parse junk msg pol mode now s =
     (case new_Coordinator msg pol of None \<Rightarrow> None
      | Some (Inl e) \<Rightarrow> Some (Some e, s)
      | Some (Inr c0) \<Rightarrow>
     (case load_checkpoint parse (sv_checkpoint_path s) (get_text msg) (sv_files s) (set_mode mode c0) of
        Inl e \<Rightarrow> Some (Some e, s\<lparr>sv_coordinator := Some (set_mode mode c0)\<rparr>)
      | Inr (loaded, c) \<Rightarrow>
          let s1 = s\<lparr>sv_coordinator := Some c,
                     sv_last_checkpoint_done := (if loaded then c_done_count c else 0)\<rparr>
          in if all_units_done c then Some (send_result_to_client junk (c_best_result c) s1)
             else Some (case assign_all (sv_workers s1) now s1 of Inl e \<Rightarrow> (Some e, s1) | Inr s2 \<Rightarrow> (None, s2))))"

text \<open>The first 1000 letters of a text with what stands between them.\<close>

fun crop_loop :: "nat \<Rightarrow> string \<Rightarrow> string" where
  "crop_loop n [] = []"
| "crop_loop n (c # cs) =
     (if isalpha c then if n + 1 = 1000 then [c] else c # crop_loop (n + 1) cs else c # crop_loop n cs)"

definition crop_text :: "string \<Rightarrow> string" where
  "crop_text t = crop_loop 0 t"

text \<open>\<^verbatim>\<open>std::pow(26, key_len)\<close> converted to \<^verbatim>\<open>int\<close>; powers of 26 up to the 11th are exact doubles.\<close>

definition key_space :: "int \<Rightarrow> int res" where
  "key_space key_len = dbl_to_int (dbl_of_int (26 ^ nat key_len))"

definition choose_key_length :: "((nat \<times> nat) list \<Rightarrow> (nat \<times> nat) list) \<Rightarrow> string \<Rightarrow> int \<Rightarrow> int res" where
  "choose_key_length srt ciphertext key_len =
     (if key_len < 1 \<or> 7 < key_len then mapR int (guessKeyLength srt ciphertext 2 7) else Inr key_len)"

text \<open>\<^verbatim>\<open>ClientSession::handle_task_request\<close> for a DECRYPT request of the current client.\<close>

definition handle_task ::
    "((nat \<times> nat) list \<Rightarrow> (nat \<times> nat) list) \<Rightarrow> (string \<Rightarrow> json res) \<Rightarrow> int \<Rightarrow> DecryptPayload \<Rightarrow> time_point \<Rightarrow> Server
     \<Rightarrow> (cpp_error option \<times> Server) option" where
  "handle_task srt parse junk p now s0 =
     (let s = s0\<lparr>sv_client := map_option (\<lambda>cl. cl\<lparr>cs_current_cipher := dp_cipher p\<rparr>) (sv_client s0),
                 sv_full_ciphertext := dp_cipher_text p, sv_cipher_type := dp_cipher p\<rparr>
      in if dp_cipher p = CAESAR then
           set_task parse junk (CaesarEncryptedMessage (dp_cipher_text p))
             (new_StaticPolicy 26 5 (dp_noise p) CAESAR (dp_mode p) 1) (dp_mode p) now s
         else if dp_cipher p = VIGENERE then
           (let ts = (if dp_mode p = FAST then crop_text (dp_cipher_text p) else dp_cipher_text p) in
            case bindR (choose_key_length srt (dp_cipher_text p) (dp_key_length p)) (\<lambda>key_len.
                 mapR (\<lambda>tot. (key_len, tot)) (key_space key_len)) of
              Inl e \<Rightarrow> Some (Some e, s)
            | Inr (key_len, tot) \<Rightarrow>
                set_task parse junk (VigenereEncryptedMessage ts)
                  (new_StaticPolicy tot 10000 (dp_noise p) VIGENERE (dp_mode p) key_len) (dp_mode p) now s)
         else Some (None, s))"

definition handle_task_request ::
    "((nat \<times> nat) list \<Rightarrow> (nat \<times> nat) list) \<Rightarrow> (string \<Rightarrow> json res) \<Rightarrow> int \<Rightarrow> Message \<Rightarrow> time_point \<Rightarrow> Server
     \<Rightarrow> (cpp_error option \<times> Server) option" where
  "handle_task_request srt parse junk m now s =
     (if msg_type m = REQUEST \<and> msg_action m = DECRYPT
      then case msg_payload m of Some (PDecrypt p) \<Rightarrow> handle_task srt parse junk p now s | _ \<Rightarrow> Some (None, s)
      else Some (None, s))"

text \<open>One round of \<^verbatim>\<open>client_accept_loop\<close>: a client is turned away while a task is running.\<close>

definition is_busy :: "Server \<Rightarrow> bool" where
  "is_busy s \<longleftrightarrow> sv_client s \<noteq> None
     \<and> (case sv_coordinator s of None \<Rightarrow> False | Some c \<Rightarrow> \<not> all_units_done c)"

definition accept_client :: "Server \<Rightarrow> bool \<times> Server" where
  "accept_client s =
     (if is_busy s then (False, s) else (True, s\<lparr>sv_client := Some \<lparr>cs_current_cipher = CIPHER_UNKNOWN\<rparr>\<rparr>))"

text \<open>\<^verbatim>\<open>ClientSession::read_loop\<close> on the one message it reads; exceptions are logged.\<close>

definition client_read ::
    "((nat \<times> nat) list \<Rightarrow> (nat \<times> nat) list) \<Rightarrow> (string \<Rightarrow> json res) \<Rightarrow> int \<Rightarrow> Message res \<Rightarrow> time_point \<Rightarrow> Server
     \<Rightarrow> Server res option" where
  "client_read srt parse junk r now s =
     (case r of
        Inl e \<Rightarrow> Some (if is_exception e then Inr s else Inl e)
      | Inr m \<Rightarrow>
          map_option (\<lambda>(err, s'). case err of None \<Rightarrow> Inr s' | Some e \<Rightarrow> if is_exception e then Inr s' else Inl e)
            (handle_task_request srt parse junk m now s))"

text \<open>
  One round of \<^verbatim>\<open>worker_accept_loop\<close>: the flag says whether the loop goes on. After a failed accept it ends
  if the acceptor is closed.
\<close>

definition accept_worker :: "bool \<Rightarrow> bool \<Rightarrow> worker_id \<Rightarrow> time_point \<Rightarrow> Server \<Rightarrow> (bool \<times> Server) res" where
  "accept_worker accepted is_open w now s =
     (if accepted then mapR (\<lambda>s'. (True, s')) (add_worker w now s) else Inr (is_open, s))"

section \<open>Timeouts\<close>

fun assign_free :: "worker_id list \<Rightarrow> time_point \<Rightarrow> Server \<Rightarrow> Server res" where
  "assign_free [] now s = Inr s"
| "assign_free (w # ws) now s =
     bindR (if is_free (sv_sessions s w) then spawn_assign w now s else Inr s) (\<lambda>s'. assign_free ws now s')"

definition handle_timeout :: "nat \<Rightarrow> time_point \<Rightarrow> Server \<Rightarrow> Server res" where
  "handle_timeout i now s =
     (case sv_coordinator s of None \<Rightarrow> Inr s
      | Some c \<Rightarrow>
          bindR (mark_as_unassigned_by_index i c) (\<lambda>c'.
          case c_pending_units c' i of
            None \<Rightarrow> Inl Null_dereference
          | Some pu \<Rightarrow>
              let s1 = remove_worker (pu_worker pu) (s\<lparr>sv_coordinator := Some c'\<rparr>)
              in assign_free (sv_workers s1) now s1))"

definition erase_pending :: "nat \<Rightarrow> Server \<Rightarrow> Server" where
  "erase_pending i s = s\<lparr>sv_coordinator :=
     map_option (\<lambda>c. c\<lparr>c_pending_units := (c_pending_units c)(i := None)\<rparr>) (sv_coordinator s)\<rparr>"

text \<open>
  The loop of \<^verbatim>\<open>check_timeouts\<close> over the entries of the hash table, in the order \<open>is\<close> of the table.
  An entry that is added on the way carries the current time, so visiting it changes nothing.
\<close>

fun expire_loop :: "nat list \<Rightarrow> time_point \<Rightarrow> Server \<Rightarrow> Server res" where
  "expire_loop [] now s = Inr s"
| "expire_loop (i # is) now s =
     (case Option.bind (sv_coordinator s) (\<lambda>c. c_pending_units c i) of
        None \<Rightarrow> expire_loop is now s
      | Some pu \<Rightarrow>
          if now - pu_start_time pu \<ge> UNIT_TIMEOUT
          then bindR (handle_timeout i now s) (\<lambda>s'. expire_loop is now (erase_pending i s'))
          else expire_loop is now s)"

definition CHECKPOINT_EVERY_N_UNITS :: nat where "CHECKPOINT_EVERY_N_UNITS = 5"

text \<open>The difference of the counters is unsigned.\<close>

definition should_save :: "nat \<Rightarrow> Coordinator \<Rightarrow> bool" where
  "should_save last_done c \<longleftrightarrow>
     int CHECKPOINT_EVERY_N_UNITS \<le> (int (c_done_count c) - int last_done) mod 2 ^ 64
     \<or> (all_units_done c \<and> last_done < c_done_count c)"

definition maybe_save_checkpoint :: "(json \<Rightarrow> string res) \<Rightarrow> disk_io \<Rightarrow> Server \<Rightarrow> cpp_error option \<times> Server" where
  "maybe_save_checkpoint dump io s =
     (case sv_coordinator s of None \<Rightarrow> (None, s)
      | Some c \<Rightarrow>
          if should_save (sv_last_checkpoint_done s) c
          then (case save_checkpoint dump io (sv_checkpoint_path s) c (sv_files s) of
                  (Inl e, fs) \<Rightarrow> (Some e, s\<lparr>sv_files := fs\<rparr>)
                | (Inr x, fs) \<Rightarrow> (None, s\<lparr>sv_files := fs, sv_last_checkpoint_done := c_done_count c\<rparr>))
          else (None, s))"

text \<open>A failure of the timer handler leaves \<^verbatim>\<open>io_context::run\<close>: the server ends.\<close>

definition check_timeouts ::
    "(json \<Rightarrow> string res) \<Rightarrow> disk_io \<Rightarrow> nat list \<Rightarrow> time_point \<Rightarrow> Server \<Rightarrow> Server res" where
  "check_timeouts dump io is now s =
     bindR (expire_loop is now s) (\<lambda>s'.
     case maybe_save_checkpoint dump io s' of (None, s'') \<Rightarrow> Inr s'' | (Some e, s'') \<Rightarrow> Inl e)"

section \<open>The text that is searched in the fast mode\<close>

lemma crop_loop_prefix: "\<exists>r. t = crop_loop n t @ r"
  by (induction t arbitrary: n) auto

lemma crop_loop_letters:
  "n < 1000 \<Longrightarrow> length (filter isalpha (crop_loop n t)) = min (1000 - n) (length (filter isalpha t))"
proof (induction t arbitrary: n)
  case (Cons c cs)
  show ?case
  proof (cases "isalpha c \<and> n + 1 \<noteq> 1000")
    case True
    then show ?thesis using Cons.IH [of "n + 1"] Cons.prems by auto
  next
    case False
    then show ?thesis using Cons.IH [of n] Cons.prems by (auto simp: min_def)
  qed
qed simp

lemma crop_loop_short: "n + length (filter isalpha t) < 1000 \<Longrightarrow> crop_loop n t = t"
  by (induction t arbitrary: n) auto

section \<open>Timeouts\<close>

text \<open>The server's fields that sending a unit does not touch.\<close>

lemma send_unit_ok:
  assumes "sv_coordinator s = Some c" and "i < length (c_units c)" and "unit_sound (c_units c ! i)"
  shows "\<exists>s'. send_unit i w s = (None, s') \<and> sv_coordinator s' = Some c"
proof -
  have "\<exists>k. encode_key (m_cipher (c_units c ! i)) (m_key_length (c_units c ! i)) x = Inr k" for x
    using assms(3) by (auto simp: encode_key_def unit_sound_def)
  then obtain sk ek where "encode_key (m_cipher (c_units c ! i)) (m_key_length (c_units c ! i)) (m_start (c_units c ! i)) = Inr sk"
    "encode_key (m_cipher (c_units c ! i)) (m_key_length (c_units c ! i)) (m_end (c_units c ! i)) = Inr ek" by metis
  then show ?thesis using assms(1,2) by (simp add: send_unit_def get_unit_def Let_def upd_session_def emit_def)
qed

lemma assign_free_no_unit:
  assumes "sv_coordinator s = Some c" and "\<forall>u \<in> set (c_units c). m_status u \<noteq> Unassigned"
  shows "assign_free ws now s = Inr s"
proof -
  have "first_unassigned 0 (c_units c) = None" using assms(2) by (simp add: first_unassigned_None)
  then have "spawn_assign w now s = Inr s" for w
    using assms(1) by (cases s) (simp add: spawn_assign_def assign_to_worker_def)
  then show ?thesis by (induction ws) simp_all
qed

lemma first_unassigned_single:
  assumes "i < length us" and "\<forall>j < length us. m_status (us ! j) = Unassigned \<longleftrightarrow> j = i"
  shows "first_unassigned 0 us = Some i"
proof (cases "first_unassigned 0 us")
  case None
  then show ?thesis using assms first_unassigned_None [of 0 us] by (metis nth_mem)
next
  case (Some j)
  then show ?thesis using first_unassigned_0 [OF Some] assms by auto
qed

section \<open>Results that can be sent\<close>

text \<open>A STATUS message can be serialised exactly if its text and key are valid UTF-8.\<close>

lemma status_sent:
  assumes "dbl_wf score"
  shows "if utf8_ok text \<and> utf8_ok key
    then \<exists>bs. send_message w (json_dump (-1)) (mk_Message ty STATUS (PStatus (new_StatusPayload junk c text key score))) = Inr bs
    else send_message w (json_dump (-1)) (mk_Message ty STATUS (PStatus (new_StatusPayload junk c text key score)))
      = Inl (Json_type_error 316)"
proof -
  let ?m = "mk_Message ty STATUS (PStatus (new_StatusPayload junk c text key score))"
  obtain j where j: "message_to_json w ?m = Inr j" "floats_wf j" "dump_ok j \<longleftrightarrow> utf8_ok text \<and> utf8_ok key"
    using assms by (simp add: message_to_json_def mk_Message_def status_to_json_def new_StatusPayload_def utf8_ok_fields utf8_ok_keys)
  then show ?thesis using json_dump_cases [OF j(2) indent_ok_small(1)]
    by (auto simp: send_message_eq split: if_splits)
qed

definition final_message :: "int \<Rightarrow> ClientSession \<Rightarrow> Result \<Rightarrow> Message" where
  "final_message junk cl r =
     create_status_response (PStatus (new_StatusPayload junk (cs_current_cipher cl) (res_text r) (res_key r) (res_score r)))"

lemma send_final_cases:
  assumes "dbl_wf (res_score r)"
  shows "send_final_result junk cl r s
    = (None, if utf8_ok (res_text r) \<and> utf8_ok (res_key r) then emit (To_client (final_message junk cl r)) s else s)"
  using status_sent [OF assms, of "res_text r" "res_key r" "\<lambda>d. d" RESPONSE junk "cs_current_cipher cl"]
  by (auto simp: send_final_result_def final_message_def create_status_response_def Let_def split: if_splits)

section \<open>Properties\<close>

text \<open>C27. A unit that times out while another worker is free is given to that worker at once, and then its
  new entry in the table of pending units is erased with the old one: the unit is leased and not
  pending, so it will never time out again.\<close>

theorem timeout_loses_track:
  assumes c: "sv_coordinator s = Some c" "\<not> c_solved c" and i: "i < length (c_units c)" "unit_sound (c_units c ! i)"
    and pu: "c_pending_units c i = Some pu" "UNIT_TIMEOUT \<le> now - pu_start_time pu"
    and none: "\<forall>u \<in> set (c_units c). m_status u \<noteq> Unassigned"
    and v: "remove1 (pu_worker pu) (sv_workers s) = v # vs" "is_free (sv_sessions s v)"
  shows "\<exists>s' c'. expire_loop [i] now s = Inr s' \<and> sv_coordinator s' = Some c'
    \<and> m_status (c_units c' ! i) = Leased \<and> c_pending_units c' i = None"
proof -
  let ?us = "(c_units c)[i := mark_as_unassigned (c_units c ! i)]"
  let ?c1 = "c\<lparr>c_units := ?us\<rparr>"
  let ?s1 = "remove_worker (pu_worker pu) (s\<lparr>sv_coordinator := Some ?c1\<rparr>)"
  let ?c2 = "?c1\<lparr>c_units := ?us[i := mark_as_leased (?us ! i)],
    c_pending_units := (c_pending_units c)(i \<mapsto> \<lparr>pu_worker = v, pu_start_time = now\<rparr>)\<rparr>"
  have "\<forall>j < length ?us. m_status (?us ! j) = Unassigned \<longleftrightarrow> j = i"
    using none i(1) by (auto simp: nth_list_update)
  then have "first_unassigned 0 ?us = Some i" using i(1) first_unassigned_single [of i ?us] by simp
  then have a: "assign_to_worker v now ?c1 = (Some i, ?c2)" using c(2) by (simp add: assign_to_worker_def)
  have "unit_sound (c_units ?c2 ! i)" using i by (simp add: unit_sound_def mark_as_leased_def mark_as_unassigned_def)
  then obtain s2 where s2: "send_unit i v (?s1\<lparr>sv_coordinator := Some ?c2\<rparr>) = (None, s2)" "sv_coordinator s2 = Some ?c2"
    using send_unit_ok [of "?s1\<lparr>sv_coordinator := Some ?c2\<rparr>" ?c2 i v] i(1) by auto
  then have "spawn_assign v now ?s1 = Inr s2" using a by (simp add: spawn_assign_def remove_worker_def)
  moreover have "\<forall>u \<in> set (c_units ?c2). m_status u \<noteq> Unassigned"
    using none by (auto dest!: set_update_subset_insert [THEN subsetD])
  then have "assign_free vs now s2 = Inr s2" using assign_free_no_unit [OF s2(2)] by simp
  moreover have "sv_sessions ?s1 = sv_sessions s" "sv_workers ?s1 = v # vs" using v(1) by (simp_all add: remove_worker_def)
  ultimately have "handle_timeout i now s = Inr s2"
    using c(1) i(1) pu(1) v(2) by (simp add: handle_timeout_def mark_as_unassigned_by_index_def Let_def)
  then have "expire_loop [i] now s = Inr (erase_pending i s2)" using c(1) pu by simp
  then show ?thesis using s2(2) i(1) by (simp add: erase_pending_def)
qed

text \<open>The example: unit 1 is the last one open, worker 7 holds it and worker 8 waits.\<close>

theorem timeout_loses_track_witness:
  "\<exists>s' c'. expire_loop [1] UNIT_TIMEOUT ((new_Server ''cp'' Map.empty)\<lparr>sv_workers := [7, 8], sv_coordinator := Some demo\<rparr>)
      = Inr s' \<and> sv_coordinator s' = Some c' \<and> m_status (c_units c' ! 1) = Leased \<and> c_pending_units c' 1 = None"
  by (rule timeout_loses_track [where c = demo and pu = "\<lparr>pu_worker = 7, pu_start_time = 0\<rparr>" and v = 8 and vs = "[]"])
    (simp_all add: demo_def new_Server_def is_free_def new_WorkerSession_def unit_sound_def new_Unit_def mark_as_leased_def
      mark_as_done_def int_ok_def INT_MIN_def INT_MAX_def)

text \<open>C23. The report that finishes the last unit makes the server send the client one STATUS response with the
  best key and score and the whole ciphertext decrypted with that key, also in the fast mode, where only
  the beginning of the text was searched, provided that this text and the key are valid UTF-8. If they are not,
  the message cannot be serialised, the exception is caught, and the client gets nothing.\<close>

theorem final_result_sent:
  assumes "sv_coordinator s = Some c" and "ws_current_unit_index (sv_sessions s w) = Some i"
    and "mark_unit_done i (cand_to_best \<lparr>res_key = st_key p, res_score = st_score p, res_text = st_cipher_text p\<rparr> c) = Inr (b, c')"
    and "all_units_done c'" and "\<not> sv_is_subtask s" and "sv_client s = Some cl"
    and "decrypt (if sv_cipher_type s = CAESAR then CaesarEncryptedMessage (sv_full_ciphertext s)
                  else VigenereEncryptedMessage (sv_full_ciphertext s)) (res_key (c_best_result c')) = Inr t"
    and "dbl_wf (res_score (c_best_result c'))"
  shows "\<exists>s'. worker_read junk (create_status_request (PStatus p)) w now s = Inr s' \<and> sv_coordinator s' = Some c'
    \<and> sv_sent s' = sv_sent s @ (if utf8_ok t \<and> utf8_ok (res_key (c_best_result c'))
        then [To_client (create_status_response (PStatus
          (new_StatusPayload junk (cs_current_cipher cl) t (res_key (c_best_result c')) (res_score (c_best_result c')))))]
        else [])"
proof -
  have "send_result_to_client junk (c_best_result c') (upd_session w (\<lambda>ws. ws\<lparr>ws_current_unit_index := None\<rparr>) (s\<lparr>sv_coordinator := Some c'\<rparr>))
      = send_final_result junk cl ((c_best_result c')\<lparr>res_text := t\<rparr>)
          (upd_session w (\<lambda>ws. ws\<lparr>ws_current_unit_index := None\<rparr>) (s\<lparr>sv_coordinator := Some c'\<rparr>))"
    using assms(6,7) by (auto simp: send_result_to_client_def upd_session_def Let_def split: if_splits)
  then show ?thesis
    using assms send_final_cases [of "(c_best_result c')\<lparr>res_text := t\<rparr>"]
    by (simp add: worker_read_def worker_message_def handle_status_def Let_def upd_session_def emit_def
        create_status_request_def mk_Message_def final_message_def)
qed

text \<open>Worker 7 reports unit 1, the last one.\<close>

theorem final_result_sent_witness:
  "\<exists>s' c' t. worker_read 0 (create_status_request (PStatus (new_StatusPayload 0 CAESAR ''Ifmmp'' ''C'' (1 + 1)))) 7 0
      ((new_Server ''cp'' Map.empty)\<lparr>sv_workers := [7], sv_coordinator := Some demo, sv_cipher_type := CAESAR,
         sv_full_ciphertext := ''Khoor'', sv_client := Some \<lparr>cs_current_cipher = CAESAR\<rparr>,
         sv_sessions := (\<lambda>w. \<lparr>ws_current_unit_index = Some 1, ws_text_sent = True\<rparr>)\<rparr>) = Inr s'
    \<and> sv_coordinator s' = Some c'
    \<and> sv_sent s' = [To_client (create_status_response (PStatus (new_StatusPayload 0 CAESAR t ''D'' 1)))]"
proof -
  let ?p = "new_StatusPayload 0 CAESAR ''Ifmmp'' ''C'' (1 + 1)"
  let ?s = "(new_Server ''cp'' Map.empty)\<lparr>sv_workers := [7], sv_coordinator := Some demo, sv_cipher_type := CAESAR,
         sv_full_ciphertext := ''Khoor'', sv_client := Some \<lparr>cs_current_cipher = CAESAR\<rparr>,
         sv_sessions := (\<lambda>w. \<lparr>ws_current_unit_index = Some 1, ws_text_sent = True\<rparr>)\<rparr>"
  let ?c' = "demo\<lparr>c_units := (c_units demo)[1 := mark_as_done (c_units demo ! 1)], c_done_count := c_done_count demo + 1,
      c_pending_units := (c_pending_units demo)(1 := None)\<rparr>"
  have "\<not> (1 + 1 :: dbl) < 1" by code_simp
  then have m: "mark_unit_done 1 (cand_to_best \<lparr>res_key = st_key ?p, res_score = st_score ?p, res_text = st_cipher_text ?p\<rparr> demo)
      = Inr (True, ?c')"
    by (simp add: mark_unit_done_def cand_to_best_def demo_def new_StatusPayload_def)
  have d: "decrypt (CaesarEncryptedMessage ''Khoor'') ''D'' = Inr ''Hello''" by code_simp
  have best: "c_best_result ?c' = \<lparr>res_key = ''D'', res_score = 1, res_text = ''Hello''\<rparr>" by (simp add: demo_def)
  have u: "utf8_ok ''Hello''" "utf8_ok ''D''" "dbl_wf 1" unfolding utf8_ok_def by code_simp+
  from final_result_sent [of ?s demo 7 1 ?p True ?c' "\<lparr>cs_current_cipher = CAESAR\<rparr>" "''Hello''" 0 0] m d u show ?thesis
    unfolding best by (auto simp: new_Server_def all_units_done_def demo_def)
qed

text \<open>The number of keys fits an \<^verbatim>\<open>int\<close> up to key length six; from seven on, which the server still accepts
  from a client and the guess can return, its conversion is undefined.\<close>

theorem key_space_bounds:
  assumes "1 \<le> k" and "k \<le> 10"
  shows "key_space k = (if k \<le> 6 then Inr (26 ^ nat k) else Inl (Undefined Float_to_int_range))"
proof -
  have "k \<in> {1, 2, 3, 4, 5, 6} \<or> k \<in> {7, 8, 9, 10}" unfolding insert_iff empty_iff using assms by presburger
  then show ?thesis
  proof
    assume k: "k \<in> {1, 2, 3, 4, 5, 6}"
    then have "int_ok (26 ^ nat k)" by (auto intro!: int_okI)
    then show ?thesis using k by (auto simp: key_space_def dbl_to_int_of_int)
  next
    have "key_space 7 = Inl (Undefined Float_to_int_range)" "key_space 8 = Inl (Undefined Float_to_int_range)"
      "key_space 9 = Inl (Undefined Float_to_int_range)" "key_space 10 = Inl (Undefined Float_to_int_range)" by code_simp+
    moreover assume "k \<in> {7, 8, 9, 10}"
    ultimately show ?thesis by auto
  qed
qed

theorem key_space_bounds_witness: "key_space 6 = Inr 308915776 \<and> key_space 7 = Inl (Undefined Float_to_int_range)"
  using key_space_bounds [of 6] key_space_bounds [of 7] by simp

text \<open>In the fast mode the server searches a prefix of the text that holds its first 1000 letters, and the
  whole text if it has fewer.\<close>

theorem crop_text_prefix:
  "(\<exists>r. t = crop_text t @ r) \<and> length (filter isalpha (crop_text t)) = min 1000 (length (filter isalpha t))
   \<and> (length (filter isalpha t) < 1000 \<longrightarrow> crop_text t = t)"
  using crop_loop_prefix [of t 0] crop_loop_letters [of 0 t] crop_loop_short [of 0 t] by (simp add: crop_text_def)

theorem crop_text_prefix_witness: "crop_text ''Hello, World!'' = ''Hello, World!''"
proof -
  have "length (filter isalpha ''Hello, World!'') = 10" by code_simp
  then show ?thesis using crop_text_prefix [of "''Hello, World!''"] by linarith
qed

text \<open>C34. A checkpoint that cannot be serialised ends the server. When the timer, after it has dealt with the units
  that timed out, has a checkpoint to save and can open the temporary file, and the text, its first 32 bytes or a string
  of the best result is not valid UTF-8 (as for a valid text cut inside a character), the exception leaves the timer
  handler. In every other case, also when the temporary file cannot be opened, the server goes on and counts the
  checkpoint as saved.\<close>

theorem checkpoint_failure_ends_server:
  assumes "expire_loop is now s = Inr s'" and "sv_coordinator s' = Some c" and "should_save (sv_last_checkpoint_done s') c"
    and "list_all (\<lambda>u. dbl_wf (m_noise u)) (c_units c)" and "dbl_wf (res_score (c_best_result c))"
  shows "if io_opens io \<and> \<not> (utf8_ok (get_text (c_message c)) \<and> utf8_ok (take 32 (get_text (c_message c)))
              \<and> utf8_ok (res_key (c_best_result c)) \<and> utf8_ok (res_text (c_best_result c)))
    then check_timeouts (json_dump 2) io is now s = Inl (Json_type_error 316)
    else \<exists>s''. check_timeouts (json_dump 2) io is now s = Inr s'' \<and> sv_last_checkpoint_done s'' = c_done_count c"
proof -
  let ?j = "checkpoint_json c"
  have "floats_wf ?j" using assms(4,5)
    by (simp add: checkpoint_json_def result_to_json_def unit_to_json_def list_all_iff)
  note cases = json_dump_cases [OF this indent_ok_small(2), unfolded checkpoint_dump_ok]
  note defs = check_timeouts_def maybe_save_checkpoint_def save_checkpoint_def save_states_def Let_def
  show ?thesis
  proof (cases "io_opens io")
    case True
    then show ?thesis using assms(1-3) cases by (auto simp: defs split: if_splits)
  qed (use assms(1-3) in \<open>simp add: defs\<close>)
qed

theorem checkpoint_failure_ends_server_witness:
  "check_timeouts (json_dump 2) disk_fine [] 0
     ((new_Server ''cp'' Map.empty)\<lparr>sv_coordinator := Some (demo\<lparr>c_message := VigenereEncryptedMessage cut_text,
        c_done_count := 5\<rparr>)\<rparr>) = Inl (Json_type_error 316)"
proof -
  let ?c = "demo\<lparr>c_message := VigenereEncryptedMessage cut_text, c_done_count := 5\<rparr>"
  let ?s = "(new_Server ''cp'' Map.empty)\<lparr>sv_coordinator := Some ?c\<rparr>"
  have bad: "\<not> utf8_ok (take 32 cut_text)" unfolding utf8_ok_def by code_simp
  have wf: "list_all (\<lambda>u. dbl_wf (m_noise u)) (c_units ?c)" "dbl_wf (res_score (c_best_result ?c))" "io_opens disk_fine" by code_simp+
  have "expire_loop [] 0 ?s = Inr ?s" "sv_coordinator ?s = Some ?c" "should_save (sv_last_checkpoint_done ?s) ?c"
    by (simp_all add: should_save_def new_Server_def CHECKPOINT_EVERY_N_UNITS_def)
  from checkpoint_failure_ends_server [OF this wf(1,2), of disk_fine] wf(3) bad show ?thesis by simp
qed

end
