(* ===== verification/Cluster.thy ===== *)
theory Cluster
  imports Server
begin

text \<open>
  The coordinator and its workers together: which answers can reach the server and what the best result
  then is. The server's side relies on the workers only through the contract \<open>worker_contract\<close>, which
  the worker of \<^verbatim>\<open>src/NetworkWorker.cpp\<close> is shown to keep. A run of the cluster is a sequence of
  steps: a worker connects, a worker's answer is handled, a worker is lost, the timer fires.
\<close>

section \<open>The world\<close>

record 'n World =
  wd_server :: Server
  wd_jobs :: "worker_id \<Rightarrow> Message list"
  wd_nodes :: "worker_id \<Rightarrow> 'n"
  wd_used :: "worker_id set"
  wd_gone :: "worker_id set"
  wd_results :: "Message list"

text \<open>The messages to one worker, and those to the client.\<close>

definition sent_to :: "worker_id \<Rightarrow> sent list \<Rightarrow> Message list" where
  "sent_to w xs = concat (map (\<lambda>x. case x of To_worker v m \<Rightarrow> if v = w then [m] else [] | To_client m \<Rightarrow> []) xs)"

definition sent_to_client :: "sent list \<Rightarrow> Message list" where
  "sent_to_client xs = concat (map (\<lambda>x. case x of To_worker v m \<Rightarrow> [] | To_client m \<Rightarrow> [m]) xs)"

text \<open>The network hands every message on, except to workers that are gone.\<close>

definition deliver :: "Server \<Rightarrow> 'n World \<Rightarrow> 'n World" where
  "deliver s wd = wd\<lparr>wd_server := s\<lparr>sv_sent := []\<rparr>,
     wd_jobs := (\<lambda>w. if w \<in> wd_gone wd then [] else wd_jobs wd w @ sent_to w (sv_sent s)),
     wd_results := wd_results wd @ sent_to_client (sv_sent s)\<rparr>"

text \<open>
  \<open>dump\<close> is the serializer for checkpoints. \<open>work\<close> is the reaction of a worker to a request. \<open>ok\<close> says which workers may connect.
\<close>

inductive step :: "(json \<Rightarrow> string res) \<Rightarrow> ('n \<Rightarrow> Message \<Rightarrow> ('n \<times> Message option) res) \<Rightarrow> ('n \<Rightarrow> bool) \<Rightarrow> 'n World \<Rightarrow> 'n World \<Rightarrow> bool"
  for dump :: "json \<Rightarrow> string res" and work :: "'n \<Rightarrow> Message \<Rightarrow> ('n \<times> Message option) res" and ok :: "'n \<Rightarrow> bool"
where
  join: "\<lbrakk>w \<notin> wd_used wd; ok n; add_worker w now (wd_server wd) = Inr s\<rbrakk>
    \<Longrightarrow> step dump work ok wd (deliver s (wd\<lparr>wd_used := insert w (wd_used wd), wd_nodes := (wd_nodes wd)(w := n)\<rparr>))"
| answer: "\<lbrakk>wd_jobs wd w = m # ms; work (wd_nodes wd w) m = Inr (n, Some r);
     worker_read junk r w now (wd_server wd) = Inr s\<rbrakk>
    \<Longrightarrow> step dump work ok wd (deliver s (wd\<lparr>wd_jobs := (wd_jobs wd)(w := ms), wd_nodes := (wd_nodes wd)(w := n)\<rparr>))"
| silent: "\<lbrakk>wd_jobs wd w = m # ms; work (wd_nodes wd w) m = Inr (n, None)\<rbrakk>
    \<Longrightarrow> step dump work ok wd (wd\<lparr>wd_jobs := (wd_jobs wd)(w := ms), wd_nodes := (wd_nodes wd)(w := n)\<rparr>)"
| leave: "step dump work ok wd (wd\<lparr>wd_server := remove_worker w (wd_server wd), wd_jobs := (wd_jobs wd)(w := []),
     wd_gone := insert w (wd_gone wd), wd_used := insert w (wd_used wd)\<rparr>)"
| tick: "check_timeouts dump io is now (wd_server wd) = Inr s \<Longrightarrow> step dump work ok wd (deliver s wd)"

inductive reaches :: "(json \<Rightarrow> string res) \<Rightarrow> ('n \<Rightarrow> Message \<Rightarrow> ('n \<times> Message option) res) \<Rightarrow> ('n \<Rightarrow> bool) \<Rightarrow> 'n World \<Rightarrow> 'n World \<Rightarrow> bool"
  for dump :: "json \<Rightarrow> string res" and work :: "'n \<Rightarrow> Message \<Rightarrow> ('n \<times> Message option) res" and ok :: "'n \<Rightarrow> bool" and wd0 :: "'n World"
where
  start: "reaches dump work ok wd0 wd0"
| more: "\<lbrakk>reaches dump work ok wd0 wd; step dump work ok wd wd'\<rbrakk> \<Longrightarrow> reaches dump work ok wd0 wd'"

section \<open>The invariant of a task\<close>

text \<open>The units are those of the task, each with one of the three statuses.\<close>

definition units_inv :: "Unit list \<Rightarrow> Coordinator \<Rightarrow> bool" where
  "units_inv us c \<longleftrightarrow> length (c_units c) = length us
     \<and> (\<forall>i < length us. c_units c ! i = (us ! i)\<lparr>m_status := m_status (c_units c ! i)\<rparr>
          \<and> m_status (c_units c ! i) \<in> {Unassigned, Leased, Done})"

text \<open>The best result is one of the task and no solution of a finished unit beats it.\<close>

definition best_inv :: "Unit list \<Rightarrow> (Unit \<Rightarrow> Result set) \<Rightarrow> Coordinator \<Rightarrow> bool" where
  "best_inv us sols c \<longleftrightarrow> \<not> is_nan (res_score (c_best_result c))
     \<and> c_best_result c \<in> insert init_result (\<Union>u \<in> set us. sols u)
     \<and> \<not> dbl_less (res_score init_result) (res_score (c_best_result c))
     \<and> (\<forall>i < length us. m_status (c_units c ! i) = Done
          \<longrightarrow> (\<forall>x \<in> sols (us ! i). \<not> dbl_less (res_score x) (res_score (c_best_result c))))"

text \<open>A request for a unit that the worker can serve: it has the text or gets it.\<close>

definition job_for :: "('n \<Rightarrow> string \<Rightarrow> bool) \<Rightarrow> string \<Rightarrow> 'n \<Rightarrow> Unit \<Rightarrow> Message \<Rightarrow> bool" where
  "job_for knows t n u m \<longleftrightarrow> (\<exists>p. m = create_decrypt_request (PDecrypt p) \<and> carries u p
     \<and> (dp_cipher_text p = t \<or> dp_cipher_text p = [] \<and> knows n t))"

text \<open>
  A session that waits for a unit has exactly that request open, a free one has none; after the text has
  been sent, the worker has it or has it in its request.
\<close>

definition session_inv ::
    "('n \<Rightarrow> string \<Rightarrow> bool) \<Rightarrow> string \<Rightarrow> Unit list \<Rightarrow> WorkerSession \<Rightarrow> 'n \<Rightarrow> Message list \<Rightarrow> bool" where
  "session_inv knows t us ws n jobs \<longleftrightarrow>
     (case ws_current_unit_index ws of
        None \<Rightarrow> jobs = [] \<and> (ws_text_sent ws \<longrightarrow> knows n t)
      | Some i \<Rightarrow> i < length us \<and> (\<exists>m. jobs = [m] \<and> job_for knows t n (us ! i) m))"

text \<open>
  The server's part, also between the actions of one handler: \<open>jobs\<close> are the requests delivered before,
  and what the handler has sent comes on top. \<open>A\<close> are the workers that are alive.
\<close>

definition coord_part :: "string \<Rightarrow> Unit list \<Rightarrow> (Unit \<Rightarrow> Result set) \<Rightarrow> Coordinator \<Rightarrow> bool" where
  "coord_part t us sols c \<longleftrightarrow> get_text (c_message c) = t \<and> \<not> c_solved c
     \<and> dom (c_pending_units c) \<subseteq> {..<length us} \<and> units_inv us c \<and> best_inv us sols c"

definition core_inv ::
    "('n \<Rightarrow> string \<Rightarrow> bool) \<Rightarrow> string \<Rightarrow> Unit list \<Rightarrow> (Unit \<Rightarrow> Result set) \<Rightarrow> worker_id set
     \<Rightarrow> (worker_id \<Rightarrow> Message list) \<Rightarrow> (worker_id \<Rightarrow> 'n) \<Rightarrow> Server \<Rightarrow> bool" where
  "core_inv knows t us sols A jobs nodes s \<longleftrightarrow>
     (\<exists>c. sv_coordinator s = Some c \<and> coord_part t us sols c)
     \<and> (\<forall>w. w \<notin> A \<longrightarrow> sent_to w (sv_sent s) = [])
     \<and> (\<forall>w \<in> A. session_inv knows t us (sv_sessions s w) (nodes w) (jobs w @ sent_to w (sv_sent s)))"

definition srv_inv ::
    "('n \<Rightarrow> string \<Rightarrow> bool) \<Rightarrow> string \<Rightarrow> Unit list \<Rightarrow> (Unit \<Rightarrow> Result set) \<Rightarrow> worker_id set
     \<Rightarrow> (worker_id \<Rightarrow> Message list) \<Rightarrow> (worker_id \<Rightarrow> 'n) \<Rightarrow> Server \<Rightarrow> bool" where
  "srv_inv knows t us sols A jobs nodes s \<longleftrightarrow> core_inv knows t us sols A jobs nodes s
     \<and> set (sv_workers s) \<subseteq> A \<and> distinct (sv_workers s)"

lemmas inv_defs = srv_inv_def core_inv_def

definition task_inv ::
    "('n \<Rightarrow> string \<Rightarrow> bool) \<Rightarrow> ('n \<Rightarrow> bool) \<Rightarrow> string \<Rightarrow> Unit list \<Rightarrow> (Unit \<Rightarrow> Result set) \<Rightarrow> 'n World \<Rightarrow> bool" where
  "task_inv knows ok t us sols wd \<longleftrightarrow>
     srv_inv knows t us sols (wd_used wd - wd_gone wd) (wd_jobs wd) (wd_nodes wd) (wd_server wd)
     \<and> sv_sent (wd_server wd) = [] \<and> wd_gone wd \<subseteq> wd_used wd
     \<and> (\<forall>w. w \<notin> wd_used wd - wd_gone wd \<longrightarrow> wd_jobs wd w = [])
     \<and> (\<forall>w \<in> wd_used wd - wd_gone wd. ok (wd_nodes wd w))"

section \<open>Handlers keep the invariant\<close>

lemma sent_to_simps [simp]:
  "sent_to w [] = []" "sent_to w (xs @ [To_worker v m]) = sent_to w xs @ (if v = w then [m] else [])"
  "sent_to w (xs @ [To_client m]) = sent_to w xs"
  by (simp_all add: sent_to_def)

lemma units_inv_update:
  assumes "units_inv us c" and "i < length us" and "c_units c' = (c_units c)[i := (c_units c ! i)\<lparr>m_status := st\<rparr>]"
    and "st \<in> {Unassigned, Leased, Done}"
  shows "units_inv us c'"
proof -
  have "(c_units c ! i)\<lparr>m_status := st\<rparr> = (us ! i)\<lparr>m_status := st\<rparr>"
    using assms(1,2) unfolding units_inv_def by (metis Unit.surjective Unit.update_convs(3))
  then show ?thesis using assms by (auto simp: units_inv_def nth_list_update)
qed

lemma best_inv_update:
  assumes "best_inv us sols c" and "i < length us" and "length (c_units c) = length us" and "st \<noteq> Done"
    and "c_units c' = (c_units c)[i := (c_units c ! i)\<lparr>m_status := st\<rparr>]" and "c_best_result c' = c_best_result c"
  shows "best_inv us sols c'"
  using assms by (auto simp: best_inv_def nth_list_update)

lemma assign_coord_part:
  assumes "coord_part t us sols c" and "assign_to_worker w now c = (r, c')"
  shows "coord_part t us sols c' \<and> (\<forall>i. r = Some i \<longrightarrow> i < length us)"
proof (cases rule: assign_cases [of w now c])
  case none
  then show ?thesis using assms by simp
next
  case (some i)
  have len: "length (c_units c) = length us" using assms(1) by (simp add: coord_part_def units_inv_def)
  then have i: "i < length us" using some(1) by simp
  have eq: "c' = c\<lparr>c_units := (c_units c)[i := (c_units c ! i)\<lparr>m_status := Leased\<rparr>],
      c_pending_units := (c_pending_units c)(i \<mapsto> \<lparr>pu_worker = w, pu_start_time = now\<rparr>)\<rparr>" "r = Some i"
    using some(5) assms(2) by (simp_all add: mark_as_leased_def)
  have "units_inv us c'" "best_inv us sols c'"
    using units_inv_update [of us c i c' Leased] best_inv_update [of us sols c i Leased c'] assms(1) i len
    by (auto simp: coord_part_def eq)
  then show ?thesis using assms(1) i by (auto simp: coord_part_def eq)
qed

lemma carries_status [simp]: "carries (u\<lparr>m_status := st\<rparr>) p \<longleftrightarrow> carries u p"
  by (simp add: carries_def)

lemma encode_key_sound: "unit_sound u \<Longrightarrow> \<exists>k. encode_key (m_cipher u) (m_key_length u) i = Inr k"
  by (auto simp: encode_key_def unit_sound_def)

lemma session_update:
  "ws\<lparr>ws_current_unit_index := a, ws_text_sent := b\<rparr> = \<lparr>ws_current_unit_index = a, ws_text_sent = b\<rparr>"
  by (cases ws) simp

text \<open>Sending a unit of the task succeeds; the request carries the unit, and the text if it is the first.\<close>

lemma send_unit_sound:
  assumes c: "sv_coordinator s = Some c" "coord_part t us sols c" and i: "i < length us" and u: "unit_sound (us ! i)"
  shows "\<exists>p. send_unit i w s = (None, s\<lparr>
        sv_sessions := (sv_sessions s)(w := \<lparr>ws_current_unit_index = Some i, ws_text_sent = True\<rparr>),
        sv_sent := sv_sent s @ [To_worker w (create_decrypt_request (PDecrypt p))]\<rparr>)
    \<and> carries (us ! i) p \<and> dp_cipher_text p = (if ws_text_sent (sv_sessions s w) then [] else t)"
proof -
  let ?u = "us ! i"
  have unit: "get_unit i c = Inr (?u\<lparr>m_status := m_status (c_units c ! i)\<rparr>)"
    using c(2) i by (auto simp: get_unit_def coord_part_def units_inv_def)
  obtain sk ek where "encode_key (m_cipher ?u) (m_key_length ?u) (m_start ?u) = Inr sk"
    "encode_key (m_cipher ?u) (m_key_length ?u) (m_end ?u) = Inr ek" using encode_key_sound [OF u] by metis
  moreover have "get_text (c_message c) = t" using c(2) by (simp add: coord_part_def)
  ultimately show ?thesis
    using c(1) unit
    by (intro exI [of _ "\<lparr>dp_cipher = m_cipher ?u, dp_mode = m_mode ?u,
        dp_cipher_text = (if ws_text_sent (sv_sessions s w) then [] else t), dp_noise = m_noise ?u,
        dp_start_key = sk, dp_end_key = ek, dp_key_length = m_key_length ?u\<rparr>"])
      (simp add: send_unit_def Let_def upd_session_def emit_def carries_def session_update)
qed

lemma spawn_assign_core:
  assumes inv: "core_inv knows t us sols A jobs nodes s" and w: "w \<in> A" "is_free (sv_sessions s w)"
    and us: "\<forall>u \<in> set us. unit_sound u"
  shows "\<exists>s'. spawn_assign w now s = Inr s' \<and> core_inv knows t us sols A jobs nodes s' \<and> sv_workers s' = sv_workers s
    \<and> (\<forall>v. v \<noteq> w \<longrightarrow> sv_sessions s' v = sv_sessions s v)"
proof -
  obtain c where c: "sv_coordinator s = Some c" "coord_part t us sols c" using inv by (auto simp: inv_defs)
  obtain r c' where a: "assign_to_worker w now c = (r, c')" by fastforce
  note c' = assign_coord_part [OF c(2) a]
  let ?s1 = "s\<lparr>sv_coordinator := Some c'\<rparr>"
  show ?thesis
  proof (cases r)
    case None
    then show ?thesis using inv c a c' by (intro exI [of _ ?s1]) (simp add: spawn_assign_def inv_defs)
  next
    case (Some i)
    then have i: "i < length us" using c' by simp
    obtain p where p: "send_unit i w ?s1 = (None, ?s1\<lparr>
          sv_sessions := (sv_sessions s)(w := \<lparr>ws_current_unit_index = Some i, ws_text_sent = True\<rparr>),
          sv_sent := sv_sent s @ [To_worker w (create_decrypt_request (PDecrypt p))]\<rparr>)"
        "carries (us ! i) p" "dp_cipher_text p = (if ws_text_sent (sv_sessions s w) then [] else t)"
      using send_unit_sound [of ?s1 c' t us sols i w] c' i us by auto
    have "session_inv knows t us (sv_sessions s w) (nodes w) (jobs w @ sent_to w (sv_sent s))"
      using inv w(1) by (simp add: inv_defs)
    then have "jobs w = []" "sent_to w (sv_sent s) = []" "ws_text_sent (sv_sessions s w) \<longrightarrow> knows (nodes w) t"
      using w(2) by (simp_all add: session_inv_def is_free_def)
    moreover from this have "job_for knows t (nodes w) (us ! i) (create_decrypt_request (PDecrypt p))"
      unfolding job_for_def using p(2,3) by (intro exI [of _ p]) auto
    ultimately have "session_inv knows t us \<lparr>ws_current_unit_index = Some i, ws_text_sent = True\<rparr> (nodes w)
        (jobs w @ sent_to w (sv_sent s) @ [create_decrypt_request (PDecrypt p)])"
      using i by (simp add: session_inv_def)
    then show ?thesis
      using Some a p(1) inv c c' w(1) by (auto simp: spawn_assign_def inv_defs)
  qed
qed

lemma spawn_assign_sound:
  assumes inv: "srv_inv knows t us sols A jobs nodes s" and w: "w \<in> A" "is_free (sv_sessions s w)"
    and us: "\<forall>u \<in> set us. unit_sound u"
  shows "\<exists>s'. spawn_assign w now s = Inr s' \<and> srv_inv knows t us sols A jobs nodes s' \<and> sv_workers s' = sv_workers s"
  using spawn_assign_core [OF _ w us, of knows t sols jobs nodes now] inv by (auto simp: srv_inv_def)

lemma assign_free_sound:
  assumes "srv_inv knows t us sols A jobs nodes s" and "set ws \<subseteq> A" and "\<forall>u \<in> set us. unit_sound u"
  shows "\<exists>s'. assign_free ws now s = Inr s' \<and> srv_inv knows t us sols A jobs nodes s' \<and> sv_workers s' = sv_workers s"
  using assms
proof (induction ws arbitrary: s)
  case (Cons w ws)
  show ?case
  proof (cases "is_free (sv_sessions s w)")
    case True
    from spawn_assign_sound [OF Cons.prems(1) _ True Cons.prems(3), of now] Cons.prems(2) obtain s1 where
      "spawn_assign w now s = Inr s1" "srv_inv knows t us sols A jobs nodes s1" "sv_workers s1 = sv_workers s" by auto
    then show ?thesis using Cons.IH [of s1] Cons.prems True by auto
  qed (use Cons in auto)
qed simp

lemma srv_inv_remove: "srv_inv knows t us sols A jobs nodes s \<Longrightarrow> srv_inv knows t us sols A jobs nodes (remove_worker w s)"
  by (auto simp: inv_defs remove_worker_def dest: notin_set_remove1 in_set_remove1 [THEN iffD1])

lemma coord_part_erase:
  assumes "coord_part t us sols c"
  shows "coord_part t us sols (c\<lparr>c_pending_units := (c_pending_units c)(i := None)\<rparr>)"
proof -
  have "dom ((c_pending_units c)(i := None)) \<subseteq> dom (c_pending_units c)" by auto
  then show ?thesis using assms by (auto simp: coord_part_def units_inv_def best_inv_def)
qed

lemma srv_inv_erase: "srv_inv knows t us sols A jobs nodes s \<Longrightarrow> srv_inv knows t us sols A jobs nodes (erase_pending i s)"
  using coord_part_erase by (fastforce simp: inv_defs erase_pending_def)

lemma handle_timeout_sound:
  assumes inv: "srv_inv knows t us sols A jobs nodes s" and us: "\<forall>u \<in> set us. unit_sound u"
    and c: "sv_coordinator s = Some c" "c_pending_units c i = Some pu"
  shows "\<exists>s'. handle_timeout i now s = Inr s' \<and> srv_inv knows t us sols A jobs nodes s'"
proof -
  have part: "coord_part t us sols c" using inv c(1) by (simp add: inv_defs)
  then have i: "i < length us" and len: "length (c_units c) = length us"
    using c(2) by (auto simp: coord_part_def units_inv_def)
  let ?c = "c\<lparr>c_units := (c_units c)[i := (c_units c ! i)\<lparr>m_status := Unassigned\<rparr>]\<rparr>"
  let ?s = "s\<lparr>sv_coordinator := Some ?c\<rparr>"
  have m: "mark_as_unassigned_by_index i c = Inr ?c"
    using i len by (simp add: mark_as_unassigned_by_index_def mark_as_unassigned_def)
  have "units_inv us ?c" "best_inv us sols ?c"
    using units_inv_update [of us c i ?c Unassigned] best_inv_update [of us sols c i Unassigned ?c] part i len
    by (auto simp: coord_part_def)
  then have "coord_part t us sols ?c" using part by (simp add: coord_part_def)
  then have "srv_inv knows t us sols A jobs nodes ?s" using inv by (auto simp: inv_defs)
  then have inv1: "srv_inv knows t us sols A jobs nodes (remove_worker (pu_worker pu) ?s)" by (rule srv_inv_remove)
  then have "set (sv_workers (remove_worker (pu_worker pu) ?s)) \<subseteq> A" by (simp add: inv_defs)
  from assign_free_sound [OF inv1 this us, of now] show ?thesis
    using c m by (auto simp: handle_timeout_def Let_def)
qed

lemma expire_loop_sound:
  assumes "srv_inv knows t us sols A jobs nodes s" and "\<forall>u \<in> set us. unit_sound u"
  shows "\<exists>s'. expire_loop is now s = Inr s' \<and> srv_inv knows t us sols A jobs nodes s'"
  using assms
proof (induction "is" arbitrary: s)
  case (Cons i "is")
  obtain c where c: "sv_coordinator s = Some c" using Cons.prems(1) by (auto simp: inv_defs)
  show ?case
  proof (cases "c_pending_units c i")
    case None
    then show ?thesis using Cons c by simp
  next
    case (Some pu)
    from handle_timeout_sound [OF Cons.prems c Some, of now] obtain s1 where
      "handle_timeout i now s = Inr s1" "srv_inv knows t us sols A jobs nodes s1" by blast
    then have "\<exists>s'. expire_loop is now (erase_pending i s1) = Inr s' \<and> srv_inv knows t us sols A jobs nodes s'"
      using Cons.IH Cons.prems(2) srv_inv_erase by blast
    then show ?thesis using Cons.IH [of s] Cons.prems c Some \<open>handle_timeout i now s = Inr s1\<close>
      by (cases "UNIT_TIMEOUT \<le> now - pu_start_time pu") simp_all
  qed
qed simp

lemma save_keeps: "maybe_save_checkpoint dump io s = (e, s') \<Longrightarrow>
    sv_coordinator s' = sv_coordinator s \<and> sv_workers s' = sv_workers s \<and> sv_sessions s' = sv_sessions s
    \<and> sv_sent s' = sv_sent s"
  by (auto simp: maybe_save_checkpoint_def split: option.splits if_splits prod.splits sum.splits)

lemma check_timeouts_sound:
  assumes "srv_inv knows t us sols A jobs nodes s" and "\<forall>u \<in> set us. unit_sound u"
    and "check_timeouts dump io is now s = Inr s'"
  shows "srv_inv knows t us sols A jobs nodes s'"
proof -
  obtain s1 where s1: "expire_loop is now s = Inr s1" "srv_inv knows t us sols A jobs nodes s1"
    using expire_loop_sound [OF assms(1,2)] by blast
  then have "maybe_save_checkpoint dump io s1 = (None, s')"
    using assms(3) by (auto simp: check_timeouts_def split: prod.splits option.splits)
  from save_keeps [OF this] show ?thesis using s1(2) by (simp add: inv_defs)
qed

text \<open>A new worker starts with a free session.\<close>

lemma add_worker_sound:
  assumes inv: "srv_inv knows t us sols A jobs nodes s" and us: "\<forall>u \<in> set us. unit_sound u"
    and w: "w \<notin> A" "jobs w = []" "sent_to w (sv_sent s) = []"
  shows "\<exists>s'. add_worker w now s = Inr s' \<and> srv_inv knows t us sols (insert w A) jobs (nodes(w := n)) s'"
proof -
  let ?s = "s\<lparr>sv_workers := sv_workers s @ [w], sv_sessions := (sv_sessions s)(w := new_WorkerSession)\<rparr>"
  have "session_inv knows t us new_WorkerSession n (jobs w @ sent_to w (sv_sent s))"
    using w by (simp add: session_inv_def new_WorkerSession_def)
  then have inv1: "srv_inv knows t us sols (insert w A) jobs (nodes(w := n)) ?s"
    using inv w(1) by (auto simp: inv_defs)
  have "is_free (sv_sessions ?s w)" by (simp add: is_free_def new_WorkerSession_def)
  from spawn_assign_sound [OF inv1 _ this us, of now] obtain s1 where
    "spawn_assign w now ?s = Inr s1" "srv_inv knows t us sols (insert w A) jobs (nodes(w := n)) s1" by blast
  moreover obtain c where "sv_coordinator s = Some c" using inv by (auto simp: inv_defs)
  ultimately show ?thesis using inv1 by (cases "has_unassigned_units c") (simp_all add: add_worker_def Let_def)
qed

section \<open>The contract of a worker\<close>

definition status_result :: "StatusPayload \<Rightarrow> Result" where
  "status_result p = \<lparr>res_key = st_key p, res_score = st_score p, res_text = st_cipher_text p\<rparr>"

text \<open>
  What the server relies on: asked for a unit of a text that is valid UTF-8, with the text in the request or
  known from before, a worker answers with a STATUS request whose result is honest, and then knows the text.
\<close>

locale worker_contract =
  fixes work :: "'n \<Rightarrow> Message \<Rightarrow> ('n \<times> Message option) res"
    and ok :: "'n \<Rightarrow> bool"
    and knows :: "'n \<Rightarrow> string \<Rightarrow> bool"
    and sols :: "string \<Rightarrow> Unit \<Rightarrow> Result set"
  assumes answers: "\<lbrakk>ok n; unit_sound u; job_for knows t n u m; utf8_ok t; t \<noteq> []\<rbrakk>
      \<Longrightarrow> \<exists>n' p. work n m = Inr (n', Some (create_status_request (PStatus p)))
            \<and> honest (sols t u) (status_result p) \<and> ok n' \<and> knows n' t"

lemma best_inv_report:
  assumes inv: "best_inv us sols c" and i: "i < length us" and r: "honest (sols (us ! i)) r"
    and c': "c_best_result c' = keep_better dbl_less res_score (c_best_result c) r"
    and st: "\<forall>j < length us. m_status (c_units c' ! j) = Done \<longrightarrow> j = i \<or> m_status (c_units c ! j) = Done"
  shows "best_inv us sols c'"
proof -
  let ?b = "c_best_result c" and ?b' = "c_best_result c'"
  have b: "\<not> is_nan (res_score ?b)" "?b \<in> insert init_result (\<Union>u \<in> set us. sols u)"
    "\<not> dbl_less (res_score init_result) (res_score ?b)" using inv by (auto simp: best_inv_def)
  have r': "\<not> is_nan (res_score r)" "\<not> dbl_less (res_score init_result) (res_score r)"
    "\<And>x. x \<in> sols (us ! i) \<Longrightarrow> \<not> dbl_less (res_score x) (res_score r)"
    "r \<in> sols (us ! i) \<or> res_score r = res_score init_result" using r by (auto simp: honest_def)
  show ?thesis
  proof (cases "dbl_less (res_score r) (res_score ?b)")
    case True
    then have eq: "?b' = r" using c' by (simp add: keep_better_def)
    have "r \<in> sols (us ! i)" using r'(4) True b(3) by auto
    moreover have "\<not> dbl_less (res_score x) (res_score r)"
      if "j < length us" "m_status (c_units c' ! j) = Done" "x \<in> sols (us ! j)" for j x
    proof (cases "j = i")
      case False
      then have "\<not> dbl_less (res_score x) (res_score ?b)" using that st inv by (auto simp: best_inv_def)
      then show ?thesis using True dbl_less_trans by blast
    qed (use that r'(3) in simp)
    ultimately show ?thesis using r' i eq by (auto simp: best_inv_def)
  next
    case False
    then have eq: "?b' = ?b" using c' by (simp add: keep_better_def)
    have "\<not> dbl_less (res_score x) (res_score ?b)"
      if "j < length us" "m_status (c_units c' ! j) = Done" "x \<in> sols (us ! j)" for j x
    proof (cases "j = i")
      case True
      then show ?thesis using dbl_ord.not_lt_trans [OF r'(1) _ False] r'(3) that by blast
    qed (use that st inv in \<open>auto simp: best_inv_def\<close>)
    then show ?thesis using b eq by (auto simp: best_inv_def)
  qed
qed

lemma mark_done_report:
  assumes part: "coord_part t us sols c" and i: "i < length us" and r: "honest (sols (us ! i)) r"
  shows "\<exists>b c'. mark_unit_done i (cand_to_best r c) = Inr (b, c') \<and> coord_part t us sols c'"
proof -
  let ?c = "cand_to_best r c"
  have len: "length (c_units ?c) = length us" using part by (simp add: coord_part_def units_inv_def)
  obtain b c' where m: "mark_unit_done i ?c = Inr (b, c')"
    using i len by (cases "m_status (c_units ?c ! i) = Leased") (simp_all add: mark_unit_done_def)
  have units: "c_units c' = c_units c \<or> c_units c' = (c_units c)[i := (c_units c ! i)\<lparr>m_status := Done\<rparr>]"
    and rest: "c_best_result c' = c_best_result ?c" "c_message c' = c_message c" "c_solved c' = c_solved c"
      "dom (c_pending_units c') \<subseteq> dom (c_pending_units c)"
    using m by (auto simp: mark_unit_done_def mark_as_done_def split: if_splits)
  have "units_inv us c'"
    using units part i units_inv_update [of us c i c' Done] by (auto simp: coord_part_def units_inv_def)
  moreover have "best_inv us sols c'"
  proof (rule best_inv_report [where c = c and i = i and r = r])
    show "best_inv us sols c" using part by (simp add: coord_part_def)
    show "c_best_result c' = keep_better dbl_less res_score (c_best_result c) r" using rest(1) by (simp add: cand_to_best_keep)
    show "\<forall>j < length us. m_status (c_units c' ! j) = Done \<longrightarrow> j = i \<or> m_status (c_units c ! j) = Done"
      using units by (metis nth_list_update_neq)
  qed (use i r in simp_all)
  ultimately show ?thesis using m rest part by (auto simp: coord_part_def)
qed

lemma srv_inv_client: "srv_inv knows t us sols A jobs nodes s \<Longrightarrow> srv_inv knows t us sols A jobs nodes (emit (To_client m) s)"
  by (simp add: inv_defs emit_def)

lemma send_result_effect: "send_result_to_client junk r s = (e, s') \<Longrightarrow> s' = s \<or> (\<exists>m. s' = emit (To_client m) s)"
  by (auto simp: send_result_to_client_def send_final_result_def Let_def split: option.splits sum.splits if_splits)

lemma send_result_keeps:
  "\<lbrakk>srv_inv knows t us sols A jobs nodes s; send_result_to_client junk r s = (e, s')\<rbrakk> \<Longrightarrow> srv_inv knows t us sols A jobs nodes s'"
  using srv_inv_client [of knows t us sols A jobs nodes s] send_result_effect [of junk r s e s'] by auto

text \<open>An honest answer to the open request of a session.\<close>

lemma handle_status_sound:
  assumes inv: "srv_inv knows t us sols A jobs nodes s" and us: "\<forall>u \<in> set us. unit_sound u"
    and w: "w \<in> A" "ws_current_unit_index (sv_sessions s w) = Some i" "i < length us"
    and r: "honest (sols (us ! i)) (status_result p)" and n: "knows n t"
    and jobs: "jobs' = jobs(w := [])" "sv_sent s = []"
    and run: "handle_status junk p w now s = (e, s')"
  shows "srv_inv knows t us sols A jobs' (nodes(w := n)) s'"
proof -
  obtain c where c: "sv_coordinator s = Some c" "coord_part t us sols c" using inv by (auto simp: inv_defs)
  obtain b c2 where c2: "mark_unit_done i (cand_to_best (status_result p) c) = Inr (b, c2)" "coord_part t us sols c2"
    using mark_done_report [OF c(2) w(3) r] by blast
  let ?s = "upd_session w (\<lambda>ws. ws\<lparr>ws_current_unit_index := None\<rparr>) (s\<lparr>sv_coordinator := Some c2\<rparr>)"
  have inv2: "srv_inv knows t us sols A jobs' (nodes(w := n)) ?s"
    using inv c2(2) n jobs by (auto simp: inv_defs upd_session_def session_inv_def)
  have "is_free (sv_sessions ?s w)" by (simp add: is_free_def upd_session_def)
  from spawn_assign_sound [OF inv2 w(1) this us, of now] obtain s3 where
    s3: "spawn_assign w now ?s = Inr s3" "srv_inv knows t us sols A jobs' (nodes(w := n)) s3" by blast
  have "handle_status junk p w now s = (if all_units_done c2
      then if sv_is_subtask ?s then (None, ?s) else send_result_to_client junk (c_best_result c2) ?s
      else if has_unassigned_units c2 then (None, s3) else (None, ?s))"
    using c(1) w(2) c2(1) s3(1) by (simp add: handle_status_def Let_def status_result_def)
  then show ?thesis
    using run inv2 s3(2) send_result_keeps [OF inv2, of junk "c_best_result c2" e s']
    by (auto split: if_splits dest!: sym [of "(e, s')"])
qed

section \<open>Runs of the cluster\<close>

lemma task_inv_deliver:
  assumes "srv_inv knows t us sols (wd_used wd - wd_gone wd) (wd_jobs wd) (wd_nodes wd) s"
    and "wd_gone wd \<subseteq> wd_used wd" and "\<forall>w. w \<notin> wd_used wd \<longrightarrow> wd_jobs wd w = []"
    and "\<forall>w \<in> wd_used wd - wd_gone wd. ok (wd_nodes wd w)"
  shows "task_inv knows ok t us sols (deliver s wd)"
  using assms by (auto simp: task_inv_def deliver_def inv_defs)

lemma task_inv_tick:
  assumes "task_inv knows ok t us sols wd" and "\<forall>u \<in> set us. unit_sound u"
    and "check_timeouts dump io is now (wd_server wd) = Inr s"
  shows "task_inv knows ok t us sols (deliver s wd)"
  using assms check_timeouts_sound [OF _ assms(2,3)] by (intro task_inv_deliver) (auto simp: task_inv_def)

lemma task_inv_join:
  assumes inv: "task_inv knows ok t us sols wd" and us: "\<forall>u \<in> set us. unit_sound u"
    and w: "w \<notin> wd_used wd" "ok n" and s: "add_worker w now (wd_server wd) = Inr s"
  shows "task_inv knows ok t us sols
    (deliver s (wd\<lparr>wd_used := insert w (wd_used wd), wd_nodes := (wd_nodes wd)(w := n)\<rparr>))"
proof (rule task_inv_deliver)
  have gone: "wd_gone wd \<subseteq> wd_used wd" using inv by (simp add: task_inv_def)
  then have A: "insert w (wd_used wd) - wd_gone wd = insert w (wd_used wd - wd_gone wd)" using w(1) by auto
  show "srv_inv knows t us sols (wd_used (wd\<lparr>wd_used := insert w (wd_used wd), wd_nodes := (wd_nodes wd)(w := n)\<rparr>)
      - wd_gone (wd\<lparr>wd_used := insert w (wd_used wd), wd_nodes := (wd_nodes wd)(w := n)\<rparr>))
      (wd_jobs (wd\<lparr>wd_used := insert w (wd_used wd), wd_nodes := (wd_nodes wd)(w := n)\<rparr>))
      (wd_nodes (wd\<lparr>wd_used := insert w (wd_used wd), wd_nodes := (wd_nodes wd)(w := n)\<rparr>)) s"
    using add_worker_sound [of knows t us sols "wd_used wd - wd_gone wd" "wd_jobs wd" "wd_nodes wd" "wd_server wd" w now n]
      inv us w s by (auto simp: task_inv_def A)
qed (use inv w in \<open>auto simp: task_inv_def\<close>)

lemma session_inv_gone: "task_inv knows ok t us sols wd \<Longrightarrow> task_inv knows ok t us sols
    (wd\<lparr>wd_server := remove_worker w (wd_server wd), wd_jobs := (wd_jobs wd)(w := []),
        wd_gone := insert w (wd_gone wd), wd_used := insert w (wd_used wd)\<rparr>)"
  by (auto simp: task_inv_def inv_defs remove_worker_def set_remove1_eq)

context worker_contract
begin

lemma task_inv_answer:
  assumes inv: "task_inv knows ok t us (sols t) wd" and us: "\<forall>u \<in> set us. unit_sound u"
    and t: "utf8_ok t" "t \<noteq> []" and m: "wd_jobs wd w = m # ms" "work (wd_nodes wd w) m = Inr (n, r)"
  shows "\<exists>p i. r = Some (create_status_request (PStatus p)) \<and> ms = [] \<and> w \<in> wd_used wd - wd_gone wd
    \<and> ws_current_unit_index (sv_sessions (wd_server wd) w) = Some i \<and> i < length us
    \<and> honest (sols t (us ! i)) (status_result p) \<and> ok n \<and> knows n t"
proof -
  have w: "w \<in> wd_used wd - wd_gone wd" using inv m(1) by (metis list.distinct(1) task_inv_def)
  then have "session_inv knows t us (sv_sessions (wd_server wd) w) (wd_nodes wd w)
      (wd_jobs wd w @ sent_to w (sv_sent (wd_server wd)))"
    "ok (wd_nodes wd w)" "sv_sent (wd_server wd) = []" using inv unfolding task_inv_def inv_defs by blast+
  then have "session_inv knows t us (sv_sessions (wd_server wd) w) (wd_nodes wd w) (m # ms)" "ok (wd_nodes wd w)"
    using m(1) by simp_all
  then obtain i where i: "ws_current_unit_index (sv_sessions (wd_server wd) w) = Some i" "i < length us" "ms = []"
    "job_for knows t (wd_nodes wd w) (us ! i) m" "ok (wd_nodes wd w)"
    by (auto simp: session_inv_def split: option.splits)
  from answers [OF i(5) _ i(4) t] us i(2) m(2) show ?thesis using i w by auto
qed

text \<open>Every step of a run keeps the invariant.\<close>

lemma step_inv:
  assumes "step dump work ok wd wd'" and inv: "task_inv knows ok t us (sols t) wd" and us: "\<forall>u \<in> set us. unit_sound u"
    and t: "utf8_ok t" "t \<noteq> []"
  shows "task_inv knows ok t us (sols t) wd'"
  using assms(1)
proof cases
  case (join w n now s)
  then show ?thesis using task_inv_join [OF inv us] by simp
next
  case (answer w m ms n r junk now s)
  from task_inv_answer [OF inv us t answer(2,3)] obtain p i where a: "r = create_status_request (PStatus p)" "ms = []"
    "w \<in> wd_used wd - wd_gone wd" "ws_current_unit_index (sv_sessions (wd_server wd) w) = Some i" "i < length us"
    "honest (sols t (us ! i)) (status_result p)" "ok n" "knows n t" by auto
  obtain e s1 where s1: "handle_status junk p w now (wd_server wd) = (e, s1)" by fastforce
  have "sv_sent (wd_server wd) = []" "srv_inv knows t us (sols t) (wd_used wd - wd_gone wd) (wd_jobs wd) (wd_nodes wd) (wd_server wd)"
    using inv by (auto simp: task_inv_def)
  from handle_status_sound [OF this(2) us a(3,4,5,6,8) refl this(1) s1]
  have "srv_inv knows t us (sols t) (wd_used wd - wd_gone wd) ((wd_jobs wd)(w := [])) ((wd_nodes wd)(w := n)) s1" .
  then have "srv_inv knows t us (sols t) (wd_used wd - wd_gone wd) ((wd_jobs wd)(w := ms)) ((wd_nodes wd)(w := n)) s"
    using answer(4) s1 a(1,2) srv_inv_remove
    by (auto simp: worker_read_def worker_message_def create_status_request_def mk_Message_def
        split: option.splits if_splits)
  then show ?thesis unfolding answer(1)
    using inv a by (intro task_inv_deliver) (auto simp: task_inv_def)
next
  case (silent w m ms n)
  then show ?thesis using task_inv_answer [OF inv us t silent(2,3)] by simp
next
  case (leave w)
  then show ?thesis using session_inv_gone [OF inv] by simp
next
  case (tick io "is" now s)
  then show ?thesis using task_inv_tick [OF inv us] by simp
qed

lemma reaches_inv:
  assumes "reaches dump work ok wd wd'" and "task_inv knows ok t us (sols t) wd" and "\<forall>u \<in> set us. unit_sound u"
    and "utf8_ok t" "t \<noteq> []"
  shows "task_inv knows ok t us (sols t) wd'"
  using assms by (induction rule: reaches.induct) (use step_inv in blast)+

text \<open>When all units are done, the best result is a best one of all units.\<close>

lemma task_inv_best:
  assumes "task_inv knows ok t us (sols t) wd" and "sv_coordinator (wd_server wd) = Some c" and "all_units_done c"
  shows "is_best dbl_less is_nan res_score init_result (\<Union>u \<in> set us. sols t u) (c_best_result c)"
proof -
  have part: "coord_part t us (sols t) c" using assms(1,2) by (auto simp: task_inv_def inv_defs)
  then have "\<forall>i < length us. m_status (c_units c ! i) = Done"
    using assms(3) by (auto simp: coord_part_def all_units_done_def units_inv_def list_all_length)
  then have "\<not> dbl_less (res_score x) (res_score (c_best_result c))" if "u \<in> set us" "x \<in> sols t u" for u x
    using part that by (metis best_inv_def coord_part_def in_set_conv_nth)
  then show ?thesis using part by (auto simp: is_best_def coord_part_def best_inv_def)
qed

end

section \<open>The worker keeps the contract\<close>

definition node_work ::
    "(string \<Rightarrow> string) \<Rightarrow> (json \<Rightarrow> string) \<Rightarrow> int \<Rightarrow> Worker \<Rightarrow> Message \<Rightarrow> (Worker \<times> Message option) res" where
  "node_work b64 ser junk n m = handle_message (send_message b64 (strict_dump ser)) junk m n"

definition node_ok :: "string option \<Rightarrow> (string \<times> dbl) list option \<Rightarrow> Worker \<Rightarrow> bool" where
  "node_ok dict trigrams n \<longleftrightarrow> w_dict n = dict \<and> w_trigrams n = trigrams"

definition node_knows :: "Worker \<Rightarrow> string \<Rightarrow> bool" where
  "node_knows n t \<longleftrightarrow> w_hasCiphertext n \<and> w_cachedCiphertext n = t"

definition unit_solutions ::
    "string option \<Rightarrow> (string \<times> dbl) list option \<Rightarrow> string \<Rightarrow> Unit \<Rightarrow> Result set" where
  "unit_solutions dict trigrams t u =
     (let msg = message_of (m_cipher u) t
      in solution (new_Decryptor (Some msg) dict trigrams) msg u ` set (unit_keys u))"

lemma status_message_sent:
  assumes "utf8_ok t" and "same_shape t (res_text r)" and "ascii (res_key r)"
  shows "\<exists>bs. send_message b64 (strict_dump ser) (status_message junk c r) = Inr bs"
proof -
  have "utf8_ok (res_text r)" using assms(1) shape_utf8 [OF assms(2)] by (simp add: utf8_ok_def)
  then show ?thesis using ascii_utf8_ok [OF assms(3)] utf8_ok_name(4) [of REQUEST]
    by (auto simp: send_message_eq status_message_def create_status_request_def mk_Message_def message_to_json_def
        status_to_json_def new_StatusPayload_def strict_dump_def utf8_ok_fields utf8_ok_keys)
qed

interpretation node: worker_contract "node_work b64 ser junk" "node_ok dict trigrams" node_knows
  "unit_solutions dict trigrams" for b64 ser junk dict trigrams
proof unfold_locales
  fix n u t m
  assume n: "node_ok dict trigrams n" and u: "unit_sound u" and m: "job_for node_knows t n u m"
    and t: "utf8_ok t" "t \<noteq> []"
  obtain p where p: "m = create_decrypt_request (PDecrypt p)" "carries u p"
    "dp_cipher_text p = t \<or> dp_cipher_text p = [] \<and> node_knows n t" using m by (auto simp: job_for_def)
  then have has: "dp_cipher_text p \<noteq> [] \<or> w_hasCiphertext n" and tx: "text_for p n = t"
    using t(2) by (auto simp: node_knows_def text_for_def)
  obtain n' r where r: "handle_message (send_message b64 (strict_dump ser)) junk m n
      = Inr (n', Some (status_message junk (m_cipher u) r))"
    "honest (unit_solutions dict trigrams t u) r" "w_cachedCiphertext n' = t" "w_hasCiphertext n'"
    "w_dict n' = dict" "w_trigrams n' = trigrams"
    using worker_answer [OF u p(2) has, of "send_message b64 (strict_dump ser)" junk]
      status_message_sent [OF t(1)] n unfolding tx p(1) by (auto simp: node_ok_def unit_solutions_def Let_def)
  have "status_result (new_StatusPayload junk (m_cipher u) (res_text r) (res_key r) (res_score r)) = r"
    by (simp add: status_result_def new_StatusPayload_def)
  then show "\<exists>n' p. node_work b64 ser junk n m = Inr (n', Some (create_status_request (PStatus p)))
      \<and> honest (unit_solutions dict trigrams t u) (status_result p) \<and> node_ok dict trigrams n' \<and> node_knows n' t"
    using r by (auto simp: node_work_def status_message_def node_ok_def node_knows_def)
qed

section \<open>Starting a task\<close>

definition task_ok :: "DecryptPayload \<Rightarrow> bool" where
  "task_ok p \<longleftrightarrow> dp_cipher p = CAESAR \<or> dp_cipher p = VIGENERE \<and> 1 \<le> dp_key_length p \<and> dp_key_length p \<le> 6"

definition task_text :: "DecryptPayload \<Rightarrow> string" where
  "task_text p = (if dp_cipher p = VIGENERE \<and> dp_mode p = FAST then crop_text (dp_cipher_text p) else dp_cipher_text p)"

definition task_key_length :: "DecryptPayload \<Rightarrow> int" where
  "task_key_length p = (if dp_cipher p = CAESAR then 1 else dp_key_length p)"

definition task_policy :: "DecryptPayload \<Rightarrow> StaticPolicy" where
  "task_policy p = new_StaticPolicy (26 ^ nat (task_key_length p)) (if dp_cipher p = CAESAR then 5 else 10000)
     (dp_noise p) (dp_cipher p) (dp_mode p) (task_key_length p)"

lemma task_key_length_cases:
  assumes "task_ok p"
  shows "task_key_length p \<in> {1, 2, 3, 4, 5, 6}"
  using assms by (auto simp: task_ok_def task_key_length_def)

lemma key_space_ok: "k \<in> {1, 2, 3, 4, 5, 6} \<Longrightarrow> key_space k = Inr (26 ^ nat k) \<and> 26 ^ nat k \<le> (308915776 :: int)"
  by (auto simp: key_space_def intro!: dbl_to_int_of_int int_okI)

lemma task_policy_valid:
  assumes "task_ok p"
  shows "sp_valid (task_policy p)"
proof -
  have "0 \<le> (26 :: int) ^ nat (task_key_length p)" "(26 :: int) ^ nat (task_key_length p) \<le> 308915776"
    using key_space_ok [OF task_key_length_cases [OF assms]] by simp_all
  then show ?thesis by (auto simp: sp_valid_def task_policy_def new_StaticPolicy_def intro!: int_okI)
qed

lemma handle_task_policy:
  assumes "task_ok p"
  shows "handle_task srt parse junk p now s
    = set_task parse junk (message_of (dp_cipher p) (task_text p)) (task_policy p) (dp_mode p) now
        (s\<lparr>sv_client := map_option (\<lambda>cl. cl\<lparr>cs_current_cipher := dp_cipher p\<rparr>) (sv_client s),
           sv_full_ciphertext := dp_cipher_text p, sv_cipher_type := dp_cipher p\<rparr>)"
proof (cases "dp_cipher p = CAESAR")
  case True
  then show ?thesis
    by (simp add: handle_task_def message_of_def task_text_def task_policy_def task_key_length_def)
next
  case False
  then have v: "dp_cipher p = VIGENERE" "\<not> dp_key_length p < 1" "\<not> 7 < dp_key_length p"
    "task_key_length p = dp_key_length p" using assms by (auto simp: task_ok_def task_key_length_def)
  then have "key_space (dp_key_length p) = Inr (26 ^ nat (dp_key_length p))"
    using key_space_ok [OF task_key_length_cases [OF assms]] by simp
  then show ?thesis
    using v by (simp add: handle_task_def Let_def choose_key_length_def message_of_def task_text_def task_policy_def)
qed

lemma policy_unit_sound:
  assumes p: "task_ok p" and u: "unit_task u = sp_task (task_policy p)" "0 \<le> m_start u" "m_start u \<le> m_end u"
    "m_end u < sp_total_keys (task_policy p)"
  shows "unit_sound u"
proof -
  have t: "m_cipher u = dp_cipher p" "m_key_length u = task_key_length p"
    using u(1) by (simp_all add: unit_task_def sp_task_def task_policy_def new_StaticPolicy_def)
  have k: "1 \<le> task_key_length p" "task_key_length p \<le> 6" using task_key_length_cases [OF p] by auto
  have "(26 :: int) ^ nat (task_key_length p) \<le> 308915776" "sp_total_keys (task_policy p) = 26 ^ nat (task_key_length p)"
    using key_space_ok [OF task_key_length_cases [OF p]] by (simp_all add: task_policy_def new_StaticPolicy_def)
  then have "int_ok (m_end u)" "m_end u < 26 ^ nat (task_key_length p)" using u by (auto intro!: int_okI)
  moreover have "dp_cipher p = CAESAR \<and> task_key_length p = 1 \<or> dp_cipher p = VIGENERE"
    using p by (auto simp: task_ok_def task_key_length_def)
  ultimately show ?thesis using u k by (auto simp: unit_sound_def t)
qed

lemma assign_all_core:
  assumes "core_inv knows t us sols A jobs nodes s" and "\<forall>u \<in> set us. unit_sound u"
    and "distinct ws" and "set ws \<inter> A = {}" and "\<forall>w \<in> set ws. is_free (sv_sessions s w) \<and> jobs w = []"
  shows "\<exists>s'. assign_all ws now s = Inr s' \<and> core_inv knows t us sols (A \<union> set ws) jobs nodes s' \<and> sv_workers s' = sv_workers s"
  using assms
proof (induction ws arbitrary: s A)
  case (Cons w ws)
  let ?s = "upd_session w (\<lambda>x. x\<lparr>ws_text_sent := False\<rparr>) s"
  have w: "w \<notin> A" "is_free (sv_sessions s w)" "jobs w = []" using Cons.prems by auto
  then have "session_inv knows t us (sv_sessions ?s w) (nodes w) (jobs w @ sent_to w (sv_sent ?s))"
    using Cons.prems(1) by (simp add: session_inv_def upd_session_def is_free_def core_inv_def)
  then have "core_inv knows t us sols (insert w A) jobs nodes ?s"
    using Cons.prems(1) w(1) by (auto simp: core_inv_def upd_session_def)
  moreover have "is_free (sv_sessions ?s w)" using w by (simp add: upd_session_def is_free_def)
  ultimately obtain s1 where s1: "spawn_assign w now ?s = Inr s1" "core_inv knows t us sols (insert w A) jobs nodes s1"
    "sv_workers s1 = sv_workers ?s" "\<forall>v. v \<noteq> w \<longrightarrow> sv_sessions s1 v = sv_sessions ?s v"
    using spawn_assign_core [of knows t us sols "insert w A" jobs nodes ?s w now] Cons.prems(2) by auto
  have "\<exists>s'. assign_all ws now s1 = Inr s' \<and> core_inv knows t us sols (insert w A \<union> set ws) jobs nodes s'
      \<and> sv_workers s' = sv_workers s1"
    using Cons.prems s1 by (intro Cons.IH) (auto simp: upd_session_def)
  then show ?case using s1 by (auto simp: upd_session_def)
qed simp

text \<open>
  A cluster at rest: the workers that are alive are registered and free, and no request is open. It is idle if there
  is no checkpoint to resume from either.
\<close>

definition at_rest :: "('n \<Rightarrow> bool) \<Rightarrow> 'n World \<Rightarrow> bool" where
  "at_rest ok wd \<longleftrightarrow> sv_sent (wd_server wd) = [] \<and> distinct (sv_workers (wd_server wd))
     \<and> wd_gone wd \<subseteq> wd_used wd \<and> wd_used wd - wd_gone wd = set (sv_workers (wd_server wd))
     \<and> (\<forall>w. wd_jobs wd w = [])
     \<and> (\<forall>w \<in> set (sv_workers (wd_server wd)). is_free (sv_sessions (wd_server wd) w) \<and> ok (wd_nodes wd w))"

definition idle_world :: "('n \<Rightarrow> bool) \<Rightarrow> 'n World \<Rightarrow> bool" where
  "idle_world ok wd \<longleftrightarrow> at_rest ok wd \<and> sv_files (wd_server wd) (sv_checkpoint_path (wd_server wd)) = None"

lemma fresh_coord_part:
  assumes "c_best_result c = init_result" and "\<forall>u \<in> set (c_units c). m_status u = Unassigned"
    and "\<not> c_solved c" and "c_pending_units c = Map.empty"
  shows "coord_part (get_text (c_message c)) (c_units c) sols c"
proof -
  have "m_status (c_units c ! i) \<noteq> Done" if "i < length (c_units c)" for i
    using assms(2) that by (metis UnitStatus.distinct(3) nth_mem)
  then show ?thesis
    using assms dbl_less_irrefl by (auto simp: coord_part_def units_inv_def best_inv_def init_result_def)
qed

text \<open>The server when a request is accepted, before the first units go out.\<close>

definition task_server :: "DecryptPayload \<Rightarrow> Coordinator \<Rightarrow> Server \<Rightarrow> Server" where
  "task_server p c s = s\<lparr>sv_client := map_option (\<lambda>cl. cl\<lparr>cs_current_cipher := dp_cipher p\<rparr>) (sv_client s),
     sv_full_ciphertext := dp_cipher_text p, sv_cipher_type := dp_cipher p, sv_coordinator := Some c,
     sv_last_checkpoint_done := 0\<rparr>"

lemma task_coordinator:
  assumes p: "task_ok p"
  obtains c where "new_Coordinator (message_of (dp_cipher p) (task_text p)) (task_policy p) = Some (Inr c)"
    "c_units c \<noteq> []" "\<forall>u \<in> set (c_units c). m_status u = Unassigned \<and> unit_task u = sp_task (task_policy p)"
    "\<forall>u \<in> set (c_units c). unit_sound u" "concat (map unit_keys (c_units c)) = [0..26 ^ nat (task_key_length p) - 1]"
    "\<not> c_solved c" "\<forall>sols. coord_part (task_text p) (c_units c) sols (set_mode (dp_mode p) c)"
proof -
  let ?msg = "message_of (dp_cipher p) (task_text p)" and ?pol = "task_policy p"
  obtain c where c: "new_Coordinator ?msg ?pol = Some (Inr c)"
    "c_message c = ?msg" "c_best_result c = init_result" "c_done_count c = 0" "\<not> c_solved c"
    "c_pending_units c = Map.empty"
    "concat (map unit_keys (c_units c)) = [sp_current_start ?pol..sp_total_keys ?pol - 1]"
    "\<forall>u \<in> set (c_units c). m_status u = Unassigned \<and> unit_task u = sp_task ?pol
       \<and> sp_current_start ?pol \<le> m_start u \<and> m_start u \<le> m_end u \<and> m_end u < sp_total_keys ?pol"
    by (rule new_Coordinator_total [OF task_policy_valid [OF p]])
  have pol: "sp_current_start ?pol = 0" "sp_total_keys ?pol = 26 ^ nat (task_key_length p)"
    by (simp_all add: task_policy_def new_StaticPolicy_def)
  have sound: "\<forall>u \<in> set (c_units c). unit_sound u" using c(8) policy_unit_sound [OF p] pol by auto
  have "[0..26 ^ nat (task_key_length p) - 1 :: int] \<noteq> []" by (simp add: not_less)
  then have ne: "c_units c \<noteq> []" using c(7) pol by auto
  have "coord_part (task_text p) (c_units c) sols (set_mode (dp_mode p) c)" for sols
    using fresh_coord_part [of "set_mode (dp_mode p) c" sols] c by (simp add: set_mode_def message_of_def split: if_splits)
  then show ?thesis using that [OF c(1) ne _ sound] c(5,7,8) pol by simp
qed

text \<open>Leasing the first units to the workers of a cluster at rest.\<close>

lemma assign_all_start:
  assumes rest: "at_rest ok wd" and c: "coord_part t us sols c" "\<forall>u \<in> set us. unit_sound u"
    and s1: "sv_coordinator s1 = Some c" "sv_workers s1 = sv_workers (wd_server wd)"
      "sv_sessions s1 = sv_sessions (wd_server wd)" "sv_sent s1 = []"
  shows "\<exists>s. assign_all (sv_workers (wd_server wd)) now s1 = Inr s \<and> task_inv knows ok t us sols (deliver s wd)"
proof -
  let ?ws = "sv_workers (wd_server wd)"
  have core: "core_inv knows t us sols {} (wd_jobs wd) (wd_nodes wd) s1" using c(1) s1 by (simp add: core_inv_def)
  have "\<exists>s. assign_all ?ws now s1 = Inr s \<and> core_inv knows t us sols ({} \<union> set ?ws) (wd_jobs wd) (wd_nodes wd) s
      \<and> sv_workers s = sv_workers s1"
    using rest s1(3) by (intro assign_all_core [OF core c(2)]) (auto simp: at_rest_def)
  then obtain s where s: "assign_all ?ws now s1 = Inr s" "core_inv knows t us sols (set ?ws) (wd_jobs wd) (wd_nodes wd) s"
    "sv_workers s = ?ws" using s1(2) by auto
  then have "task_inv knows ok t us sols (deliver s wd)"
    using rest by (intro task_inv_deliver) (auto simp: srv_inv_def at_rest_def)
  then show ?thesis using s(1) by blast
qed

lemma task_begin:
  assumes idle: "idle_world ok wd" and p: "task_ok p"
    and c: "new_Coordinator (message_of (dp_cipher p) (task_text p)) (task_policy p) = Some (Inr c)" "c_units c \<noteq> []"
      "\<forall>u \<in> set (c_units c). m_status u = Unassigned" "\<not> c_solved c"
  shows "handle_task srt parse junk p now (wd_server wd) = Some (case assign_all (sv_workers (wd_server wd)) now
       (task_server p (set_mode (dp_mode p) c) (wd_server wd)) of Inl e \<Rightarrow> (Some e, task_server p (set_mode (dp_mode p) c) (wd_server wd))
     | Inr s2 \<Rightarrow> (None, s2))"
proof -
  let ?msg = "message_of (dp_cipher p) (task_text p)" and ?c = "set_mode (dp_mode p) c" and ?s = "wd_server wd"
  have busy: "\<not> all_units_done ?c" using c(2-4) by (cases "c_units c") (auto simp: all_units_done_def set_mode_def)
  have "load_checkpoint parse (sv_checkpoint_path ?s) (get_text ?msg) (sv_files ?s) ?c = Inr (False, ?c)"
    using idle by (simp add: load_checkpoint_def idle_world_def)
  then show ?thesis
    using c(1) busy by (simp add: handle_task_policy [OF p] set_task_def Let_def task_server_def cong: sum.case_cong)
qed

lemma task_start:
  assumes idle: "idle_world ok wd" and p: "task_ok p"
  obtains c s where "handle_task srt parse junk p now (wd_server wd) = Some (None, s)"
    "assign_all (sv_workers (wd_server wd)) now (task_server p c (wd_server wd)) = Inr s"
    "\<forall>sols. task_inv knows ok (task_text p) (c_units c) sols (deliver s wd)" "\<forall>u \<in> set (c_units c). unit_sound u"
    "concat (map unit_keys (c_units c)) = [0..26 ^ nat (task_key_length p) - 1]"
    "\<forall>u \<in> set (c_units c). unit_task u = sp_task (task_policy p)"
    "c_units c \<noteq> []" "\<not> c_solved c" "\<forall>u \<in> set (c_units c). m_status u = Unassigned"
proof -
  let ?ws = "sv_workers (wd_server wd)"
  obtain c where c: "new_Coordinator (message_of (dp_cipher p) (task_text p)) (task_policy p) = Some (Inr c)"
    "c_units c \<noteq> []" "\<forall>u \<in> set (c_units c). m_status u = Unassigned \<and> unit_task u = sp_task (task_policy p)"
    "\<forall>u \<in> set (c_units c). unit_sound u" "concat (map unit_keys (c_units c)) = [0..26 ^ nat (task_key_length p) - 1]"
    "\<not> c_solved c" "\<forall>sols. coord_part (task_text p) (c_units c) sols (set_mode (dp_mode p) c)"
    by (rule task_coordinator [OF p])
  let ?c = "set_mode (dp_mode p) c"
  let ?s1 = "task_server p ?c (wd_server wd)"
  have rest: "at_rest ok wd" using idle by (simp add: idle_world_def)
  have run: "\<exists>s. assign_all ?ws now ?s1 = Inr s \<and> task_inv knows ok (task_text p) (c_units c) sols (deliver s wd)" for sols
    using rest c(7) by (intro assign_all_start [OF rest _ c(4)]) (auto simp: task_server_def at_rest_def)
  then obtain s where s: "assign_all ?ws now ?s1 = Inr s" by blast
  then have "task_inv knows ok (task_text p) (c_units c) sols (deliver s wd)" for sols using run [of sols] by auto
  moreover have "handle_task srt parse junk p now (wd_server wd) = Some (None, s)"
    using task_begin [OF idle p c(1,2) _ c(6), of srt parse junk now] c(3) s by simp
  ultimately show ?thesis using that [of s ?c] c s by (simp add: set_mode_def)
qed

text \<open>All solutions of a task, over its whole key space.\<close>

definition task_solutions ::
    "string option \<Rightarrow> (string \<times> dbl) list option \<Rightarrow> DecryptPayload \<Rightarrow> Result set" where
  "task_solutions dict trigrams p =
     (let msg = message_of (dp_cipher p) (task_text p)
      in solution (new_Decryptor (Some msg) dict trigrams) msg
           (new_Unit 0 0 (dp_cipher p) (dp_mode p) (task_key_length p) (dp_noise p))
         ` {0..26 ^ nat (task_key_length p) - 1})"

lemma solution_task: "unit_task u = unit_task v \<Longrightarrow> solution d msg u = solution d msg v"
  by (simp add: unit_task_def solution_def key_score_def fun_eq_iff Let_def)

lemma task_solutions_units:
  assumes "concat (map unit_keys us) = [0..26 ^ nat (task_key_length p) - 1]"
    and "\<forall>u \<in> set us. unit_task u = sp_task (task_policy p)"
  shows "(\<Union>u \<in> set us. unit_solutions dict trigrams (task_text p) u) = task_solutions dict trigrams p"
proof -
  let ?msg = "message_of (dp_cipher p) (task_text p)"
  let ?f = "solution (new_Decryptor (Some ?msg) dict trigrams) ?msg
    (new_Unit 0 0 (dp_cipher p) (dp_mode p) (task_key_length p) (dp_noise p))"
  have "unit_solutions dict trigrams (task_text p) u = ?f ` set (unit_keys u)" if "u \<in> set us" for u
  proof -
    have u: "unit_task u = unit_task (new_Unit 0 0 (dp_cipher p) (dp_mode p) (task_key_length p) (dp_noise p))"
      "m_cipher u = dp_cipher p"
      using assms(2) that by (auto simp: unit_task_def sp_task_def task_policy_def new_StaticPolicy_def new_Unit_def)
    show ?thesis by (simp only: unit_solutions_def Let_def u(2) solution_task [OF u(1)])
  qed
  then have "(\<Union>u \<in> set us. unit_solutions dict trigrams (task_text p) u) = ?f ` (\<Union>u \<in> set us. set (unit_keys u))"
    by (simp add: image_UN)
  also have "(\<Union>u \<in> set us. set (unit_keys u)) = set (concat (map unit_keys us))" by simp
  also have "\<dots> = {0..26 ^ nat (task_key_length p) - 1}" by (simp only: assms(1) set_upto)
  finally show ?thesis by (simp add: task_solutions_def Let_def)
qed

text \<open>The search, from a request to the end of all units.\<close>

lemma task_search:
  assumes "task_ok p" and "utf8_ok (task_text p)" and "task_text p \<noteq> []" and "idle_world (node_ok dict trigrams) wd"
  shows "\<exists>s. handle_task srt parse junk0 p now (wd_server wd) = Some (None, s)
    \<and> (\<forall>wd' c. reaches dump (node_work b64 ser junk) (node_ok dict trigrams) (deliver s wd) wd'
         \<longrightarrow> sv_coordinator (wd_server wd') = Some c \<longrightarrow> all_units_done c
         \<longrightarrow> is_best dbl_less is_nan res_score init_result (task_solutions dict trigrams p) (c_best_result c))"
proof -
  obtain c s where s: "handle_task srt parse junk0 p now (wd_server wd) = Some (None, s)"
    "assign_all (sv_workers (wd_server wd)) now (task_server p c (wd_server wd)) = Inr s"
    "\<forall>sols. task_inv node_knows (node_ok dict trigrams) (task_text p) (c_units c) sols (deliver s wd)"
    "\<forall>u \<in> set (c_units c). unit_sound u" "concat (map unit_keys (c_units c)) = [0..26 ^ nat (task_key_length p) - 1]"
    "\<forall>u \<in> set (c_units c). unit_task u = sp_task (task_policy p)"
    "c_units c \<noteq> []" "\<not> c_solved c" "\<forall>u \<in> set (c_units c). m_status u = Unassigned"
    by (rule task_start [OF assms(4,1), of srt parse junk0 now node_knows])
  then show ?thesis
    using node.reaches_inv [OF _ _ s(4) assms(2,3)] node.task_inv_best task_solutions_units [OF s(5,6)] by metis
qed

section \<open>Properties\<close>

text \<open>C1. The distributed search is complete and correct. A task whose text is valid UTF-8 starts on a
  cluster at rest, and in whatever order workers connect, answer, are lost or time out: once all units
  are done, the coordinator's best result is a best one of the whole key space, with the key, its score
  and the text it decrypts to.\<close>

theorem search_complete:
  assumes "task_ok p" and "utf8_ok (task_text p)" and "task_text p \<noteq> []" and "idle_world (node_ok dict trigrams) wd"
  shows "\<exists>s. handle_task srt parse junk0 p now (wd_server wd) = Some (None, s)
    \<and> (\<forall>wd' c. reaches dump (node_work b64 ser junk) (node_ok dict trigrams) (deliver s wd) wd'
         \<longrightarrow> sv_coordinator (wd_server wd') = Some c \<longrightarrow> all_units_done c
         \<longrightarrow> is_best dbl_less is_nan res_score init_result (task_solutions dict trigrams p) (c_best_result c))"
  using assms by (rule task_search)

text \<open>The example: a Caesar text and a cluster without workers at first.\<close>

definition demo_payload :: DecryptPayload where
  "demo_payload = \<lparr>dp_cipher = CAESAR, dp_mode = BRUTE, dp_cipher_text = ''Khoor'', dp_noise = 0, dp_start_key = [],
     dp_end_key = [], dp_key_length = 1\<rparr>"

definition demo_world :: "Worker World" where
  "demo_world = \<lparr>wd_server = (new_Server ''cp'' Map.empty)\<lparr>sv_client := Some \<lparr>cs_current_cipher = CIPHER_UNKNOWN\<rparr>\<rparr>,
     wd_jobs = (\<lambda>w. []), wd_nodes = (\<lambda>w. new_Worker None None), wd_used = {}, wd_gone = {}, wd_results = []\<rparr>"

theorem search_complete_witness:
  "\<exists>s. handle_task stable_desc (\<lambda>x. Inr JNull) 0 demo_payload 0 (wd_server demo_world) = Some (None, s)
    \<and> (\<forall>wd' c. reaches (\<lambda>j. Inr []) (node_work id (\<lambda>j. []) 0) (node_ok None None) (deliver s demo_world) wd'
         \<longrightarrow> sv_coordinator (wd_server wd') = Some c \<longrightarrow> all_units_done c
         \<longrightarrow> is_best dbl_less is_nan res_score init_result (task_solutions None None demo_payload) (c_best_result c))"
proof (rule search_complete)
  have "utf8_ok ''Khoor''" unfolding utf8_ok_def by code_simp
  then show "utf8_ok (task_text demo_payload)" by (simp add: task_text_def demo_payload_def)
qed (simp_all add: task_ok_def task_text_def demo_payload_def idle_world_def at_rest_def demo_world_def new_Server_def)

end
