(* ===== verification/Dbl_Type.thy ===== *)
theory Dbl_Type
  imports Rounding
begin

text \<open>
  Every operation on doubles gives a double: a full significand, or the smallest exponent (\<open>dbl_wf\<close>). So a value that the
  program computes is one that has a text and that is read back.
\<close>

section \<open>Rounding\<close>

lemma rne_bounds: "n div pow2 t \<le> rne n t" "rne n t \<le> n div pow2 t + 1"
  by (simp_all add: rne_def Let_def)

lemma pow2_mono: "a \<le> b \<Longrightarrow> pow2 a \<le> pow2 b"
  by (simp add: pow2_eq nat_mono power_increasing)

lemma shifted_range:
  assumes n: "0 < n" and t: "bits n - 53 \<le> t"
  shows "0 \<le> shifted n t \<and> shifted n t \<le> 9007199254740992 \<and> (t = bits n - 53 \<longrightarrow> 4503599627370496 \<le> shifted n t)"
proof (cases "t \<le> 0")
  case True
  note b = bits_bounds [OF n]
  have "n * pow2 (- t) < pow2 (bits n) * pow2 (- t)" using b by simp
  also have "\<dots> = pow2 (bits n - t)" using b True pow2_add [of "bits n" "- t"] by simp
  also have "\<dots> \<le> pow2 53" using t by (intro pow2_mono) simp
  finally have "n * pow2 (- t) < 9007199254740992" by (simp add: pow2_eq [of 53])
  moreover have "4503599627370496 \<le> n * pow2 (- t)" if "t = bits n - 53"
  proof -
    have "pow2 52 = pow2 (bits n - 1) * pow2 (- t)" using b True pow2_add [of "bits n - 1" "- t"] that by simp
    also have "\<dots> \<le> n * pow2 (- t)" using b by simp
    finally show ?thesis by (simp add: pow2_eq [of 52])
  qed
  moreover have "0 \<le> n * pow2 (- t)" using n by (simp add: less_imp_le)
  ultimately show ?thesis using True by (simp add: shifted_def)
next
  case False
  note b = bits_bounds [OF n]
  have "pow2 (bits n) \<le> pow2 (53 + t)" using t by (intro pow2_mono) simp
  then have "n < 9007199254740992 * pow2 t" using b False pow2_add [of 53 t] by (simp add: pow2_eq [of 53])
  moreover have "n div pow2 t * pow2 t \<le> n" using pos_mod_sign [of "pow2 t" n] div_mult_mod_eq [of n "pow2 t"] pow2_pos [of t] by linarith
  ultimately have "n div pow2 t * pow2 t < 9007199254740992 * pow2 t" by linarith
  then have "n div pow2 t < 9007199254740992" by (rule mult_right_less_imp_less) (simp add: less_imp_le)
  moreover have "4503599627370496 \<le> n div pow2 t" if "t = bits n - 53"
  proof -
    have "pow2 52 * pow2 t = pow2 (52 + t)" using False by (intro pow2_add [symmetric]) simp_all
    also have "52 + t = bits n - 1" using that by simp
    finally have "pow2 52 * pow2 t \<le> n" using b by simp
    then have "pow2 52 * pow2 t div pow2 t \<le> n div pow2 t" by (intro zdiv_mono1) simp_all
    then show ?thesis by (simp add: pow2_eq)
  qed
  moreover have "0 \<le> n div pow2 t" using n by (simp add: pos_imp_zdiv_nonneg_iff)
  ultimately show ?thesis using False rne_bounds [of n t] by (auto simp: shifted_def)
qed

lemma finish_wf:
  assumes "0 \<le> m" "m \<le> 9007199254740992" "EMIN \<le> e" "4503599627370496 \<le> m \<or> e = EMIN"
  shows "dbl_wf (finish s m e)"
  using assms by (auto simp: finish_def Let_def EMIN_def EMAX_def)

lemma round_dyadic_wf:
  assumes "0 \<le> n"
  shows "dbl_wf (round_dyadic s n q)"
proof (cases "n = 0")
  case False
  then have n: "0 < n" using assms by simp
  define t where "t = max (bits n - 53) (EMIN - q)"
  have "EMIN \<le> q + t" "t = bits n - 53 \<or> q + t = EMIN" "bits n - 53 \<le> t" by (auto simp: t_def)
  then have "dbl_wf (finish s (shifted n t) (q + t))" using shifted_range [OF n, of t] by (intro finish_wf) auto
  then show ?thesis using n by (simp add: round_dyadic_shifted t_def)
qed (simp add: round_dyadic_def)

lemma div_dyadic_wf:
  assumes "0 \<le> m" and "0 < m'"
  shows "dbl_wf (div_dyadic s m e m' e')"
proof -
  have "0 \<le> m * pow2 (56 + bits m') div m'" using assms pow2_pos [of "56 + bits m'"]
    by (simp add: pos_imp_zdiv_nonneg_iff less_imp_le del: pow2_pos)
  then show ?thesis unfolding div_dyadic_def Let_def by (intro round_dyadic_wf) simp
qed

section \<open>Arithmetic\<close>

lemma dbl_wf_significand: "dbl_wf (Fin s m e) \<Longrightarrow> 0 \<le> m"
  by auto

lemma dbl_wf_zero: "dbl_wf (Fin s 0 EMIN)"
  by simp

lemma dbl_ops_wf:
  assumes x: "dbl_wf x" and y: "dbl_wf y"
  shows "dbl_wf (x + y)" "dbl_wf (x - y)" "dbl_wf (x * y)" "dbl_wf (x div y)" "dbl_wf (- x)"
proof -
  have neg: "dbl_wf (dbl_neg d)" if "dbl_wf d" for d using that by (cases d) auto
  have add: "dbl_wf (dbl_add a b)" if "dbl_wf a" "dbl_wf b" for a b
    using that by (cases a; cases b) (auto simp: Let_def simp del: dbl_wf.simps(1) intro!: round_dyadic_wf dbl_wf_zero)
  show "dbl_wf (x + y)" "dbl_wf (x - y)" "dbl_wf (- x)" using add neg x y by (simp_all add: dbl_ops)
  show "dbl_wf (x * y)" using x y
    by (cases x; cases y) (auto simp: times_dbl_def simp del: dbl_wf.simps(1) intro!: round_dyadic_wf mult_nonneg_nonneg dest: dbl_wf_significand)
  show "dbl_wf (x div y)"
  proof (cases x; cases y)
    fix s m e s' m' e'
    assume "x = Fin s m e" "y = Fin s' m' e'"
    moreover from this have "0 \<le> m" "0 \<le> m'" using x y dbl_wf_significand by blast+
    ultimately show ?thesis by (simp add: divide_dbl_def del: dbl_wf.simps(1)) (auto intro: div_dyadic_wf)
  qed (use x y in \<open>auto simp: divide_dbl_def\<close>)
qed

lemma dbl_of_int_wf [simp]: "dbl_wf (dbl_of_int n)"
  by (simp add: dbl_of_int_def round_dyadic_wf)

lemma dbl_lit_wf: "\<lbrakk>0 \<le> a; 0 < b\<rbrakk> \<Longrightarrow> dbl_wf (dbl_lit a b)"
  by (simp add: dbl_lit_def div_dyadic_wf)

lemma dbl_const_wf [simp]: "dbl_wf 0" "dbl_wf 1" "dbl_wf DBL_MAX"
  by (simp_all add: dbl_ops DBL_MAX_def EMIN_def EMAX_def)

lemma decimal_to_dbl_wf: "0 \<le> m \<Longrightarrow> dbl_wf (decimal_to_dbl neg m e)"
  by (simp add: decimal_to_dbl_def round_dyadic_wf div_dyadic_wf)

end
