(* ===== verification/Answers.thy ===== *)
theory Answers
  imports Cluster Dbl_Type
begin

text \<open>
  What goes over the network can be serialised: every score the program computes is a double (so Grisu2 writes it), and a
  text that is valid UTF-8 stays so when it is decrypted. With the real serializer of the JSON library a worker therefore
  answers every unit of a valid text, and the server can send the final result.
\<close>

section \<open>Scores are doubles\<close>

lemma foldl_wf: "\<lbrakk>P a; \<And>a x. \<lbrakk>P a; x \<in> set xs\<rbrakk> \<Longrightarrow> P (f a x)\<rbrakk> \<Longrightarrow> P (foldl f a xs)"
  by (induction xs arbitrary: a) auto

lemma ENGLISH_FREQS_wf: "i < 26 \<Longrightarrow> dbl_wf (ENGLISH_FREQS ! i)"
proof -
  have "list_all dbl_wf ENGLISH_FREQS" by (simp add: ENGLISH_FREQS_def dbl_lit_wf)
  moreover have "length ENGLISH_FREQS = 26" by (simp add: ENGLISH_FREQS_def)
  ultimately show "i < 26 \<Longrightarrow> dbl_wf (ENGLISH_FREQS ! i)" by (simp add: list_all_length)
qed

lemma chi_sum_wf: "dbl_wf t \<Longrightarrow> dbl_wf (chi_sum t n obs)"
  unfolding chi_sum_def
  by (rule foldl_wf) (auto simp: chi_term_def Let_def intro!: dbl_ops_wf ENGLISH_FREQS_wf)

lemma stream_chi_wf: "dbl_wf (stream_chi k plain)"
  unfolding stream_chi_def by (rule foldl_wf) (simp_all add: chi_sum_wf)

text \<open>The entries of the trigram file are doubles, as \<^verbatim>\<open>operator>>\<close> reads them.\<close>

definition trigrams_wf :: "(string \<times> dbl) list option \<Rightarrow> bool" where
  "trigrams_wf file \<longleftrightarrow> (\<forall>es. file = Some es \<longrightarrow> list_all (\<lambda>(tri, lp). dbl_wf lp) es)"

definition table_wf :: "trigram_table \<Rightarrow> bool" where
  "table_wf t \<longleftrightarrow> dbl_wf (m_trigram_floor t) \<and> (\<forall>tri lp. m_trigrams t tri = Some lp \<longrightarrow> dbl_wf lp)"

lemma load_trigrams_wf:
  assumes "trigrams_wf file"
  shows "table_wf (load_trigrams file no_trigrams)"
proof (cases "file")
  case (Some es)
  let ?P = "\<lambda>(m, lo). dbl_wf lo \<and> (\<forall>tri lp. m tri = Some lp \<longrightarrow> dbl_wf lp)"
  let ?r = "foldl (\<lambda>(m, lo) (tri, lp). (m(tri \<mapsto> lp), if lp < lo then lp else lo)) (Map.empty, 0) es"
  have "list_all (\<lambda>(tri, lp). dbl_wf lp) es" using assms Some by (simp add: trigrams_wf_def)
  then have "?P ?r" by (intro foldl_wf [where P = ?P]) (auto simp: list_all_iff split: if_splits)
  then show ?thesis using Some
    by (cases ?r) (simp add: load_trigrams_def table_wf_def no_trigrams_def dbl_ops_wf)
qed (simp add: load_trigrams_def table_wf_def no_trigrams_def)

lemma trigram_score_wf:
  assumes "table_wf t"
  shows "dbl_wf (trigram_score t text)"
proof -
  have "dbl_wf (case m_trigrams t tri of Some lp \<Rightarrow> lp | None \<Rightarrow> m_trigram_floor t)" for tri
    using assms by (auto simp: table_wf_def split: option.split)
  then have "dbl_wf (foldl (\<lambda>s i. s + (case m_trigrams t (f i) of Some lp \<Rightarrow> lp | None \<Rightarrow> m_trigram_floor t)) 0 is)" for f and "is" :: "nat list"
    by (intro foldl_wf [where P = dbl_wf] dbl_ops_wf) simp_all
  moreover have "dbl_wf (m_trigram_floor t)" using assms by (simp add: table_wf_def)
  ultimately show ?thesis by (simp add: trigram_score_def Let_def dbl_ops_wf)
qed

lemma dict_score_wf: "dbl_wf (dict_score words text)"
  by (auto simp: dict_score_def Let_def intro!: dbl_ops_wf split: prod.split)

lemma calculate_score_wf: "dbl_wf (calculate_score text)"
  by (auto simp: calculate_score_def Let_def chi_sum_wf split: prod.split)

lemma key_score_wf:
  assumes "trigrams_wf trigrams" and "dbl_wf (m_noise u)"
  shows "dbl_wf (key_score (new_Decryptor msg' dict trigrams) msg u key)"
  using assms load_trigrams_wf [OF assms(1)]
  by (auto simp: key_score_def text_score_def Let_def new_Decryptor_def stream_chi_wf
      intro!: dbl_ops_wf trigram_score_wf dict_score_wf calculate_score_wf)

lemma honest_wf:
  "\<lbrakk>trigrams_wf trigrams; dbl_wf (m_noise u); honest (solution (new_Decryptor msg' dict trigrams) msg u ` K) r\<rbrakk> \<Longrightarrow> dbl_wf (res_score r)"
  by (auto simp: honest_def solution_def Let_def key_score_wf init_result_def)

lemma unit_solutions_wf:
  "\<lbrakk>trigrams_wf trigrams; dbl_wf (m_noise u); r \<in> unit_solutions dict trigrams t u\<rbrakk> \<Longrightarrow> dbl_wf (res_score r)"
  by (auto simp: unit_solutions_def Let_def solution_def key_score_wf)

section \<open>The answers of a worker\<close>

lemma status_message_json:
  assumes "utf8_ok t" and "same_shape t (res_text r)" and "ascii (res_key r)" and "dbl_wf (res_score r)"
  shows "\<exists>bs. send_message b64 (json_dump (-1)) (status_message junk c r) = Inr bs"
proof -
  have "utf8_ok (res_text r)" using assms(1) shape_utf8 [OF assms(2)] by (simp add: utf8_ok_def)
  then show ?thesis using status_sent [OF assms(4)] ascii_utf8_ok [OF assms(3)]
    by (simp add: status_message_def create_status_request_def)
qed

text \<open>C7. The worker answers a request for any unit of a task with a STATUS message whose result is a best
  one of that unit for the text at hand, whether the text came with the request or with an earlier one,
  and it keeps that text for the next request. The message is serialised by the JSON library, which needs the text to be
  valid UTF-8 (for any other text see C35), and the noise and the trigram table to hold doubles.\<close>

theorem worker_answers_best:
  assumes "unit_sound u" and "carries u p" and "dp_cipher_text p \<noteq> [] \<or> w_hasCiphertext wk"
    and "utf8_ok (text_for p wk)" and "dbl_wf (m_noise u)" and "trigrams_wf (w_trigrams wk)"
  shows "\<exists>wk' r. handle_message (send_message b64 (json_dump (-1))) junk (create_decrypt_request (PDecrypt p)) wk
      = Inr (wk', Some (status_message junk (m_cipher u) r))
    \<and> honest (solution (new_Decryptor (Some (message_of (m_cipher u) (text_for p wk))) (w_dict wk) (w_trigrams wk))
                (message_of (m_cipher u) (text_for p wk)) u ` set (unit_keys u)) r
    \<and> w_cachedCiphertext wk' = text_for p wk \<and> w_hasCiphertext wk'"
  using worker_answer [OF assms(1-3), of "send_message b64 (json_dump (-1))" junk]
    status_message_json [OF assms(4)] honest_wf [OF assms(6,5)] by blast

theorem worker_answers_best_witness:
  "\<exists>wk' r. handle_message (send_message (\<lambda>d. d) (json_dump (-1))) 0 (create_decrypt_request (PDecrypt
        \<lparr>dp_cipher = VIGENERE, dp_mode = BRUTE, dp_cipher_text = ''Khoor'', dp_noise = 0, dp_start_key = ''AB'',
         dp_end_key = ''AC'', dp_key_length = 2\<rparr>)) (new_Worker None None)
      = Inr (wk', Some (status_message 0 (m_cipher (new_Unit 1 2 VIGENERE BRUTE 2 0)) r))
    \<and> w_cachedCiphertext wk' = ''Khoor''"
proof -
  let ?u = "new_Unit 1 2 VIGENERE BRUTE 2 0"
  let ?p = "\<lparr>dp_cipher = VIGENERE, dp_mode = BRUTE, dp_cipher_text = ''Khoor'', dp_noise = 0,
    dp_start_key = ''AB'', dp_end_key = ''AC'', dp_key_length = 2\<rparr>"
  have "index_to_key 1 2 = ''AB''" "index_to_key 2 2 = ''AC''" by code_simp+
  then have c: "carries ?u ?p" by (simp add: carries_def encode_key_def new_Unit_def)
  have s: "unit_sound ?u" by (simp add: unit_sound_def new_Unit_def)
  have t: "text_for ?p (new_Worker None None) = ''Khoor''" by (simp add: text_for_def)
  have u: "utf8_ok ''Khoor''" unfolding utf8_ok_def by code_simp
  have d: "dbl_wf (m_noise ?u)" "trigrams_wf (w_trigrams (new_Worker None None))"
    by (simp_all add: new_Unit_def new_Worker_def trigrams_wf_def dbl_ops)
  show ?thesis using worker_answers_best [OF s c, of "new_Worker None None" "\<lambda>d. d" 0] t u d by auto
qed

section \<open>The final result\<close>

text \<open>
  A result can be sent to the client: its key decrypts the full text, and the serializer can write what comes out.
\<close>

definition deliverable :: "EncryptedMessage \<Rightarrow> Result \<Rightarrow> bool" where
  "deliverable msg r \<longleftrightarrow> (\<exists>x. decrypt msg (res_key r) = Inr x \<and> utf8_ok x) \<and> utf8_ok (res_key r) \<and> dbl_wf (res_score r)"

lemma winner_deliverable:
  assumes u: "unit_valid msg u" and key: "res_key r = ''-1'' \<or> (\<exists>i \<ge> 0. res_key r = index_to_key i (nat (m_key_length u)))"
    and "decrypt msg (res_key r) = Inr x" and "utf8_ok (get_text msg)" and "dbl_wf (res_score r)"
  shows "deliverable msg r"
proof -
  have "utf8_ok x" using shape_utf8 [OF decrypt_winner_shape [OF u key assms(3)]] assms(4) by (simp add: utf8_ok_def)
  moreover have "ascii (res_key r)" using key upper_key_ascii [OF index_to_key_upper] sentinel_ascii by metis
  ultimately show ?thesis using assms(3,5) ascii_utf8_ok by (auto simp: deliverable_def)
qed

text \<open>The text that the fast mode searches is cut after a letter, so never inside a character.\<close>

lemma utf8_decode_range:
  assumes "0 \<le> st" and "st \<le> 8"
  shows "0 \<le> utf8_decode st c \<and> utf8_decode st c \<le> 8"
proof -
  have rows: "length utf8_rows = 9" "list_all (\<lambda>row. length row = 16 \<and> list_all (\<lambda>x. 0 \<le> x \<and> x \<le> 8) row) utf8_rows"
    by (simp_all add: utf8_rows_def)
  have "nat (utf8_class (of_char c)) < 16" by (simp add: utf8_class_def)
  moreover have "length (utf8_rows ! nat st) = 16 \<and> list_all (\<lambda>x. 0 \<le> x \<and> x \<le> 8) (utf8_rows ! nat st)"
    using rows assms by (simp add: list_all_length)
  ultimately show ?thesis by (simp add: utf8_decode_def list_all_length)
qed

lemma letter_needs_accept:
  assumes "0 \<le> st" and "st \<le> 8" and "isalpha c" and "utf8_decode st c \<noteq> 1"
  shows "utf8_decode st c = 0"
proof -
  have "list_all (\<lambda>row. row ! 0 = 0 \<or> row ! 0 = 1) utf8_rows" "length utf8_rows = 9" by (simp_all add: utf8_rows_def)
  then have "utf8_rows ! nat st ! 0 = 0 \<or> utf8_rows ! nat st ! 0 = 1" using assms(1,2) by (simp add: list_all_length)
  then show ?thesis using assms(3,4) by (simp add: utf8_decode_def alpha_class)
qed

lemma crop_loop_utf8: "\<lbrakk>0 \<le> st; st \<le> 8; utf8_run st t = Inr ()\<rbrakk> \<Longrightarrow> utf8_run st (crop_loop n t) = Inr ()"
proof (induction n t arbitrary: st rule: crop_loop.induct)
  case (2 n c cs)
  have run: "utf8_decode st c \<noteq> 1" "utf8_run (utf8_decode st c) cs = Inr ()" using "2.prems"(3) by (auto simp: Let_def split: if_splits)
  note range = utf8_decode_range [OF "2.prems"(1,2), of c]
  show ?case
  proof (cases "isalpha c \<and> n + 1 = 1000")
    case True
    then show ?thesis using letter_needs_accept [OF "2.prems"(1,2) _ run(1)] by simp
  next
    case False
    then show ?thesis using "2.IH"(1) [of "utf8_decode st c"] "2.IH"(2) [of "utf8_decode st c"] run range by (auto simp: Let_def)
  qed
qed simp

lemma task_text_utf8: "utf8_ok (dp_cipher_text p) \<Longrightarrow> utf8_ok (task_text p)"
  by (simp add: task_text_def utf8_ok_def crop_text_def crop_loop_utf8)

end
