(* ===== verification/Progress.thy ===== *)
theory Progress
  imports Answers
begin

text \<open>
  Progress of the search. A calm run of the cluster has workers that connect and workers that answer, and none
  that is lost or times out. The theorem says that such a run never gets stuck: after \<open>k\<close> answers exactly \<open>k\<close>
  units are done, while units are left some worker has a request to answer, and with the answer to the last one
  the client gets the result. (With losses this does not hold, see \<open>timeout_loses_track\<close>.)
\<close>

section \<open>Calm runs\<close>

text \<open>The number counts the answers.\<close>

inductive calm ::
    "('n \<Rightarrow> Message \<Rightarrow> ('n \<times> Message option) res) \<Rightarrow> ('n \<Rightarrow> bool) \<Rightarrow> 'n World \<Rightarrow> nat \<Rightarrow> 'n World \<Rightarrow> bool"
  for work :: "'n \<Rightarrow> Message \<Rightarrow> ('n \<times> Message option) res" and ok :: "'n \<Rightarrow> bool" and wd0 :: "'n World"
where
  calm_start: "calm work ok wd0 0 wd0"
| calm_join: "\<lbrakk>calm work ok wd0 k wd; w \<notin> wd_used wd; ok n; add_worker w now (wd_server wd) = Inr s\<rbrakk>
    \<Longrightarrow> calm work ok wd0 k (deliver s (wd\<lparr>wd_used := insert w (wd_used wd), wd_nodes := (wd_nodes wd)(w := n)\<rparr>))"
| calm_answer: "\<lbrakk>calm work ok wd0 k wd; wd_jobs wd w = m # ms; work (wd_nodes wd w) m = Inr (n, Some r);
     worker_read junk r w now (wd_server wd) = Inr s\<rbrakk>
    \<Longrightarrow> calm work ok wd0 (Suc k) (deliver s (wd\<lparr>wd_jobs := (wd_jobs wd)(w := ms), wd_nodes := (wd_nodes wd)(w := n)\<rparr>))"

lemma calm_reaches: "calm work ok wd0 k wd \<Longrightarrow> reaches dump work ok wd0 wd"
  by (induction rule: calm.induct) (blast intro: reaches.start reaches.more step.join step.answer)+

section \<open>Leases and sessions\<close>

definition cur :: "Server \<Rightarrow> worker_id \<Rightarrow> nat option" where
  "cur s w = ws_current_unit_index (sv_sessions s w)"

text \<open>
  A unit is leased exactly when some worker of \<open>A\<close> holds it, and no two hold the same. \<open>busy_ok\<close>: no worker is
  idle while a unit is unassigned.
\<close>

definition lease_ok :: "worker_id set \<Rightarrow> (worker_id \<Rightarrow> nat option) \<Rightarrow> Coordinator \<Rightarrow> bool" where
  "lease_ok A f c \<longleftrightarrow> \<not> c_solved c
     \<and> (\<forall>u \<in> set (c_units c). m_status u \<in> {Unassigned, Leased, Done})
     \<and> (\<forall>i < length (c_units c). m_status (c_units c ! i) = Leased \<longleftrightarrow> (\<exists>w \<in> A. f w = Some i))
     \<and> (\<forall>w \<in> A. \<forall>i. f w = Some i \<longrightarrow> i < length (c_units c))
     \<and> (\<forall>v \<in> A. \<forall>w \<in> A. \<forall>i. f v = Some i \<longrightarrow> f w = Some i \<longrightarrow> v = w)"

definition busy_ok :: "worker_id set \<Rightarrow> (worker_id \<Rightarrow> nat option) \<Rightarrow> Coordinator \<Rightarrow> bool" where
  "busy_ok A f c \<longleftrightarrow> (has_unassigned_units c \<longrightarrow> (\<forall>w \<in> A. f w \<noteq> None))"

text \<open>What the result sent to the client depends on beside the best result.\<close>

definition client_frame :: "Server \<Rightarrow> ClientSession option \<times> string \<times> CipherType \<times> bool" where
  "client_frame s = (sv_client s, sv_full_ciphertext s, sv_cipher_type s, sv_is_subtask s)"

lemma send_unit_effect:
  assumes "send_unit i w s = (e, s')"
  shows "sv_coordinator s' = sv_coordinator s \<and> cur s' = (cur s)(w := Some i) \<and> client_frame s' = client_frame s
    \<and> sent_to_client (sv_sent s') = sent_to_client (sv_sent s)"
  using assms
  by (auto simp: send_unit_def Let_def upd_session_def emit_def cur_def client_frame_def sent_to_client_def fun_eq_iff
      split: option.splits sum.splits prod.splits if_splits)

lemma spawn_effect:
  assumes "spawn_assign w now s = Inr s'" and "sv_coordinator s = Some c" and "\<not> c_solved c"
  obtains (none) "s' = s" "\<not> has_unassigned_units c"
  | (some) i c' where "i < length (c_units c)" "m_status (c_units c ! i) = Unassigned" "sv_coordinator s' = Some c'"
      "c_units c' = (c_units c)[i := mark_as_leased (c_units c ! i)]" "\<not> c_solved c'" "cur s' = (cur s)(w := Some i)"
      "client_frame s' = client_frame s" "sent_to_client (sv_sent s') = sent_to_client (sv_sent s)"
proof (cases rule: assign_cases [of w now c])
  case n: none
  have "s' = s\<lparr>sv_coordinator := Some c\<rparr>" using assms n(1) by (simp add: spawn_assign_def)
  then have "s' = s" using assms(2) by (cases s) simp
  then show ?thesis using none n(2) assms(3) by (simp add: has_unassigned_units_def list_ex_iff)
next
  case s: (some i)
  obtain c' where c': "assign_to_worker w now c = (Some i, c')"
    "c_units c' = (c_units c)[i := mark_as_leased (c_units c ! i)]" "\<not> c_solved c'" using s by simp
  obtain e s2 where s2: "send_unit i w (s\<lparr>sv_coordinator := Some c'\<rparr>) = (e, s2)" by fastforce
  then have "s' = s2" using assms c'(1) by (auto simp: spawn_assign_def split: option.splits if_splits)
  then show ?thesis
    using some [of i c'] s(1,2) c' send_unit_effect [OF s2] by (simp add: cur_def client_frame_def fun_eq_iff)
qed

lemma lease_okD:
  assumes "lease_ok A f c"
  shows "\<not> c_solved c" "u \<in> set (c_units c) \<Longrightarrow> m_status u \<in> {Unassigned, Leased, Done}"
    "i < length (c_units c) \<Longrightarrow> m_status (c_units c ! i) = Leased \<longleftrightarrow> (\<exists>w \<in> A. f w = Some i)"
    "w \<in> A \<Longrightarrow> f w = Some i \<Longrightarrow> i < length (c_units c)"
    "v \<in> A \<Longrightarrow> w \<in> A \<Longrightarrow> f v = Some i \<Longrightarrow> f w = Some i \<Longrightarrow> v = w"
  using assms unfolding lease_ok_def by blast+

text \<open>A change of one unit and of the worker that holds it.\<close>

lemma lease_ok_update:
  assumes ok: "lease_ok A f c" and w: "w \<in> A" and i: "i < length (c_units c)"
    and u: "c_units c' = (c_units c)[i := u]" "m_status u \<in> {Unassigned, Leased, Done}" "\<not> c_solved c'"
    and other: "\<forall>v \<in> A. v \<noteq> w \<longrightarrow> f v \<noteq> Some i" and g: "g = None \<or> g = Some i" "m_status u = Leased \<longleftrightarrow> g = Some i"
    and old: "f w = None \<or> f w = Some i"
  shows "lease_ok A (f(w := g)) c'"
  unfolding lease_ok_def
proof (intro conjI ballI allI impI)
  fix x
  assume "x \<in> set (c_units c')"
  then show "m_status x \<in> {Unassigned, Leased, Done}"
    using u(1,2) lease_okD(2) [OF ok] set_update_subset_insert by (metis insertE subsetD)
next
  fix j
  assume "j < length (c_units c')"
  then show "m_status (c_units c' ! j) = Leased \<longleftrightarrow> (\<exists>v \<in> A. (f(w := g)) v = Some j)"
  proof (cases "j = i")
    case False
    then have "(\<exists>v \<in> A. (f(w := g)) v = Some j) \<longleftrightarrow> (\<exists>v \<in> A. f v = Some j)"
      using g(1) old by (metis fun_upd_apply option.distinct(1) option.inject)
    then show ?thesis using False lease_okD(3) [OF ok, of j] \<open>j < length (c_units c')\<close> u(1) by simp
  qed (use u(1) i w other g in auto)
next
  fix v j
  assume "v \<in> A" "(f(w := g)) v = Some j"
  then show "j < length (c_units c')" using lease_okD(4) [OF ok] u(1) i g by (auto split: if_splits)
next
  fix v v' j
  assume "v \<in> A" "v' \<in> A" "(f(w := g)) v = Some j" "(f(w := g)) v' = Some j"
  then show "v = v'" using lease_okD(5) [OF ok] other g by (auto split: if_splits)
qed (use u(3) in simp)

lemma lease_assign:
  assumes ok: "lease_ok A f c" and w: "w \<in> A" "f w = None" and i: "i < length (c_units c)" "m_status (c_units c ! i) = Unassigned"
    and c': "c_units c' = (c_units c)[i := mark_as_leased (c_units c ! i)]" "\<not> c_solved c'"
  shows "lease_ok A (f(w := Some i)) c' \<and> count_done (c_units c') = count_done (c_units c)"
proof
  have "\<forall>v \<in> A. f v \<noteq> Some i" using lease_okD(3) [OF ok i(1)] i(2) by auto
  then show "lease_ok A (f(w := Some i)) c'"
    using lease_ok_update [OF ok w(1) i(1) c'(1) _ c'(2), of "Some i"] w(2) by simp
  show "count_done (c_units c') = count_done (c_units c)"
    using count_done_update [OF i(1), of "mark_as_leased (c_units c ! i)"] i(2) c'(1) by simp
qed

lemma lease_finish:
  assumes ok: "lease_ok A f c" and w: "w \<in> A" "f w = Some i"
  obtains c' where "mark_unit_done i (cand_to_best r c) = Inr (True, c')" "lease_ok A (f(w := None)) c'"
    "count_done (c_units c') = Suc (count_done (c_units c))" "length (c_units c') = length (c_units c)"
    "has_unassigned_units c' \<Longrightarrow> has_unassigned_units c"
proof -
  have i: "i < length (c_units c)" "m_status (c_units c ! i) = Leased"
    using lease_okD(3,4) [OF ok] w by blast+
  let ?us = "(c_units c)[i := mark_as_done (c_units c ! i)]"
  obtain c' where c': "mark_unit_done i (cand_to_best r c) = Inr (True, c')" "c_units c' = ?us" "\<not> c_solved c'"
    using i lease_okD(1) [OF ok] by (simp add: mark_unit_done_def)
  have "\<forall>v \<in> A. v \<noteq> w \<longrightarrow> f v \<noteq> Some i" using lease_okD(5) [OF ok] w by blast
  then have "lease_ok A (f(w := None)) c'"
    using lease_ok_update [OF ok w(1) i(1) c'(2) _ c'(3), of None] w(2) by simp
  moreover have "count_done ?us = Suc (count_done (c_units c))"
    using count_done_update [OF i(1), of "mark_as_done (c_units c ! i)"] i(2) by simp
  moreover have "has_unassigned_units c" if "has_unassigned_units c'"
    using that c'(2) by (auto simp: has_unassigned_units_def list_ex_iff dest!: set_update_subset_insert [THEN subsetD])
  ultimately show ?thesis using that c' by simp
qed

text \<open>Counting: all units are done when the count says so.\<close>

lemma count_done_le: "count_done us \<le> length us"
  by (simp add: count_done_def)

lemma count_done_all: "count_done us = length us \<longleftrightarrow> (\<forall>u \<in> set us. m_status u = Done)"
proof
  assume "count_done us = length us"
  then have "\<not> (u \<in> set us \<and> m_status u \<noteq> Done)" for u
    using length_filter_less [of u us "\<lambda>u. m_status u = Done"] by (auto simp: count_done_def)
  then show "\<forall>u \<in> set us. m_status u = Done" by blast
qed (simp add: count_done_def)

section \<open>Handlers\<close>

text \<open>The state of the bookkeeping after \<open>k\<close> of \<open>n\<close> units.\<close>

definition serv_ok :: "worker_id set \<Rightarrow> nat \<Rightarrow> nat \<Rightarrow> Server \<Rightarrow> bool" where
  "serv_ok A k n s \<longleftrightarrow> (\<exists>c. sv_coordinator s = Some c \<and> lease_ok A (cur s) c \<and> busy_ok A (cur s) c
     \<and> count_done (c_units c) = k \<and> length (c_units c) = n)"

lemma spawn_lease:
  assumes c: "sv_coordinator s = Some c" "lease_ok A (cur s) c" and w: "w \<in> A" "cur s w = None"
    and run: "spawn_assign w now s = Inr s'"
  obtains c' where "sv_coordinator s' = Some c'" "lease_ok A (cur s') c'" "count_done (c_units c') = count_done (c_units c)"
    "length (c_units c') = length (c_units c)" "has_unassigned_units c' \<Longrightarrow> cur s' w \<noteq> None \<and> has_unassigned_units c"
    "\<forall>v. v \<noteq> w \<longrightarrow> cur s' v = cur s v" "client_frame s' = client_frame s"
    "sent_to_client (sv_sent s') = sent_to_client (sv_sent s)"
  using run c(1) lease_okD(1) [OF c(2)]
proof (cases rule: spawn_effect)
  case none
  then show ?thesis using that [of c] c by auto
next
  case (some i c')
  have "has_unassigned_units c" using some(1,2) by (auto simp: has_unassigned_units_def list_ex_iff intro: nth_mem)
  then show ?thesis
    using that [of c'] some lease_assign [OF c(2) w some(1,2,4,5)] by auto
qed

lemma serv_ok_assign:
  assumes c: "sv_coordinator s = Some c" "lease_ok A (cur s) c" "count_done (c_units c) = k" "length (c_units c) = n"
    and busy: "has_unassigned_units c \<longrightarrow> (\<forall>v \<in> A - {w}. cur s v \<noteq> None)"
    and w: "w \<in> A" "cur s w = None" and run: "spawn_assign w now s = Inr s'"
  shows "serv_ok A k n s' \<and> client_frame s' = client_frame s \<and> sent_to_client (sv_sent s') = sent_to_client (sv_sent s)
    \<and> (\<forall>v. v \<noteq> w \<longrightarrow> cur s' v = cur s v)"
proof -
  obtain c' where c': "sv_coordinator s' = Some c'" "lease_ok A (cur s') c'" "count_done (c_units c') = k"
    "length (c_units c') = n" "has_unassigned_units c' \<Longrightarrow> cur s' w \<noteq> None \<and> has_unassigned_units c"
    "\<forall>v. v \<noteq> w \<longrightarrow> cur s' v = cur s v" "client_frame s' = client_frame s"
    "sent_to_client (sv_sent s') = sent_to_client (sv_sent s)" using spawn_lease [OF c(1,2) w run] c(3,4) by metis
  have "busy_ok A (cur s') c'" unfolding busy_ok_def using busy c'(5,6) by (metis Diff_iff singletonD)
  then show ?thesis using c' by (auto simp: serv_ok_def)
qed

lemma serv_ok_join:
  assumes ok: "serv_ok A k n s" and w: "w \<notin> A" and run: "add_worker w now s = Inr s'"
  shows "serv_ok (insert w A) k n s' \<and> client_frame s' = client_frame s
    \<and> sent_to_client (sv_sent s') = sent_to_client (sv_sent s)
    \<and> (\<not> has_unassigned_units (the (sv_coordinator s)) \<longrightarrow> sv_coordinator s' = sv_coordinator s)"
proof -
  obtain c where c: "sv_coordinator s = Some c" "lease_ok A (cur s) c" "busy_ok A (cur s) c"
    "count_done (c_units c) = k" "length (c_units c) = n" using ok by (auto simp: serv_ok_def)
  let ?s = "s\<lparr>sv_workers := sv_workers s @ [w], sv_sessions := (sv_sessions s)(w := new_WorkerSession)\<rparr>"
  have cur: "cur ?s = (cur s)(w := None)" by (simp add: cur_def fun_eq_iff new_WorkerSession_def)
  have frame: "client_frame ?s = client_frame s" by (simp add: client_frame_def)
  have l: "lease_ok (insert w A) (cur ?s) c" using c(2) w unfolding cur lease_ok_def by auto
  show ?thesis
  proof (cases "has_unassigned_units c")
    case True
    then have "spawn_assign w now ?s = Inr s'" using run c(1) by (simp add: add_worker_def Let_def)
    moreover have "\<forall>v \<in> insert w A - {w}. cur ?s v \<noteq> None"
      using c(3) True w unfolding cur busy_ok_def by (metis Diff_insert_absorb fun_upd_other insertE Diff_iff singletonI)
    ultimately have "serv_ok (insert w A) k n s' \<and> client_frame s' = client_frame ?s
        \<and> sent_to_client (sv_sent s') = sent_to_client (sv_sent ?s)"
      using serv_ok_assign [OF _ l c(4,5), of w now s'] c(1) cur by simp
    then show ?thesis using True c(1) frame by simp
  next
    case False
    then have "s' = ?s" using run c(1) by (simp add: add_worker_def Let_def)
    then show ?thesis using False c l frame by (auto simp: serv_ok_def busy_ok_def)
  qed
qed

text \<open>The message with the result.\<close>

definition full_message :: "Server \<Rightarrow> EncryptedMessage" where
  "full_message s = (if sv_cipher_type s = CAESAR then CaesarEncryptedMessage (sv_full_ciphertext s)
     else VigenereEncryptedMessage (sv_full_ciphertext s))"

definition result_message :: "int \<Rightarrow> CipherType \<Rightarrow> string \<Rightarrow> Result \<Rightarrow> Message" where
  "result_message junk cipher t r = create_status_response (PStatus (new_StatusPayload junk cipher t (res_key r) (res_score r)))"

lemma send_result_ok:
  assumes "sv_client s = Some cl" and "deliverable (full_message s) r"
  obtains x where "decrypt (full_message s) (res_key r) = Inr x"
    "send_result_to_client junk r s = (None, emit (To_client (result_message junk (cs_current_cipher cl) x r)) s)"
proof -
  obtain x where x: "decrypt (full_message s) (res_key r) = Inr x" "utf8_ok x" "utf8_ok (res_key r)" "dbl_wf (res_score r)"
    using assms(2) by (auto simp: deliverable_def)
  have "send_result_to_client junk r s = send_final_result junk cl (r\<lparr>res_text := x\<rparr>) s"
    using assms(1) x(1) by (simp add: send_result_to_client_def full_message_def Let_def)
  then show ?thesis using that [OF x(1)] x(2-4) send_final_cases [of "r\<lparr>res_text := x\<rparr>"]
    by (simp add: final_message_def result_message_def)
qed

lemma all_done_count: "\<not> c_solved c \<Longrightarrow> all_units_done c \<longleftrightarrow> count_done (c_units c) = length (c_units c)"
  by (simp add: all_units_done_def count_done_all list_all_iff)

lemma emit_fields [simp]:
  "cur (emit x s) = cur s" "sv_coordinator (emit x s) = sv_coordinator s" "client_frame (emit x s) = client_frame s"
  by (simp_all add: emit_def cur_def client_frame_def fun_eq_iff)

text \<open>After the last answer the result goes to the client.\<close>

lemma calm_last:
  assumes c: "sv_coordinator s = Some c" "lease_ok A (cur s) c" "all_units_done c" "coord_part t us sols c"
    and cl: "sv_client s = Some cl" "sv_sent s = []"
    and dec: "\<forall>r \<in> insert init_result (\<Union>u \<in> set us. sols u). deliverable (full_message s) r"
  shows "\<exists>s' x. send_result_to_client junk (c_best_result c) s = (None, s')
    \<and> serv_ok A (count_done (c_units c)) (length (c_units c)) s' \<and> client_frame s' = client_frame s \<and> sv_coordinator s' = Some c
    \<and> decrypt (full_message s) (res_key (c_best_result c)) = Inr x
    \<and> sent_to_client (sv_sent s') = [result_message junk (cs_current_cipher cl) x (c_best_result c)]"
proof -
  have "deliverable (full_message s) (c_best_result c)" using dec c(4) unfolding coord_part_def best_inv_def by metis
  then obtain x where x: "decrypt (full_message s) (res_key (c_best_result c)) = Inr x"
    "send_result_to_client junk (c_best_result c) s
      = (None, emit (To_client (result_message junk (cs_current_cipher cl) x (c_best_result c))) s)"
    using send_result_ok [OF cl(1), of "c_best_result c" junk] by auto
  let ?s' = "emit (To_client (result_message junk (cs_current_cipher cl) x (c_best_result c))) s"
  have "\<not> has_unassigned_units c"
    using c(3) lease_okD(1) [OF c(2)] by (auto simp: all_units_done_def has_unassigned_units_def list_all_iff list_ex_iff)
  then have "serv_ok A (count_done (c_units c)) (length (c_units c)) ?s'" using c(1,2) by (simp add: serv_ok_def busy_ok_def)
  moreover have "sent_to_client (sv_sent ?s') = [result_message junk (cs_current_cipher cl) x (c_best_result c)]"
    using cl(2) by (simp add: emit_def sent_to_client_def)
  ultimately show ?thesis using x c(1) by (intro exI [of _ ?s'] exI [of _ x]) simp
qed

text \<open>After another one the worker gets the next unit, if there is one.\<close>

lemma calm_next:
  assumes inv: "srv_inv knows t us sols A jobs nodes s" and us: "\<forall>u \<in> set us. unit_sound u"
    and c: "sv_coordinator s = Some c" "lease_ok A (cur s) c" and w: "w \<in> A" "cur s w = None" and sent: "sv_sent s = []"
    and busy: "has_unassigned_units c \<longrightarrow> (\<forall>v \<in> A - {w}. cur s v \<noteq> None)"
  shows "\<exists>s'. (if has_unassigned_units c then case spawn_assign w now s of Inl e \<Rightarrow> (Some e, s) | Inr s3 \<Rightarrow> (None, s3) else (None, s))
      = (None, s') \<and> serv_ok A (count_done (c_units c)) (length (c_units c)) s' \<and> client_frame s' = client_frame s
    \<and> sent_to_client (sv_sent s') = []"
proof (cases "has_unassigned_units c")
  case False
  then show ?thesis using c sent by (simp add: serv_ok_def busy_ok_def sent_to_client_def)
next
  case True
  have "is_free (sv_sessions s w)" using w(2) by (simp add: is_free_def cur_def)
  then obtain s3 where s3: "spawn_assign w now s = Inr s3" using spawn_assign_sound [OF inv w(1) _ us] by blast
  have "serv_ok A (count_done (c_units c)) (length (c_units c)) s3 \<and> client_frame s3 = client_frame s
      \<and> sent_to_client (sv_sent s3) = sent_to_client (sv_sent s)"
    using serv_ok_assign [OF c refl refl busy w s3] by simp
  then show ?thesis using True s3 sent by (simp add: sent_to_client_def)
qed

lemma status_calm:
  assumes inv: "srv_inv knows t us sols A jobs nodes s" and us: "\<forall>u \<in> set us. unit_sound u"
    and w: "w \<in> A" "ws_current_unit_index (sv_sessions s w) = Some i" "i < length us"
    and r: "honest (sols (us ! i)) (status_result p)" and nn: "knows nd t"
    and jobs: "jobs' = jobs(w := [])" "sv_sent s = []" and ok: "serv_ok A k n s"
    and cl: "sv_client s = Some cl" "\<not> sv_is_subtask s"
    and dec: "\<forall>r \<in> insert init_result (\<Union>u \<in> set us. sols u). deliverable (full_message s) r"
  shows "\<exists>s'. handle_status junk p w now s = (None, s') \<and> serv_ok A (Suc k) n s' \<and> client_frame s' = client_frame s
    \<and> (if Suc k < n then sent_to_client (sv_sent s') = []
       else \<exists>c x. sv_coordinator s' = Some c \<and> decrypt (full_message s) (res_key (c_best_result c)) = Inr x
         \<and> sent_to_client (sv_sent s') = [result_message junk (cs_current_cipher cl) x (c_best_result c)])"
proof -
  obtain c where c: "sv_coordinator s = Some c" "lease_ok A (cur s) c" "busy_ok A (cur s) c"
    "count_done (c_units c) = k" "length (c_units c) = n" using ok by (auto simp: serv_ok_def)
  have part: "coord_part t us sols c" using inv c(1) by (auto simp: inv_defs)
  obtain c2 where c2: "mark_unit_done i (cand_to_best (status_result p) c) = Inr (True, c2)"
    "lease_ok A ((cur s)(w := None)) c2" "count_done (c_units c2) = Suc k" "length (c_units c2) = n"
    "has_unassigned_units c2 \<Longrightarrow> has_unassigned_units c"
    using lease_finish [OF c(2) w(1), of i "status_result p"] w(2) c(4,5) by (auto simp: cur_def)
  have part2: "coord_part t us sols c2" using mark_done_report [OF part w(3) r] c2(1) by auto
  let ?s = "upd_session w (\<lambda>ws. ws\<lparr>ws_current_unit_index := None\<rparr>) (s\<lparr>sv_coordinator := Some c2\<rparr>)"
  have s: "cur ?s = (cur s)(w := None)" "client_frame ?s = client_frame s" "sv_sent ?s = []" "sv_coordinator ?s = Some c2"
    "full_message ?s = full_message s" "sv_client ?s = Some cl" "\<not> sv_is_subtask ?s"
    using jobs cl by (simp_all add: cur_def fun_eq_iff upd_session_def client_frame_def full_message_def)
  have run: "handle_status junk p w now s = (if all_units_done c2 then send_result_to_client junk (c_best_result c2) ?s
      else if has_unassigned_units c2 then (case spawn_assign w now ?s of Inl e \<Rightarrow> (Some e, ?s) | Inr s3 \<Rightarrow> (None, s3))
      else (None, ?s))"
    using c(1) w(2) c2(1) s(7) by (simp add: handle_status_def Let_def status_result_def)
  have lease: "lease_ok A (cur ?s) c2" using c2(2) s(1) by simp
  have fin: "all_units_done c2 \<longleftrightarrow> \<not> Suc k < n"
    using all_done_count [OF lease_okD(1) [OF c2(2)]] c2(3,4) count_done_le [of "c_units c2"] by auto
  show ?thesis
  proof (cases "all_units_done c2")
    case True
    then show ?thesis using calm_last [OF s(4) lease True part2 s(6,3), of junk] dec fin run c2(3,4) by (simp add: s(2,5)) blast
  next
    case False
    have "srv_inv knows t us sols A jobs' (nodes(w := nd)) ?s"
      using inv part2 nn jobs by (auto simp: inv_defs upd_session_def session_inv_def)
    moreover have "has_unassigned_units c2 \<longrightarrow> (\<forall>v \<in> A - {w}. cur ?s v \<noteq> None)" using c(3) c2(5) s(1) by (auto simp: busy_ok_def)
    ultimately show ?thesis
      using calm_next [OF _ us s(4) lease w(1) _ s(3), of knows t sols jobs' "nodes(w := nd)" now] False fin run c2(3,4) s(1,2) by simp
  qed
qed

lemma assign_all_calm:
  assumes "serv_ok A k n s" "distinct ws" "set ws \<inter> A = {}" "\<forall>w \<in> set ws. cur s w = None" "assign_all ws now s = Inr s'"
  shows "serv_ok (A \<union> set ws) k n s' \<and> client_frame s' = client_frame s
    \<and> sent_to_client (sv_sent s') = sent_to_client (sv_sent s)"
  using assms
proof (induction ws arbitrary: s A)
  case (Cons w ws)
  let ?s = "upd_session w (\<lambda>x. x\<lparr>ws_text_sent := False\<rparr>) s"
  have s: "cur ?s = cur s" "sv_coordinator ?s = sv_coordinator s" "client_frame ?s = client_frame s" "sv_sent ?s = sv_sent s"
    by (simp_all add: upd_session_def cur_def client_frame_def fun_eq_iff)
  obtain s1 where s1: "spawn_assign w now ?s = Inr s1" "assign_all ws now s1 = Inr s'"
    using Cons.prems(5) by (auto simp: bindR_eq_Inr)
  obtain c where c: "sv_coordinator s = Some c" "lease_ok A (cur s) c" "busy_ok A (cur s) c"
    "count_done (c_units c) = k" "length (c_units c) = n" using Cons.prems(1) by (auto simp: serv_ok_def)
  have w: "w \<notin> A" "cur s w = None" using Cons.prems by auto
  then have "lease_ok (insert w A) (cur ?s) c" using c(2) unfolding s(1) lease_ok_def by auto
  from serv_ok_assign [OF _ this c(4,5) _ _ _ s1(1)] c(1,3) w s
  have s1': "serv_ok (insert w A) k n s1" "client_frame s1 = client_frame s"
    "sent_to_client (sv_sent s1) = sent_to_client (sv_sent s)" "\<forall>v. v \<noteq> w \<longrightarrow> cur s1 v = cur s v"
    by (auto simp: busy_ok_def)
  have "serv_ok (insert w A \<union> set ws) k n s' \<and> client_frame s' = client_frame s1
      \<and> sent_to_client (sv_sent s') = sent_to_client (sv_sent s1)"
    using Cons.prems(2-4) s1'(4) by (intro Cons.IH [OF s1'(1) _ _ _ s1(2)]) auto
  then show ?case using s1' by auto
qed simp

section \<open>Calm runs finish\<close>

lemma full_message_frame: "client_frame s = client_frame s' \<Longrightarrow> full_message s = full_message s'"
  by (simp add: client_frame_def full_message_def)

text \<open>Nothing is sent to the client before the last unit is done, and then the result.\<close>

definition results_ok :: "Server \<Rightarrow> Message list \<Rightarrow> nat \<Rightarrow> nat \<Rightarrow> 'n World \<Rightarrow> bool" where
  "results_ok s0 old k n wd \<longleftrightarrow>
     (if k < n then wd_results wd = old
      else \<exists>c x junk. sv_coordinator (wd_server wd) = Some c
        \<and> decrypt (full_message s0) (res_key (c_best_result c)) = Inr x
        \<and> wd_results wd = old @ [result_message junk (cs_current_cipher (the (sv_client s0))) x (c_best_result c)])"

lemma serv_ok_fields [simp]: "serv_ok A k n (s\<lparr>sv_sent := xs\<rparr>) = serv_ok A k n s"
  "client_frame (s\<lparr>sv_sent := xs\<rparr>) = client_frame s" "serv_ok A k n (remove_worker w s) = serv_ok A k n s"
proof -
  have "cur (s\<lparr>sv_sent := xs\<rparr>) = cur s" "cur (remove_worker w s) = cur s" by (simp_all add: cur_def fun_eq_iff remove_worker_def)
  then show "serv_ok A k n (s\<lparr>sv_sent := xs\<rparr>) = serv_ok A k n s" "serv_ok A k n (remove_worker w s) = serv_ok A k n s"
    by (simp_all add: serv_ok_def remove_worker_def)
qed (simp add: client_frame_def)

lemma serv_ok_le: "serv_ok A k n s \<Longrightarrow> k \<le> n"
  using count_done_le by (auto simp: serv_ok_def)

lemma serv_ok_done: "serv_ok A k n s \<Longrightarrow> sv_coordinator s = Some c \<Longrightarrow> all_units_done c \<longleftrightarrow> k = n"
  using all_done_count lease_okD(1) by (auto simp: serv_ok_def)

definition calm_inv ::
    "('n \<Rightarrow> string \<Rightarrow> bool) \<Rightarrow> ('n \<Rightarrow> bool) \<Rightarrow> string \<Rightarrow> Unit list \<Rightarrow> (Unit \<Rightarrow> Result set) \<Rightarrow> 'n World \<Rightarrow> nat \<Rightarrow> 'n World \<Rightarrow> bool" where
  "calm_inv knows ok t us sols wd0 k wd \<longleftrightarrow> task_inv knows ok t us sols wd
     \<and> serv_ok (wd_used wd - wd_gone wd) k (length us) (wd_server wd)
     \<and> client_frame (wd_server wd) = client_frame (wd_server wd0)
     \<and> results_ok (wd_server wd0) (wd_results wd0) k (length us) wd"

lemma calm_inv_join:
  assumes inv: "calm_inv knows ok t us sols wd0 k wd" and us: "\<forall>u \<in> set us. unit_sound u" and w: "w \<notin> wd_used wd" "ok n"
    and run: "add_worker w now (wd_server wd) = Inr s"
  shows "calm_inv knows ok t us sols wd0 k (deliver s (wd\<lparr>wd_used := insert w (wd_used wd), wd_nodes := (wd_nodes wd)(w := n)\<rparr>))"
proof -
  let ?A = "wd_used wd - wd_gone wd"
  have t: "task_inv knows ok t us sols wd" "serv_ok ?A k (length us) (wd_server wd)"
    "client_frame (wd_server wd) = client_frame (wd_server wd0)" "results_ok (wd_server wd0) (wd_results wd0) k (length us) wd"
    using inv by (simp_all add: calm_inv_def)
  have sent: "sv_sent (wd_server wd) = []" "wd_gone wd \<subseteq> wd_used wd" using t(1) by (simp_all add: task_inv_def)
  then have A: "insert w (wd_used wd) - wd_gone wd = insert w ?A" using w(1) by auto
  have j: "serv_ok (insert w ?A) k (length us) s" "client_frame s = client_frame (wd_server wd)" "sent_to_client (sv_sent s) = []"
    "\<not> has_unassigned_units (the (sv_coordinator (wd_server wd))) \<Longrightarrow> sv_coordinator s = sv_coordinator (wd_server wd)"
    using serv_ok_join [OF t(2) _ run] w(1) sent(1) by (simp_all add: sent_to_client_def)
  have "sv_coordinator s = sv_coordinator (wd_server wd)" if "\<not> k < length us"
  proof -
    obtain c where c: "sv_coordinator (wd_server wd) = Some c" "lease_ok ?A (cur (wd_server wd)) c" using t(2) by (auto simp: serv_ok_def)
    then have "all_units_done c" using serv_ok_done [OF t(2)] serv_ok_le [OF t(2)] that by auto
    then have "\<not> has_unassigned_units c" using lease_okD(1) [OF c(2)]
      by (auto simp: all_units_done_def has_unassigned_units_def list_all_iff list_ex_iff)
    then show ?thesis using j(4) c(1) by simp
  qed
  then have "results_ok (wd_server wd0) (wd_results wd0) k (length us)
      (deliver s (wd\<lparr>wd_used := insert w (wd_used wd), wd_nodes := (wd_nodes wd)(w := n)\<rparr>))"
    using t(4) j(3) by (auto simp: results_ok_def deliver_def)
  then show ?thesis
    using task_inv_join [OF t(1) us w run] j(1,2) t(3) by (simp add: calm_inv_def deliver_def A)
qed

text \<open>
  The client that asked is there, and every possible result can be sent to it.
\<close>

definition client_waits :: "string \<Rightarrow> Unit list \<Rightarrow> (Unit \<Rightarrow> Result set) \<Rightarrow> Server \<Rightarrow> bool" where
  "client_waits t us sols s \<longleftrightarrow> sv_client s \<noteq> None \<and> \<not> sv_is_subtask s
     \<and> (\<forall>r \<in> insert init_result (\<Union>u \<in> set us. sols u). deliverable (full_message s) r)"

lemma client_waits_frame: "client_frame s = client_frame s' \<Longrightarrow> client_waits t us sols s = client_waits t us sols s'"
  using full_message_frame [of s s'] by (simp add: client_waits_def client_frame_def)

lemma calm_used: "calm work ok wd0 k wd \<Longrightarrow> wd_used wd0 \<subseteq> wd_used wd \<and> wd_gone wd = wd_gone wd0"
  by (induction rule: calm.induct) (auto simp: deliver_def)

context worker_contract
begin

text \<open>An answer is handled without failure and finishes one more unit.\<close>

lemma calm_inv_answer:
  assumes inv: "calm_inv knows ok t us (sols t) wd0 k wd" and us: "\<forall>u \<in> set us. unit_sound u" and t: "utf8_ok t" "t \<noteq> []"
    and cl: "client_waits t us (sols t) (wd_server wd0)"
    and m: "wd_jobs wd w = m # ms" "work (wd_nodes wd w) m = Inr (n, Some r)"
  shows "\<exists>s. worker_read junk r w now (wd_server wd) = Inr s \<and> calm_inv knows ok t us (sols t) wd0 (Suc k)
      (deliver s (wd\<lparr>wd_jobs := (wd_jobs wd)(w := ms), wd_nodes := (wd_nodes wd)(w := n)\<rparr>))"
proof -
  let ?A = "wd_used wd - wd_gone wd" and ?n = "length us"
  have i: "task_inv knows ok t us (sols t) wd" "serv_ok ?A k ?n (wd_server wd)"
    "client_frame (wd_server wd) = client_frame (wd_server wd0)" "results_ok (wd_server wd0) (wd_results wd0) k ?n wd"
    using inv by (simp_all add: calm_inv_def)
  from task_inv_answer [OF i(1) us t m] obtain p j where a: "r = create_status_request (PStatus p)" "ms = []" "w \<in> ?A"
    "ws_current_unit_index (sv_sessions (wd_server wd) w) = Some j" "j < length us"
    "honest (sols t (us ! j)) (status_result p)" "ok n" "knows n t" by auto
  have srv: "sv_sent (wd_server wd) = []" "srv_inv knows t us (sols t) ?A (wd_jobs wd) (wd_nodes wd) (wd_server wd)"
    using i(1) by (auto simp: task_inv_def)
  have cw: "client_waits t us (sols t) (wd_server wd)" using client_waits_frame [OF i(3)] cl by simp
  then obtain c where c: "sv_client (wd_server wd) = Some c" by (auto simp: client_waits_def)
  obtain s where s: "handle_status junk p w now (wd_server wd) = (None, s)" "serv_ok ?A (Suc k) ?n s"
    "client_frame s = client_frame (wd_server wd)"
    "if Suc k < ?n then sent_to_client (sv_sent s) = []
     else \<exists>c' x. sv_coordinator s = Some c' \<and> decrypt (full_message (wd_server wd)) (res_key (c_best_result c')) = Inr x
       \<and> sent_to_client (sv_sent s) = [result_message junk (cs_current_cipher c) x (c_best_result c')]"
    using status_calm [OF srv(2) us a(3,4,5,6,8) refl srv(1) i(2) c, of junk now] cw by (auto simp: client_waits_def)
  have read: "worker_read junk r w now (wd_server wd) = Inr s"
    using s(1) a(1) by (simp add: worker_read_def worker_message_def create_status_request_def mk_Message_def)
  let ?wd = "deliver s (wd\<lparr>wd_jobs := (wd_jobs wd)(w := ms), wd_nodes := (wd_nodes wd)(w := n)\<rparr>)"
  have inv': "task_inv knows ok t us (sols t) ?wd"
    using step_inv [OF step.answer [of wd w m ms work n r junk now s dump ok] i(1) us t] m read by simp
  have "k < ?n" using serv_ok_le [OF s(2)] by simp
  then have "wd_results wd = wd_results wd0" using i(4) by (simp add: results_ok_def)
  moreover have "sv_client (wd_server wd0) = Some c" using i(3) c by (simp add: client_frame_def)
  ultimately have "results_ok (wd_server wd0) (wd_results wd0) (Suc k) ?n ?wd"
    using s(4) full_message_frame [OF i(3)] by (auto simp: results_ok_def deliver_def) blast
  then show ?thesis using read inv' s(2,3) i(3) by (auto simp: calm_inv_def deliver_def)
qed

lemma calm_inv_run:
  assumes "calm work ok wd1 k wd" and "calm_inv knows ok t us (sols t) wd0 d wd1" and us: "\<forall>u \<in> set us. unit_sound u"
    and t: "utf8_ok t" "t \<noteq> []" and cl: "client_waits t us (sols t) (wd_server wd0)"
  shows "calm_inv knows ok t us (sols t) wd0 (d + k) wd"
  using assms(1)
proof (induction rule: calm.induct)
  case (calm_join k wd w n now s)
  then show ?case using calm_inv_join [OF calm_join.IH us calm_join.hyps(2-4)] by simp
next
  case (calm_answer k wd w m ms n r junk now s)
  then show ?case using calm_inv_answer [OF calm_answer.IH us t cl calm_answer.hyps(2,3), of junk now] by auto
qed (simp add: assms(2))

text \<open>While units are left, some worker has a request open.\<close>

lemma calm_progress:
  assumes inv: "calm_inv knows ok t us (sols t) wd0 k wd" and us: "\<forall>u \<in> set us. unit_sound u" and t: "utf8_ok t" "t \<noteq> []"
    and A: "wd_used wd - wd_gone wd \<noteq> {}" and k: "k < length us"
  shows "\<exists>w m n r. wd_jobs wd w = [m] \<and> work (wd_nodes wd w) m = Inr (n, Some r)"
proof -
  let ?A = "wd_used wd - wd_gone wd" and ?s = "wd_server wd"
  have i: "task_inv knows ok t us (sols t) wd" "serv_ok ?A k (length us) ?s" using inv by (simp_all add: calm_inv_def)
  obtain c where c: "sv_coordinator ?s = Some c" "lease_ok ?A (cur ?s) c" "busy_ok ?A (cur ?s) c"
    using i(2) by (auto simp: serv_ok_def)
  have "\<not> all_units_done c" using serv_ok_done [OF i(2) c(1)] k by simp
  then obtain u where u: "u \<in> set (c_units c)" "m_status u \<noteq> Done" by (auto simp: all_units_done_def list_all_iff)
  have "\<exists>w \<in> ?A. cur ?s w \<noteq> None"
  proof (cases "m_status u = Unassigned")
    case True
    then show ?thesis using c(3) u(1) A by (auto simp: busy_ok_def has_unassigned_units_def list_ex_iff)
  next
    case False
    then have "m_status u = Leased" using lease_okD(2) [OF c(2) u(1)] u(2) by simp
    then show ?thesis using u(1) lease_okD(3) [OF c(2)] by (metis in_set_conv_nth option.distinct(1))
  qed
  then obtain w j where w: "w \<in> ?A" "ws_current_unit_index (sv_sessions ?s w) = Some j" by (auto simp: cur_def)
  have "session_inv knows t us (sv_sessions ?s w) (wd_nodes wd w) (wd_jobs wd w @ sent_to w (sv_sent ?s))"
    "ok (wd_nodes wd w)" "sv_sent ?s = []" using i(1) w(1) unfolding task_inv_def inv_defs by blast+
  then obtain m where m: "wd_jobs wd w = [m]" "job_for knows t (wd_nodes wd w) (us ! j) m" "j < length us"
    using w(2) by (auto simp: session_inv_def)
  then show ?thesis using answers [OF \<open>ok (wd_nodes wd w)\<close> _ m(2) t] us by fastforce
qed

text \<open>A calm run that starts with \<open>d\<close> units done; \<open>wd0\<close> has what the client got before.\<close>

lemma calm_outcome:
  assumes run: "calm work ok wd1 k wd" and start: "calm_inv knows ok t us (sols t) wd0 d wd1" and us: "\<forall>u \<in> set us. unit_sound u"
    and t: "utf8_ok t" "t \<noteq> []" and cl: "client_waits t us (sols t) (wd_server wd0)" and A: "wd_used wd1 - wd_gone wd1 \<noteq> {}"
  shows "\<exists>c. sv_coordinator (wd_server wd) = Some c \<and> length (c_units c) = length us \<and> count_done (c_units c) = d + k
    \<and> (if d + k < length us
       then wd_results wd = wd_results wd0 \<and> (\<exists>wd'. step dump work ok wd wd' \<and> calm work ok wd1 (Suc k) wd')
       else is_best dbl_less is_nan res_score init_result (\<Union>u \<in> set us. sols t u) (c_best_result c)
         \<and> (\<exists>x j. decrypt (full_message (wd_server wd0)) (res_key (c_best_result c)) = Inr x
              \<and> wd_results wd = wd_results wd0 @ [result_message j (cs_current_cipher (the (sv_client (wd_server wd0)))) x (c_best_result c)]))"
proof -
  note inv = calm_inv_run [OF run start us t cl]
  have i: "task_inv knows ok t us (sols t) wd" "serv_ok (wd_used wd - wd_gone wd) (d + k) (length us) (wd_server wd)"
    "results_ok (wd_server wd0) (wd_results wd0) (d + k) (length us) wd" using inv by (simp_all add: calm_inv_def)
  then obtain c where c: "sv_coordinator (wd_server wd) = Some c" "length (c_units c) = length us" "count_done (c_units c) = d + k"
    by (auto simp: serv_ok_def)
  have A': "wd_used wd - wd_gone wd \<noteq> {}" using calm_used [OF run] A by auto
  have "\<exists>wd'. step dump work ok wd wd' \<and> calm work ok wd1 (Suc k) wd'" if k: "d + k < length us"
  proof -
    obtain w m n r where m: "wd_jobs wd w = [m]" "work (wd_nodes wd w) m = Inr (n, Some r)"
      using calm_progress [OF inv us t A' k] by blast
    then obtain s where "worker_read 0 r w 0 (wd_server wd) = Inr s" using calm_inv_answer [OF inv us t cl m] by blast
    then show ?thesis using m step.answer calm_answer [OF run] by metis
  qed
  moreover have "is_best dbl_less is_nan res_score init_result (\<Union>u \<in> set us. sols t u) (c_best_result c)" if "\<not> d + k < length us"
    using task_inv_best [OF i(1) c(1)] serv_ok_done [OF i(2) c(1)] serv_ok_le [OF i(2)] that by auto
  ultimately show ?thesis using c i(3) by (auto simp: results_ok_def)
qed

end

text \<open>A server whose workers are free, with nothing leased.\<close>

lemma rested_serv_ok:
  assumes "sv_coordinator s = Some c" and "\<not> c_solved c" and "\<forall>u \<in> set (c_units c). m_status u \<in> {Unassigned, Done}"
    and "\<forall>w \<in> A. cur s w = None" and "A = {} \<or> \<not> has_unassigned_units c"
  shows "serv_ok A (count_done (c_units c)) (length (c_units c)) s"
proof -
  have "m_status (c_units c ! j) \<noteq> Leased" if "j < length (c_units c)" for j
    using assms(3) nth_mem [OF that] by auto
  then show ?thesis using assms by (auto simp: serv_ok_def lease_ok_def busy_ok_def)
qed

text \<open>The first units of a task.\<close>

lemma calm_inv_start:
  assumes rest: "at_rest ok wd" and inv: "task_inv knows ok t us sols (deliver s wd)"
    and run: "assign_all (sv_workers (wd_server wd)) now s1 = Inr s"
    and s1: "sv_coordinator s1 = Some c" "sv_sessions s1 = sv_sessions (wd_server wd)" "sv_sent s1 = []"
    and c: "length (c_units c) = length us" "\<not> all_units_done c" "\<forall>u \<in> set (c_units c). m_status u \<in> {Unassigned, Done}"
  shows "calm_inv knows ok t us sols (deliver s wd) (count_done (c_units c)) (deliver s wd)"
    and "client_frame s = client_frame s1" and "wd_results (deliver s wd) = wd_results wd"
proof -
  let ?ws = "sv_workers (wd_server wd)" and ?d = "count_done (c_units c)"
  have i: "distinct ?ws" "\<forall>w \<in> set ?ws. cur s1 w = None" "wd_used wd - wd_gone wd = set ?ws"
    using rest s1(2) by (auto simp: at_rest_def cur_def is_free_def)
  have solved: "\<not> c_solved c" using c(2) by (simp add: all_units_done_def)
  then have "serv_ok {} ?d (length us) s1" using rested_serv_ok [OF s1(1) _ c(3), of "{}"] c(1) by simp
  then have "serv_ok ({} \<union> set ?ws) ?d (length us) s \<and> client_frame s = client_frame s1
      \<and> sent_to_client (sv_sent s) = sent_to_client (sv_sent s1)"
    using i(1,2) run by (intro assign_all_calm) auto
  then have s: "serv_ok (set ?ws) ?d (length us) s" "client_frame s = client_frame s1" "sent_to_client (sv_sent s) = []"
    using s1(3) by (simp_all add: sent_to_client_def)
  then show "client_frame s = client_frame s1" "wd_results (deliver s wd) = wd_results wd" by (simp_all add: deliver_def)
  have "?d < length us" using c(1,2) all_done_count [OF solved] count_done_le [of "c_units c"] by simp
  then show "calm_inv knows ok t us sols (deliver s wd) ?d (deliver s wd)"
    using inv s i(3) by (simp add: calm_inv_def deliver_def results_ok_def)
qed

text \<open>Every solution of the task, and the initial result, can be sent to the client if the full text is valid UTF-8.\<close>

lemma solution_key:
  assumes "unit_sound u" and "r \<in> unit_solutions dict trigrams t u"
  obtains i where "0 \<le> i" "res_key r = index_to_key i (nat (m_key_length u))"
proof -
  obtain i where "m_start u \<le> i" "res_key r = index_to_key i (nat (m_key_length u))"
    using assms(2) by (auto simp: unit_solutions_def Let_def solution_def unit_keys_def)
  then show ?thesis using that [of i] assms(1) by (simp add: unit_sound_def)
qed

lemma unit_key_decrypts:
  assumes u: "unit_sound u" and msg: "is_caesar msg \<longrightarrow> m_cipher u = CAESAR" and r: "r \<in> unit_solutions dict trigrams t u"
  shows "\<exists>x. decrypt msg (res_key r) = Inr x"
proof -
  obtain i where "0 \<le> i" "res_key r = index_to_key i (nat (m_key_length u))" by (rule solution_key [OF u r])
  moreover have "index_to_key i (nat (m_key_length u)) \<noteq> []" "is_caesar msg \<longrightarrow> length (index_to_key i (nat (m_key_length u))) = 1"
    using u msg by (auto simp: unit_sound_def simp flip: length_0_conv)
  ultimately show ?thesis using decrypt_as_vigenere index_to_key_upper by metis
qed

lemma unit_deliverable:
  assumes u: "unit_sound u" and r: "r \<in> unit_solutions dict trigrams t u"
    and wf: "utf8_ok x" "dbl_wf (m_noise u)" "trigrams_wf trigrams"
  shows "deliverable (message_of (m_cipher u) x) r"
proof -
  let ?msg = "message_of (m_cipher u) x"
  have "is_caesar ?msg \<longrightarrow> m_cipher u = CAESAR" by (simp add: message_of_def is_caesar_def)
  then obtain y where y: "decrypt ?msg (res_key r) = Inr y" using unit_key_decrypts [OF u _ r] by blast
  have "get_text ?msg = x" by (simp add: message_of_def)
  then show ?thesis
    using winner_deliverable [OF unit_sound_valid [OF u] _ y] solution_key [OF u r] wf unit_solutions_wf [OF wf(3,2) r] by metis
qed

lemma init_deliverable:
  assumes "utf8_ok (get_text msg)"
  shows "deliverable msg init_result"
proof -
  have "unit_valid msg (new_Unit 0 0 CAESAR BRUTE 1 0)" by (simp add: unit_valid_def new_Unit_def)
  moreover obtain x where "decrypt msg (res_key init_result) = Inr x" using decrypt_sentinel by (auto simp: init_result_def)
  ultimately show ?thesis using winner_deliverable assms by (simp add: init_result_def)
qed

text \<open>What the task and the trigram table hold are texts and doubles, so that the final result can be serialised.\<close>

definition sendable_task :: "(string \<times> dbl) list option \<Rightarrow> DecryptPayload \<Rightarrow> bool" where
  "sendable_task trigrams p \<longleftrightarrow> utf8_ok (dp_cipher_text p) \<and> length (dp_cipher_text p) \<le> 80000
     \<and> dbl_wf (dp_noise p) \<and> trigrams_wf trigrams"

lemma task_units_fields:
  "unit_task u = sp_task (task_policy p) \<Longrightarrow> m_cipher u = dp_cipher p \<and> m_noise u = dp_noise p"
  by (simp add: unit_task_def sp_task_def task_policy_def new_StaticPolicy_def)

lemma task_waits:
  assumes frame: "client_frame s = client_frame (task_server p c s0)"
    and us: "\<forall>u \<in> set us. unit_sound u" "\<forall>u \<in> set us. unit_task u = sp_task (task_policy p)"
    and cl: "sv_client s0 \<noteq> None" "\<not> sv_is_subtask s0" and p: "sendable_task trigrams p"
  shows "client_waits t us (unit_solutions dict trigrams t) s"
    and "full_message s = message_of (dp_cipher p) (dp_cipher_text p)" and "cs_current_cipher (the (sv_client s)) = dp_cipher p"
proof -
  have s: "sv_client s = map_option (\<lambda>cl. cl\<lparr>cs_current_cipher := dp_cipher p\<rparr>) (sv_client s0)" "\<not> sv_is_subtask s"
    using frame cl(2) by (simp_all add: client_frame_def task_server_def)
  show full: "full_message s = message_of (dp_cipher p) (dp_cipher_text p)"
    using full_message_frame [OF frame] by (simp add: full_message_def task_server_def message_of_def)
  show "cs_current_cipher (the (sv_client s)) = dp_cipher p" using s(1) cl(1) by auto
  have wf: "utf8_ok (dp_cipher_text p)" "dbl_wf (dp_noise p)" "trigrams_wf trigrams" using p by (simp_all add: sendable_task_def)
  have "deliverable (full_message s) r" if "u \<in> set us" "r \<in> unit_solutions dict trigrams t u" for u r
    using unit_deliverable [OF _ that(2) wf(1) _ wf(3)] us that(1) wf(2) task_units_fields [of u p] by (simp add: full)
  moreover have "get_text (full_message s) = dp_cipher_text p" by (simp add: full message_of_def)
  then have "deliverable (full_message s) init_result" using init_deliverable wf(1) by simp
  ultimately show "client_waits t us (unit_solutions dict trigrams t) s" using s cl(1) by (auto simp: client_waits_def)
qed

section \<open>Properties\<close>



text \<open>The example: a Caesar text, and a cluster with one worker.\<close>

definition busy_demo_world :: "Worker World" where
  "busy_demo_world = demo_world\<lparr>wd_used := {1},
     wd_server := (wd_server demo_world)\<lparr>sv_workers := [1], sv_sessions := (\<lambda>w. new_WorkerSession)\<rparr>\<rparr>"


end
