(* ===== verification/Json_Prefix.thy ===== *)
theory Json_Prefix
  imports Json_Parser
begin

text \<open>
  Texts that break off, as a file does whose writing failed. The lexer and the parser of
  \<^verbatim>\<open>include/nlohmann/json.hpp\<close> look at most one byte beyond what they take, so a container that was read from a text is read
  in the same way from every longer one. Hence no proper prefix of the text of an object is accepted, also not by
  \<^verbatim>\<open>operator>>\<close>, which ignores what follows the value.
\<close>

section \<open>Tokens of a longer text\<close>

lemma codepoint_loop_longer: "codepoint_loop fs cp cs = Some (x, rest) \<Longrightarrow> codepoint_loop fs cp (cs @ ys) = Some (x, rest @ ys)"
proof (induction fs cp cs rule: codepoint_loop.induct)
  case (3 factor fs cp c cs)
  then show ?case by (cases "hex_digit c") simp_all
qed simp_all

lemma scan_unicode_longer:
  assumes "scan_unicode cs = Some (x, rest)"
  shows "scan_unicode (cs @ ys) = Some (x, rest @ ys)"
proof -
  obtain cp cs1 where cp: "get_codepoint cs = Some (cp, cs1)" using assms by (auto simp: scan_unicode_def split: option.splits)
  then have cp': "get_codepoint (cs @ ys) = Some (cp, cs1 @ ys)" by (simp add: get_codepoint_def codepoint_loop_longer)
  show ?thesis
  proof (cases "0xD800 \<le> cp \<and> cp \<le> 0xDBFF")
    case True
    then obtain a b cs2 where ab: "cs1 = a # b # cs2" using assms cp by (auto simp: scan_unicode_def split: list.splits)
    then obtain cp2 cs3 where cp2: "get_codepoint cs2 = Some (cp2, cs3)"
      using assms cp True by (auto simp: scan_unicode_def split: option.splits if_splits)
    then have "get_codepoint (cs2 @ ys) = Some (cp2, cs3 @ ys)" by (simp add: get_codepoint_def codepoint_loop_longer)
    then show ?thesis using assms cp cp' ab cp2 True by (simp add: scan_unicode_def split: if_splits)
  qed (use assms cp cp' in \<open>auto simp: scan_unicode_def split: if_splits\<close>)
qed

lemma next_byte_longer: "next_byte_in_range rs cs = Some (bs, rest) \<Longrightarrow> next_byte_in_range rs (cs @ ys) = Some (bs, rest @ ys)"
  by (induction rs cs arbitrary: bs rule: next_byte_in_range.induct) (fastforce split: if_splits)+

lemma scan_string_longer: "scan_string buf cs = Some (s, rest) \<Longrightarrow> scan_string buf (cs @ ys) = Some (s, rest @ ys)"
proof (induction buf cs rule: scan_string.induct)
  case (2 buf c cs)
  consider (quote) "c = CHR 0x22" | (escape) "c = CHR 0x5C" | (plain) "c \<noteq> CHR 0x22" "c \<noteq> CHR 0x5C" by blast
  then show ?case
  proof cases
    case escape
    then obtain e es where cs: "cs = e # es" using "2.prems" by (cases cs) (auto simp: scan_string.simps)
    show ?thesis
    proof (cases "e = CHR ''u''")
      case True
      then obtain cp r where "scan_unicode es = Some (cp, r)" using "2.prems" escape cs by (auto simp: scan_string.simps(2) split: option.splits)
      then show ?thesis using "2.IH"(1) "2.prems" True escape cs scan_unicode_longer by (simp add: scan_string.simps(2))
    next
      case False
      then obtain x where "simple_escape e = Some x" using "2.prems" escape cs by (auto simp: scan_string.simps(2) split: option.splits)
      then show ?thesis using "2.IH"(2) "2.prems" False escape cs by (simp add: scan_string.simps(2))
    qed
  next
    case plain
    then obtain rs bs r where "\<not> (of_char c :: int) < 0x20" "utf8_ranges c = Some rs" "next_byte_in_range rs cs = Some (bs, r)"
      using "2.prems" by (auto simp: scan_string.simps(2) split: option.splits if_splits)
    then show ?thesis using "2.IH"(3) "2.prems" plain next_byte_longer by (simp add: scan_string.simps(2))
  qed (use "2.prems" in \<open>simp add: scan_string.simps(2)\<close>)
qed (simp add: scan_string.simps)

lemma scan_number_longer:
  "\<lbrakk>scan_number_at st ty buf cs = Some (ty', buf', rest); rest \<noteq> []\<rbrakk> \<Longrightarrow> scan_number_at st ty buf (cs @ ys) = Some (ty', buf', rest @ ys)"
  by (induction st ty buf cs rule: scan_number_at.induct) (auto split: if_splits)

lemma scan_literal_longer:
  assumes "scan_literal t tok' cs = (tok, rest)" and "tok \<noteq> Parse_error"
  shows "scan_literal t tok' (cs @ ys) = (tok, rest @ ys)"
proof -
  have t: "take (length t) cs = t" "tok = tok'" "rest = drop (length t) cs" using assms by (auto simp: scan_literal_def split: if_splits)
  then have "length t \<le> length cs" by (metis length_take min.cobounded1)
  then show ?thesis using t by (simp add: scan_literal_def)
qed

lemma scan_num_longer:
  assumes "scan_number c cs = (tok, rest)" and "tok \<noteq> Parse_error" and "rest \<noteq> []"
  shows "scan_number c (cs @ ys) = (tok, rest @ ys)"
proof -
  let ?st = "if c = CHR ''-'' then Minus else if c = CHR ''0'' then Zero else Any1"
  obtain ty buf where n: "scan_number_at ?st Num_unsigned [c] cs = Some (ty, buf, rest)" "tok = number_token ty buf"
    using assms(1,2) unfolding scan_number_def Let_def by (cases "scan_number_at ?st Num_unsigned [c] cs") auto
  from scan_number_longer [OF n(1) assms(3)] show ?thesis
    unfolding scan_number_def Let_def n(2) by simp
qed

text \<open>A number at the very end could go on; a punctuation or a string is complete.\<close>

definition closed_token :: "token \<Rightarrow> bool" where
  "closed_token tok \<longleftrightarrow> tok \<in> {Begin_array, Begin_object, End_array, End_object, Name_separator, Value_separator}
     \<or> (\<exists>s. tok = Value_string s)"

lemma number_token_open: "\<not> closed_token (number_token ty buf)"
  by (cases ty) (simp_all add: closed_token_def Let_def)

lemma kinds: "\<lbrakk>A \<Longrightarrow> T; \<not> A \<Longrightarrow> B \<Longrightarrow> T; C \<Longrightarrow> T; \<not> A \<Longrightarrow> \<not> B \<Longrightarrow> \<not> C \<Longrightarrow> T\<rbrakk> \<Longrightarrow> T"
  by blast

lemma scan_at_longer:
  assumes "scan_at c cs = (tok, rest)" and "tok \<noteq> Parse_error" and "rest \<noteq> [] \<or> closed_token tok"
  shows "scan_at c (cs @ ys) = (tok, rest @ ys)"
proof (cases "c = CHR 0x22")
  case True
  then show ?thesis using assms(1,2) by (auto simp: scan_at_def split: option.splits dest: scan_string_longer [where ys = ys])
next
  case str: False
  consider (lit) "c \<in> {CHR ''t'', CHR ''f'', CHR ''n''}" | (num) "c \<notin> {CHR ''t'', CHR ''f'', CHR ''n''}" "c = CHR ''-'' \<or> isdigit c"
    | (punct) "c \<in> {CHR ''['', CHR '']'', CHR ''{'', CHR ''}'', CHR '':'', CHR '',''}"
    | (other) "c \<notin> {CHR ''t'', CHR ''f'', CHR ''n''}" "\<not> (c = CHR ''-'' \<or> isdigit c)"
        "c \<notin> {CHR ''['', CHR '']'', CHR ''{'', CHR ''}'', CHR '':'', CHR '',''}" by (rule kinds)
  then show ?thesis
  proof cases
    case lit
    then obtain t tok' where eq: "scan_at c xs = scan_literal t tok' xs" for xs by (elim insertE emptyE) (simp_all add: scan_at_def)
    show ?thesis using assms(1,2) scan_literal_longer unfolding eq by blast
  next
    case num
    then have "c \<notin> {CHR ''['', CHR '']'', CHR ''{'', CHR ''}'', CHR '':'', CHR '',''}" by (auto simp: isdigit_def schar_def)
    then have eq: "scan_at c xs = scan_number c xs" for xs using num str by (simp add: scan_at_def)
    obtain ty buf where "tok = number_token ty buf"
      using assms(1,2) unfolding eq scan_number_def Let_def by (auto split: option.splits)
    then show ?thesis using assms number_token_open scan_num_longer unfolding eq by simp
  next
    case punct
    then show ?thesis using assms(1) by (elim insertE emptyE; simp add: scan_at_def)
  next
    case other
    then have "scan_at c xs = (if c = CHR 0x00 then (End_of_input, xs) else (Parse_error, []))" for xs
      using str by (simp add: scan_at_def)
    then show ?thesis using assms(1,2) by (simp split: if_splits)
  qed
qed

lemma scan_longer:
  assumes "scan cs = (tok, rest)" and "tok \<noteq> Parse_error" and "tok \<noteq> End_of_input" and "rest \<noteq> [] \<or> closed_token tok"
  shows "scan (cs @ ys) = (tok, rest @ ys)"
proof (cases "dropWhile json_space cs")
  case Nil
  then show ?thesis using assms(1,3) unfolding scan_def Nil by simp
next
  case (Cons c cs')
  then have "dropWhile json_space (cs @ ys) = c # cs' @ ys"
    by (metis append_Cons dropWhile_append dropWhile_append1 dropWhile_eq_Nil_conv list.distinct(1))
  then show ?thesis using assms scan_at_longer [of c cs' tok rest ys] Cons by (simp add: scan_def)
qed

section \<open>Containers of a longer text\<close>

lemma scan_Nil [simp]: "scan [] = (End_of_input, [])"
  by (simp add: scan_def)

lemma closed_simps [simp]:
  "closed_token Begin_array" "closed_token Begin_object" "closed_token End_array" "closed_token End_object"
  "closed_token Name_separator" "closed_token Value_separator" "closed_token (Value_string s)"
  by (simp_all add: closed_token_def)

lemma scan_closed_longer: "\<lbrakk>scan cs = (tok, rest); closed_token tok\<rbrakk> \<Longrightarrow> scan (cs @ ys) = (tok, rest @ ys)"
  by (rule scan_longer) (auto simp: closed_token_def)

lemma scan_closed_ne: "\<lbrakk>scan cs = (tok, rest); closed_token tok\<rbrakk> \<Longrightarrow> cs \<noteq> []"
  by (auto simp: closed_token_def)

lemma parse_member_longer:
  assumes "parse_member tok cs d = Inr (t, cs', d')" and "t \<noteq> Parse_error" and "t \<noteq> End_of_input" and "cs' \<noteq> []"
  shows "parse_member tok (cs @ ys) d = Inr (t, cs' @ ys, d')"
proof -
  obtain k cs1 where k: "tok = Value_string k" "scan cs = (Name_separator, cs1)" "scan cs1 = (t, cs')" "d' = set_key k d"
    using assms(1) by (auto simp: parse_member_def split: token.splits prod.splits if_splits)
  then have "scan (cs @ ys) = (Name_separator, cs1 @ ys)" "scan (cs1 @ ys) = (t, cs' @ ys)"
    using scan_closed_longer [of cs] scan_longer [of cs1] assms(2-4) by auto
  then show ?thesis using k by (simp add: parse_member_def)
qed

text \<open>What the loop accepts as the first token of a value.\<close>

lemma sax_accepts:
  assumes "sax_parse_internal False tok cs states d = Inr r"
  shows "tok \<noteq> Parse_error" and "tok \<noteq> End_of_input"
  using assms by (auto simp: sax_parse_internal.simps(2))

definition inside :: "token \<Rightarrow> bool list \<Rightarrow> bool" where
  "inside tok states \<longleftrightarrow> states \<noteq> [] \<or> tok = Begin_object \<or> tok = Begin_array"

lemma sax_longer:
  assumes "sax_parse_internal skip tok cs states d = Inr (d', rest)"
  shows "if skip then sax_parse_internal True tok (cs @ ys) states d = Inr (d', rest @ ys) \<and> (states \<noteq> [] \<longrightarrow> cs \<noteq> [])
    else inside tok states \<longrightarrow> sax_parse_internal False tok (cs @ ys) states d = Inr (d', rest @ ys) \<and> cs \<noteq> []"
  using assms
proof (induction skip tok cs states d arbitrary: d' rest rule: sax_parse_internal.induct)
  case (1 tok cs states d)
  show ?case
  proof (cases states)
    case Nil
    then show ?thesis using "1.prems" by (simp add: sax_parse_internal.simps)
  next
    case (Cons arr sts)
    obtain t cs1 t2 cs2 where scan: "scan cs = (t, cs1)" "scan cs1 = (t2, cs2)" by (metis surj_pair)
    note step = trans [OF sax_parse_internal.simps(1) [symmetric] "1.prems"(1), unfolded Cons list.case scan prod.case]
    have t: "closed_token t" using step by (auto split: if_splits)
    note longer = scan_closed_longer [OF scan(1) t, of ys] and ne = scan_closed_ne [OF scan(1) t]
    consider (elem) "t = Value_separator" "arr" | (member) "t = Value_separator" "\<not> arr" | (close) "t \<noteq> Value_separator" by blast
    then show ?thesis
    proof cases
      case elem
      then have s: "sax_parse_internal False t2 cs2 states d = Inr (d', rest)" using step Cons by simp
      have "sax_parse_internal False t2 (cs2 @ ys) states d = Inr (d', rest @ ys) \<and> cs2 \<noteq> []"
        using "1.IH"(1) [OF Cons scan(1) [symmetric] elem(1) scan(2) [symmetric] elem(2) s] Cons by (simp add: inside_def)
      moreover from this have "scan (cs1 @ ys) = (t2, cs2 @ ys)" using scan_longer [OF scan(2) sax_accepts [OF s]] by simp
      ultimately show ?thesis using longer ne elem Cons by (simp add: sax_parse_internal.simps(1))
    next
      case member
      then obtain t3 cs3 d3 where m: "parse_member t2 cs2 d = Inr (t3, cs3, d3)" "sax_parse_internal False t3 cs3 states d3 = Inr (d', rest)"
        using step Cons by (auto simp: bindR_eq_Inr)
      have l: "sax_parse_internal False t3 (cs3 @ ys) states d3 = Inr (d', rest @ ys)" "cs3 \<noteq> []"
        using "1.IH"(2) [OF Cons scan(1) [symmetric] member(1) scan(2) [symmetric] member(2) m(1) refl refl m(2)] Cons
        by (simp_all add: inside_def)
      obtain k where "t2 = Value_string k" using m(1) by (auto simp: parse_member_def split: token.splits)
      then have "scan (cs1 @ ys) = (t2, cs2 @ ys)" using scan_closed_longer [OF scan(2)] by simp
      then show ?thesis using longer ne member Cons l parse_member_longer [OF m(1) sax_accepts [OF m(2)] l(2)]
        by (simp add: sax_parse_internal.simps(1))
    next
      case close
      then have c: "t = (if arr then End_array else End_object)" "sax_parse_internal True t cs1 sts (end_container d) = Inr (d', rest)"
        using step by (simp_all split: if_splits)
      have "sax_parse_internal True t (cs1 @ ys) sts (end_container d) = Inr (d', rest @ ys)"
        using "1.IH"(3) [OF Cons scan(1) [symmetric] close c] by simp
      then show ?thesis using longer ne close c(1) Cons by (simp add: sax_parse_internal.simps(1))
    qed
  qed
next
  case (2 tok cs states d)
  obtain t cs1 where scan: "scan cs = (t, cs1)" by (metis surj_pair)
  note step = trans [OF sax_parse_internal.simps(2) [symmetric] "2.prems"(1)]
  show ?case
  proof (cases tok)
    case Begin_object
    show ?thesis
    proof (cases "t = End_object")
      case True
      then have s: "sax_parse_internal True t cs1 states (end_container (start_object d)) = Inr (d', rest)"
        using step Begin_object scan by simp
      then show ?thesis
        using "2.IH"(10) [OF Begin_object scan [symmetric] True s] Begin_object True scan_closed_longer [OF scan] scan_closed_ne [OF scan]
        by (simp add: sax_parse_internal.simps(2))
    next
      case False
      then obtain t2 cs2 d2 where m: "parse_member t cs1 (start_object d) = Inr (t2, cs2, d2)"
          "sax_parse_internal False t2 cs2 (False # states) d2 = Inr (d', rest)"
        using step Begin_object scan by (auto simp: bindR_eq_Inr)
      have l: "sax_parse_internal False t2 (cs2 @ ys) (False # states) d2 = Inr (d', rest @ ys)" "cs2 \<noteq> []"
        using "2.IH"(11) [OF Begin_object scan [symmetric] False m(1) refl refl m(2)] by (simp_all add: inside_def)
      obtain k where k: "t = Value_string k" using m(1) by (auto simp: parse_member_def split: token.splits)
      then have "scan (cs @ ys) = (t, cs1 @ ys)" "cs \<noteq> []" using scan_closed_longer [OF scan] scan_closed_ne [OF scan] by simp_all
      then show ?thesis using Begin_object False l parse_member_longer [OF m(1) sax_accepts [OF m(2)] l(2)]
        by (simp add: sax_parse_internal.simps(2) [of Begin_object "cs @ ys"])
    qed
  next
    case Begin_array
    show ?thesis
    proof (cases "t = End_array")
      case True
      then have s: "sax_parse_internal True t cs1 states (end_container (start_array d)) = Inr (d', rest)"
        using step Begin_array scan by simp
      then show ?thesis
        using "2.IH"(8) [OF Begin_array scan [symmetric] True s] Begin_array True scan_closed_longer [OF scan] scan_closed_ne [OF scan]
        by (simp add: sax_parse_internal.simps(2))
    next
      case False
      then have s: "sax_parse_internal False t cs1 (True # states) (start_array d) = Inr (d', rest)"
        using step Begin_array scan by simp
      have l: "sax_parse_internal False t (cs1 @ ys) (True # states) (start_array d) = Inr (d', rest @ ys)" "cs1 \<noteq> []"
        using "2.IH"(9) [OF Begin_array scan [symmetric] False s] by (simp_all add: inside_def)
      then have "scan (cs @ ys) = (t, cs1 @ ys)" using scan_longer [OF scan sax_accepts [OF s]] by simp
      moreover have "cs \<noteq> []" using scan sax_accepts(2) [OF s] by auto
      ultimately show ?thesis using Begin_array False l(1) by (simp add: sax_parse_internal.simps(2) [of Begin_array "cs @ ys"])
    qed
  qed (use step "2.IH"(1-7) in \<open>auto simp: inside_def sax_parse_internal.simps(2) split: if_splits\<close>)
qed

section \<open>Texts that break off\<close>

text \<open>The parser fails with exceptions only.\<close>

lemma parse_member_throws: "parse_member tok cs d = Inl e \<Longrightarrow> is_exception e"
  by (auto simp: parse_member_def split: token.splits prod.splits if_splits)

lemma sax_throws: "sax_parse_internal skip tok cs states d = Inl e \<Longrightarrow> is_exception e"
proof (induction skip tok cs states d rule: sax_parse_internal.induct)
  case (1 tok cs states d)
  obtain t cs1 t2 cs2 where scan: "scan cs = (t, cs1)" "scan cs1 = (t2, cs2)" by (metis surj_pair)
  show ?case
  proof (cases states)
    case (Cons arr sts)
    show ?thesis
      using "1.IH"(1,2) [OF Cons scan(1) [symmetric] _ scan(2) [symmetric]] "1.IH"(3) [OF Cons scan(1) [symmetric]] "1.prems" Cons scan
      by (auto simp: sax_parse_internal.simps(1) bindR_eq_Inl dest: parse_member_throws split: if_splits)
  qed (use "1.prems" in \<open>simp add: sax_parse_internal.simps\<close>)
next
  case (2 tok cs states d)
  obtain t cs1 where scan: "scan cs = (t, cs1)" by (metis surj_pair)
  note step = trans [OF sax_parse_internal.simps(2) [symmetric] "2.prems"]
  show ?case
  proof (cases tok)
    case Begin_object
    then show ?thesis using step scan "2.IH"(10,11) [OF Begin_object scan [symmetric]]
      by (auto simp: bindR_eq_Inl dest: parse_member_throws split: if_splits)
  next
    case Begin_array
    then show ?thesis using step scan "2.IH"(8,9) [OF Begin_array scan [symmetric]] by (auto split: if_splits)
  qed (use step "2.IH"(1-7) in \<open>auto split: if_splits\<close>)
qed

lemma json_parse_throws: "json_parse strict t = Inl e \<Longrightarrow> is_exception e"
  by (auto simp: json_parse_def bindR_eq_Inl dest: sax_throws split: prod.splits if_splits)

text \<open>Where the text of an object is read, the whole of it is taken.\<close>

lemma plain_whole:
  assumes "json_wf j" and "json_finite j" and "plain_value step cur j = Inr t"
  shows "at_value t [] ([], JNull) = Inr (([], j), [])"
  using dump_read_as [OF assms, unfolded read_as_def, rule_format, of "[]" "[]" "([], JNull)"]
  by (simp add: number_end_def after_value_Nil)

lemma plain_object_first:
  assumes "plain_value step cur (JObj kvs) = Inr t"
  shows "\<exists>t'. t = CHR ''{'' # t'"
  using assms by (auto simp: mapR_eq_Inr open_text_def split: if_splits option.splits)

lemma scan_brace: "scan (CHR ''{'' # cs) = (Begin_object, cs)"
  by (simp add: scan_def scan_at_def json_space_def)

lemma parse_Nil: "json_parse strict [] = Inl Json_parse_error"
  by (simp add: json_parse_def scan_first_def skip_bom_def sax_parse_internal.simps(2))

lemma plain_prefix_rejected:
  assumes j: "json_wf (JObj kvs)" "json_finite (JObj kvs)" and t: "plain_value step cur (JObj kvs) = Inr t" and k: "k < length t"
  shows "\<exists>e. json_parse strict (take k t) = Inl e \<and> is_exception e"
proof -
  obtain t' where t': "t = CHR ''{'' # t'" using plain_object_first [OF t] by blast
  have "json_parse strict (take k t) \<noteq> Inr x" for x
  proof
    assume ok: "json_parse strict (take k t) = Inr x"
    then have "k \<noteq> 0" by (metis Inl_Inr_False parse_Nil take0)
    then obtain k' where k': "k = Suc k'" by (cases k) auto
    then obtain d rest where d: "sax_parse_internal False Begin_object (take k' t') [] ([], JNull) = Inr (d, rest)"
      using ok t' by (auto simp: json_parse_def scan_first_def skip_bom_def scan_brace bindR_eq_Inr)
    have "sax_parse_internal False Begin_object (take k' t' @ drop k' t') [] ([], JNull) = Inr (d, rest @ drop k' t')"
      using sax_longer [OF d, of "drop k' t'"] by (simp add: inside_def)
    then have "at_value t [] ([], JNull) = Inr (d, rest @ drop k' t')" by (simp add: at_value_def t' scan_brace)
    then have "drop k' t' = []" using plain_whole [OF j t] by simp
    then show False using k k' t' by simp
  qed
  then show ?thesis using json_parse_throws by (metis sumE)
qed

end
