(* ===== verification/Wire.thy ===== *)
theory Wire
  imports Checkpoint Protocol Json_Prefix Dbl_Type
begin

text \<open>
  The protocol and the checkpoint over the texts that are really written: \<^verbatim>\<open>msg.to_json().dump()\<close> and \<^verbatim>\<open>json::parse\<close> in
  \<^verbatim>\<open>src/JSON_Protocol.cpp\<close>, \<^verbatim>\<open>dump(2)\<close> and \<^verbatim>\<open>operator>>\<close> in \<^verbatim>\<open>src/Coordinator.cpp\<close>. The round trips of \<^verbatim>\<open>Protocol\<close> and
  \<^verbatim>\<open>Checkpoint\<close> hold for the serializer and the parser of the library.
\<close>

section \<open>Objects\<close>

lemma mk_obj_wf: "distinct (map fst kvs) \<Longrightarrow> json_wf (mk_obj kvs) \<longleftrightarrow> (\<forall>(k, v) \<in> set kvs. json_wf v)"
proof -
  assume "distinct (map fst kvs)"
  then have "sorted (map fst (sort_key fst kvs))" "distinct (map fst (sort_key fst kvs))" by (simp_all add: distinct_map)
  then have "sorted_wrt (<) (map fst (sort_key fst kvs))" using strict_sorted_iff by blast
  then show ?thesis by (auto simp: mk_obj_def list_all_iff)
qed

lemma mk_obj_finite: "json_finite (mk_obj kvs) \<longleftrightarrow> (\<forall>(k, v) \<in> set kvs. json_finite v)"
  by (auto simp: mk_obj_def list_all_iff)

lemma int_ok_int64: "int_ok i \<Longrightarrow> int64_ok i"
  by (auto simp: int64_ok_def dest: int_okD)

text \<open>A double that is not finite has the text of \<^verbatim>\<open>null\<close>: what is written is the value without such doubles.\<close>

fun nullify :: "json \<Rightarrow> json" where
  "nullify (JFloat d) = (if is_finite d then JFloat d else JNull)"
| "nullify (JArr js) = JArr (map nullify js)"
| "nullify (JObj kvs) = JObj (map (\<lambda>(k, v). (k, nullify v)) kvs)"
| "nullify j = j"

lemma dump_nullify: "plain_value step cur (nullify j) = plain_value step cur j"
proof (induction j arbitrary: cur)
  case (JArr js)
  then show ?case by (simp add: comp_def cong: map_cong)
next
  case (JObj kvs)
  then have "plain_value step x (nullify (snd kv)) = plain_value step x (snd kv)" if "kv \<in> set kvs" for kv x
    using that by (cases kv) auto
  then show ?case by (simp add: comp_def split_beta cong: map_cong)
qed (simp_all add: dump_float_def)

lemma json_dump_nullify: "indent_ok ind \<Longrightarrow> json_dump ind (nullify j) = json_dump ind j"
  by (simp add: json_dump_plain dump_nullify)

lemma nullify_wf: "json_wf j \<Longrightarrow> json_wf (nullify j) \<and> json_finite (nullify j)"
proof (induction j)
  case (JObj kvs)
  have "map fst (map (\<lambda>(k, v). (k, nullify v)) kvs) = map fst kvs" by (induction kvs) auto
  then show ?case using JObj by (fastforce simp: list_all_iff simp del: map_map)
qed (auto simp: list_all_iff)

lemma nullify_dump_ok: "dump_ok (nullify j) = dump_ok j"
proof (induction j)
  case (JObj kvs)
  then show ?case by (fastforce simp: dump_ok_def list_all_iff)
qed (auto simp: dump_ok_def list_all_iff)

text \<open>Any value is read back from its text, with \<^verbatim>\<open>null\<close> for doubles that are not finite.\<close>

lemma json_reads_null:
  assumes "json_wf j" and "indent_ok ind" and "json_dump ind j = Inr t"
  shows "json_parse strict t = Inr (nullify j)"
proof -
  have "dump_ok j" using assms dump_strict [of j ind] by (auto simp: strict_dump_def split: if_splits)
  then obtain t' where "json_dump ind (nullify j) = Inr t'" "json_parse strict t' = Inr (nullify j)"
    using json_roundtrip [of "nullify j" ind strict] nullify_wf [OF assms(1)] nullify_dump_ok assms(2) by blast
  then show ?thesis using assms(2,3) by (simp add: json_dump_nullify)
qed

section \<open>The size of a text\<close>

text \<open>An upper bound for the compact form; a byte of a string takes at most six.\<close>

fun text_size :: "json \<Rightarrow> nat" where
  "text_size JNull = 4"
| "text_size (JBool b) = 5"
| "text_size (JInt i) = 20"
| "text_size (JFloat d) = 24"
| "text_size (JStr s) = 6 * length s + 2"
| "text_size (JArr js) = 2 + sum_list (map (\<lambda>j. text_size j + 1) js)"
| "text_size (JObj kvs) = 2 + sum_list (map (\<lambda>(k, v). 6 * length k + text_size v + 4) kvs)"

lemma sum_list_insort: "sum_list (map f (insort_key g x xs)) = f x + sum_list (map (f :: 'a \<Rightarrow> nat) xs)"
  by (induction xs) auto

lemma text_size_obj: "text_size (mk_obj kvs) = 2 + sum_list (map (\<lambda>(k, v). 6 * length k + text_size v + 4) kvs)"
proof -
  have "sum_list (map f (sort_key fst kvs)) = sum_list (map f kvs)" for f :: "string \<times> json \<Rightarrow> nat"
    by (induction kvs) (simp_all add: sum_list_insort)
  then show ?thesis by (simp add: mk_obj_def)
qed

lemma dump_escaped_length: "dump_escaped s = Inr t \<Longrightarrow> length t \<le> 6 * length s"
proof -
  have "length t \<le> 6 * length s" if "dump_escaped_loop st cp s = Inr t" for st cp
    using that
  proof (induction s arbitrary: st cp t)
    case (Cons c s)
    let ?e = "if utf8_decode st c = 0 then escape_codepoint (decode_codep st cp c) c else [c]"
    obtain out where "dump_escaped_loop (utf8_decode st c) (decode_codep st cp c) s = Inr out" "t = ?e @ out"
      using Cons.prems by (auto simp: Let_def mapR_eq_Inr split: if_splits)
    moreover have "length ?e \<le> 6" by (simp add: escape_codepoint_def unicode_escape_def)
    ultimately show ?case using Cons.IH [of "utf8_decode st c" "decode_codep st cp c" out] by simp
  qed (simp split: if_splits)
  then show "dump_escaped s = Inr t \<Longrightarrow> length t \<le> 6 * length s" by (simp add: dump_escaped_def)
qed

lemma dump_digits_short:
  assumes "0 < x" and "x < 10 ^ n"
  shows "length (dump_digits x) \<le> n"
proof -
  have "(10 :: int) ^ (length (dump_digits x) - 1) < 10 ^ n" using dump_digits_bounds [OF assms(1)] assms(2) by linarith
  then have "length (dump_digits x) - 1 < n" by (rule power_less_imp_less_exp [rotated]) simp
  then show ?thesis by simp
qed

lemma dump_integer_length: "int64_ok i \<Longrightarrow> length (dump_integer i) \<le> 20"
  using dump_digits_short [of i 20] dump_digits_short [of "- i" 19] by (auto simp: dump_integer_def int64_ok_def)

lemma join_length: "ts \<noteq> [] \<Longrightarrow> length (join '','' ts) + 1 = sum_list (map (\<lambda>t. length t + 1) ts)"
  by (induction "'',''" ts rule: join.induct) auto

lemma sum_list_all2: "list_all2 (\<lambda>x y. f x \<le> (g y :: nat)) xs ys \<Longrightarrow> sum_list (map f xs) \<le> sum_list (map g ys)"
  by (induction rule: list_all2_induct) auto

text \<open>The items of an array or an object, each with its comma.\<close>

lemma items_length:
  assumes "xs \<noteq> []" and "list_all2 (\<lambda>x t. length t + 1 \<le> f x) xs ts"
  shows "length (join '','' ts) + 1 \<le> sum_list (map f xs)"
proof -
  have "sum_list (map (\<lambda>t. length t + 1) ts) \<le> sum_list (map f xs)"
    using assms(2) by (intro sum_list_all2) (simp add: list_all2_conv_all_nth)
  moreover have "ts \<noteq> []" using assms by auto
  ultimately show ?thesis using join_length [of ts] by simp
qed

lemma mapR_append_Nil [simp]: "mapR ((@) []) x = x"
  by (cases x) simp_all

lemma dump_length: "\<lbrakk>json_wf j; plain_value None cur j = Inr t\<rbrakk> \<Longrightarrow> length t \<le> text_size j"
proof (induction j arbitrary: cur t)
  case (JArr js)
  show ?case
  proof (cases "js = []")
    case False
    then obtain ts where ts: "t = CHR ''['' # join '','' ts @ '']''" "sequenceR (map (plain_value None cur) js) = Inr ts"
      using JArr.prems(2) by (auto simp: mapR_eq_Inr open_text_def comma_text_def plain_close_def plain_indent_def next_indent_def)
    have "list_all2 (\<lambda>j t. plain_value None cur j = Inr t) js ts" by (rule sequenceR_all2 [OF ts(2)])
    then have l: "list_all2 (\<lambda>j t. length t + 1 \<le> text_size j + 1) js ts"
      by (rule list.rel_mono_strong) (use JArr in \<open>auto simp: list_all_iff\<close>)
    show ?thesis using items_length [OF False l] ts(1) by simp
  qed (use JArr in auto)
next
  case (JObj kvs)
  show ?case
  proof (cases "kvs = []")
    case False
    let ?f = "\<lambda>(k, j). bindR (dump_escaped k) (\<lambda>kt. mapR (\<lambda>t. CHR 0x22 # kt @ CHR 0x22 # CHR '':'' # t) (plain_value None cur j))"
    obtain ts where ts: "t = CHR ''{'' # join '','' ts @ ''}''" "sequenceR (map ?f kvs) = Inr ts"
      using JObj.prems(2) False by (auto simp: mapR_eq_Inr open_text_def comma_text_def plain_close_def plain_indent_def next_indent_def colon_text_def)
    have "list_all2 (\<lambda>kv t. ?f kv = Inr t) kvs ts" by (rule sequenceR_all2 [OF ts(2)])
    then have l: "list_all2 (\<lambda>kv t. length t + 1 \<le> (case kv of (k, v) \<Rightarrow> 6 * length k + text_size v + 4)) kvs ts"
    proof (rule list.rel_mono_strong)
      fix kv t
      assume kv: "kv \<in> set kvs" and "?f kv = Inr t"
      then obtain kt t' where t: "dump_escaped (fst kv) = Inr kt" "plain_value None cur (snd kv) = Inr t'"
        "t = CHR 0x22 # kt @ CHR 0x22 # CHR '':'' # t'" by (auto simp: bindR_eq_Inr mapR_eq_Inr split: prod.splits)
      have "json_wf (snd kv)" using JObj.prems(1) kv by (auto simp: list_all_iff)
      then have "length t' \<le> text_size (snd kv)" using JObj.IH [OF kv, of "snd kv" cur t'] t(2) by (cases kv) auto
      then show "length t + 1 \<le> (case kv of (k, v) \<Rightarrow> 6 * length k + text_size v + 4)"
        using dump_escaped_length [OF t(1)] t(3) by (cases kv) simp
    qed
    show ?thesis using items_length [OF False l] ts(1) by simp
  qed (use JObj in auto)
next
  case (JFloat d)
  show ?case
  proof (cases "is_finite d")
    case True
    then show ?thesis using JFloat to_chars_ok [of d] by (auto simp: dump_float_def)
  qed (use JFloat in \<open>auto simp: dump_float_def\<close>)
qed (auto simp: mapR_eq_Inr dump_integer_length dest: dump_escaped_length)

section \<open>Messages\<close>

text \<open>The texts and numbers of a message: valid UTF-8 where it is not sent in Base64, finite doubles.\<close>

definition payload_text_ok :: "Payload \<Rightarrow> bool" where
  "payload_text_ok p = (case p of
     PDecrypt d \<Rightarrow> dbl_wf (dp_noise d) \<and> is_finite (dp_noise d)
   | PStatus s \<Rightarrow> utf8_ok (st_cipher_text s) \<and> utf8_ok (st_key s) \<and> dbl_wf (st_score s) \<and> is_finite (st_score s)
   | _ \<Rightarrow> True)"

definition message_text_ok :: "Message \<Rightarrow> bool" where
  "message_text_ok m = (case msg_payload m of None \<Rightarrow> False | Some p \<Rightarrow> payload_text_ok p)"

text \<open>The text of a message is within the limit of the receiver.\<close>

definition message_fits :: "(string \<Rightarrow> string) \<Rightarrow> Message \<Rightarrow> bool" where
  "message_fits w m = (case bindR (message_to_json w m) (json_dump (- 1)) of Inl e \<Rightarrow> False | Inr s \<Rightarrow> length s \<le> MAX_MESSAGE_SIZE)"

lemmas payload_json_defs = decrypt_to_json_def status_to_json_def code_to_json_def hello_to_json_def peer_id_to_json_def

lemma payload_json_ok:
  assumes "\<forall>d. ascii (w d)" and "payload_wf p" and "payload_text_ok p"
  shows "json_wf (payload_to_json w p) \<and> json_finite (payload_to_json w p) \<and> dump_ok (payload_to_json w p)"
  using assms by (cases p)
    (simp_all add: payload_json_defs mk_obj_wf mk_obj_finite payload_wf_def payload_text_ok_def int_ok_int64 utf8_ok_encode
      utf8_ok_keys utf8_ok_fields)

lemma message_json_ok:
  assumes "\<forall>d. ascii (w d)" and "message_wf m" and "message_text_ok m"
  obtains j where "message_to_json w m = Inr j" "json_wf j" "json_finite j" "dump_ok j"
proof -
  obtain p where p: "msg_payload m = Some p" "payload_wf p" "payload_text_ok p"
    using assms(2,3) by (auto simp: message_wf_def message_text_ok_def split: option.splits)
  note ok = payload_json_ok [OF assms(1) p(2,3)]
  let ?j = "mk_obj [(''type'', JStr (type_to_string (msg_type m))), (''action'', JStr (action_to_string (msg_action m))),
    (''payload'', payload_to_json w p)]"
  have "json_wf ?j" "json_finite ?j" "dump_ok ?j" using ok by (simp_all add: mk_obj_wf mk_obj_finite utf8_ok_fields)
  then show thesis using that p(1) by (simp add: message_to_json_def)
qed

text \<open>What the serializer writes for a message within the limit, the parser reads.\<close>

lemma message_sendable:
  assumes "\<forall>d. ascii (w d)" and "message_wf m" and "message_text_ok m" and "message_fits w m"
  shows "sendable w (json_dump (- 1)) (json_parse True) m"
proof -
  obtain j where j: "message_to_json w m = Inr j" "json_wf j" "json_finite j" "dump_ok j" using message_json_ok [OF assms(1-3)] .
  obtain t where "json_dump (- 1) j = Inr t" "json_parse True t = Inr j" using json_roundtrip [OF j(2-4) indent_ok_small(1)] by blast
  then show ?thesis using j(1) assms(4) by (simp add: sendable_def message_fits_def)
qed

text \<open>The limit holds if the bound for the size of the text is within it.\<close>

lemma message_fits_size:
  assumes "\<forall>d. ascii (w d)" and "message_wf m" and "message_text_ok m" and "text_size (projr (message_to_json w m)) \<le> MAX_MESSAGE_SIZE"
  shows "message_fits w m"
proof -
  obtain j where j: "message_to_json w m = Inr j" "json_wf j" "json_finite j" "dump_ok j" using message_json_ok [OF assms(1-3)] .
  obtain t where t: "json_dump (- 1) j = Inr t" using json_roundtrip [OF j(2-4) indent_ok_small(1)] by blast
  then have "length t \<le> text_size j" using dump_length [OF j(2)] by (simp add: json_dump_plain indent_ok_small)
  then show ?thesis using t j(1) assms(4) by (simp add: message_fits_def)
qed

text \<open>Every message about a text of at most 80000 bytes is within the limit, even if each of its bytes had to be escaped.\<close>

lemma dump_fits:
  assumes "message_to_json w m = Inr j" and "json_wf j" and "dump_ok j" and "text_size j \<le> MAX_MESSAGE_SIZE"
  shows "message_fits w m"
proof -
  obtain t where t: "json_dump (- 1) j = Inr t"
    using json_dump_cases [OF json_wf_floats [OF assms(2)] indent_ok_small(1)] assms(3) by auto
  then have "length t \<le> text_size j" using dump_length [OF assms(2)] by (simp add: json_dump_plain indent_ok_small)
  then show ?thesis using t assms(1,4) by (simp add: message_fits_def)
qed

lemma status_fits:
  assumes "utf8_ok text" and "utf8_ok key" and "length text \<le> 80000" and "length key \<le> 8" and "dbl_wf score" and "int_ok junk"
  shows "message_fits w (mk_Message ty STATUS (PStatus (new_StatusPayload junk c text key score)))"
proof -
  obtain j where j: "message_to_json w (mk_Message ty STATUS (PStatus (new_StatusPayload junk c text key score))) = Inr j"
    and "j = mk_obj [(''type'', JStr (type_to_string ty)), (''action'', JStr ''status''),
      (''payload'', status_to_json (new_StatusPayload junk c text key score))]"
    by (simp add: message_to_json_def mk_Message_def)
  moreover have "length (cipher_to_string c) \<le> 8" "length (type_to_string ty) \<le> 8" by (cases c; simp) (cases ty; simp)
  ultimately show ?thesis
    using assms by (intro dump_fits [OF j]) (auto simp: status_to_json_def new_StatusPayload_def mk_obj_wf utf8_ok_fields
      utf8_ok_keys int_ok_int64 text_size_obj MAX_MESSAGE_SIZE_def)
qed

lemma request_fits:
  assumes "\<forall>d. ascii (w d) \<and> length (w d) \<le> 2 * length d + 4" and "length (dp_cipher_text p) \<le> 80000"
    and "length (dp_start_key p) \<le> 8" and "length (dp_end_key p) \<le> 8" and "dbl_wf (dp_noise p)" and "int_ok (dp_key_length p)"
  shows "message_fits w (create_decrypt_request (PDecrypt p))"
proof -
  have len: "length (encode w d) \<le> 2 * length d + 4" "utf8_ok (encode w d)" for d
    using assms(1) utf8_ok_encode [of w d] by (auto simp: encode_def)
  obtain j where j: "message_to_json w (create_decrypt_request (PDecrypt p)) = Inr j"
    and "j = mk_obj [(''type'', JStr ''request''), (''action'', JStr ''decrypt''), (''payload'', decrypt_to_json w p)]"
    by (simp add: message_to_json_def mk_Message_def create_decrypt_request_def)
  moreover have "length (cipher_to_string (dp_cipher p)) \<le> 8" "length (mode_to_string (dp_mode p)) \<le> 8"
    by (cases "dp_cipher p"; simp) (cases "dp_mode p"; simp)
  moreover have "length (encode w (dp_cipher_text p)) \<le> 160004" "length (encode w (dp_start_key p)) \<le> 20"
    "length (encode w (dp_end_key p)) \<le> 20"
    using len(1) [of "dp_cipher_text p"] len(1) [of "dp_start_key p"] len(1) [of "dp_end_key p"] assms(2-4) by linarith+
  moreover have "utf8_ok ''request''" "utf8_ok ''decrypt''"
    using utf8_ok_name(4) [of REQUEST] utf8_ok_name(3) [of DECRYPT] by simp_all
  ultimately show ?thesis
    using assms len(2) by (intro dump_fits [OF j]) (auto simp: decrypt_to_json_def mk_obj_wf utf8_ok_fields
      utf8_ok_keys int_ok_int64 text_size_obj MAX_MESSAGE_SIZE_def)
qed

section \<open>Properties\<close>

text \<open>
  C12. A connection delivers what was sent, over the bytes that are really written: a stream of well-formed messages, each
  within the size limit, is written with the library's serializer and Base64 and is read back message by message with
  its parser; what follows is left unread. Of Base64 only the documented behaviour is assumed: decoding inverts
  encoding, and the encoded text is ASCII.
\<close>

theorem wire_roundtrip:
  assumes "codec w r" and "\<forall>d. ascii (w d)" and "\<forall>m \<in> set ms. message_wf m \<and> message_text_ok m \<and> message_fits w m"
  shows "\<exists>bss. sequenceR (map (send_message w (json_dump (- 1))) ms) = Inr bss
    \<and> read_all r (json_parse True) (length ms) (concat bss @ rest) = Inr (ms, rest)"
  using assms message_sendable by (intro stream_roundtrip) auto

text \<open>The example has two hexadecimal digits, as letters, for each byte in place of Base64.\<close>

definition hex_write :: "string \<Rightarrow> string" where
  "hex_write d = concat (map (\<lambda>c. [to_char (97 + of_char c div 16), to_char (97 + of_char c mod 16)]) d)"

fun hex_read :: "string \<Rightarrow> string option" where
  "hex_read (a # b # cs) = map_option (\<lambda>d. to_char ((of_char a - 97) * 16 + (of_char b - 97)) # d) (hex_read cs)"
| "hex_read [a] = None"
| "hex_read [] = Some []"

lemma hex_codec: "codec hex_write hex_read" "\<forall>d. ascii (hex_write d)"
proof -
  have b: "0 \<le> byte c div 16" "byte c div 16 < 16" "byte c mod 16 < 16" for c :: char
    using of_char_range [of c] by linarith+
  have "hex_read (hex_write d) = Some d" for d
  proof (induction d)
    case (Cons c d)
    have "hex_read (hex_write (c # d)) = map_option (\<lambda>d. to_char (byte c div 16 * 16 + byte c mod 16) # d) (hex_read (hex_write d))"
      using b [of c] by (simp add: hex_write_def byte_char)
    then show ?case using Cons by (simp add: to_char_def)
  qed (simp add: hex_write_def)
  moreover have "hex_write d \<noteq> []" if "d \<noteq> []" for d using that by (cases d) (simp_all add: hex_write_def)
  ultimately show "codec hex_write hex_read" by (simp add: codec_def)
  have less: "byte (to_char (97 + byte c div 16)) < 128" "byte (to_char (97 + byte c mod 16)) < 128" for c
    using b [of c] by (simp_all add: byte_char)
  show "\<forall>d. ascii (hex_write d)"
    unfolding ascii_def list_all_iff hex_write_def using less by auto
qed

definition demo_status :: Message where
  "demo_status = create_status_response (PStatus \<lparr>st_cipher = CAESAR, st_cipher_text = ''Hello'', st_key = ''D'', st_score = dbl_lit 3 2,
     st_progress = 0\<rparr>)"

definition demo_request :: Message where
  "demo_request = create_decrypt_request (PDecrypt \<lparr>dp_cipher = CAESAR, dp_mode = BRUTE, dp_cipher_text = [CHR 0xFF], dp_noise = dbl_lit 1 2,
     dp_start_key = ''A'', dp_end_key = ''Z'', dp_key_length = 1\<rparr>)"

lemmas demo_message_defs = demo_request_def create_decrypt_request_def demo_status_def create_status_response_def mk_Message_def

theorem wire_roundtrip_witness:
  "\<exists>bss. sequenceR (map (send_message hex_write (json_dump (- 1))) [demo_request, demo_status]) = Inr bss
    \<and> read_all hex_read (json_parse True) (length [demo_request, demo_status]) (concat bss @ ''tail'') = Inr ([demo_request, demo_status], ''tail'')"
proof (rule wire_roundtrip [OF hex_codec])
  have ok: "message_wf demo_request" "message_text_ok demo_request" "message_wf demo_status" "message_text_ok demo_status" by code_simp+
  have "text_size (projr (message_to_json hex_write demo_request)) \<le> MAX_MESSAGE_SIZE"
    "text_size (projr (message_to_json hex_write demo_status)) \<le> MAX_MESSAGE_SIZE"
    by (simp_all add: demo_message_defs message_to_json_def payload_json_defs text_size_obj encode_def hex_write_def MAX_MESSAGE_SIZE_def)
  then show "\<forall>m \<in> set [demo_request, demo_status]. message_wf m \<and> message_text_ok m \<and> message_fits hex_write m"
    using ok message_fits_size [OF hex_codec(2)] by simp
qed

section \<open>Checkpoints\<close>

definition units_text_ok :: "Unit list \<Rightarrow> bool" where
  "units_text_ok us \<longleftrightarrow> list_all (\<lambda>u. dbl_wf (m_noise u) \<and> is_finite (m_noise u)) us"

definition result_text_ok :: "Result \<Rightarrow> bool" where
  "result_text_ok r \<longleftrightarrow> utf8_ok (res_key r) \<and> utf8_ok (res_text r) \<and> dbl_wf (res_score r) \<and> is_finite (res_score r)"

lemma checkpoint_json_wf:
  assumes "list_all unit_wf (c_units c)" and "units_text_ok (c_units c)" and "result_text_ok (c_best_result c)"
  shows "json_wf (checkpoint_json c) \<and> json_finite (checkpoint_json c)"
proof -
  have "json_wf (unit_to_json u) \<and> json_finite (unit_to_json u)" if "u \<in> set (c_units c)" for u
  proof -
    have u: "unit_wf u" "dbl_wf (m_noise u)" "is_finite (m_noise u)" using that assms(1,2) by (auto simp: list_all_iff units_text_ok_def)
    then show ?thesis by (simp add: unit_to_json_def mk_obj_wf mk_obj_finite unit_wf_def int_ok_int64)
  qed
  moreover have "json_wf (result_to_json (c_best_result c)) \<and> json_finite (result_to_json (c_best_result c))"
    using assms(3) by (simp add: result_to_json_def mk_obj_wf mk_obj_finite result_text_ok_def)
  ultimately show ?thesis by (simp add: checkpoint_json_def mk_obj_wf mk_obj_finite list_all_iff)
qed

text \<open>Coordinators whose checkpoint can be parsed again, also with a best score that is not finite.\<close>

definition coord_storable :: "Coordinator \<Rightarrow> bool" where
  "coord_storable c \<longleftrightarrow> list_all unit_wf (c_units c) \<and> units_text_ok (c_units c) \<and> dbl_wf (res_score (c_best_result c))"

lemma units_nullify:
  assumes "units_text_ok us"
  shows "map nullify (map unit_to_json us) = map unit_to_json us"
proof -
  have "nullify (unit_to_json u) = unit_to_json u" if "is_finite (m_noise u)" for u
    using that by (simp add: unit_to_json_def mk_obj_def)
  then show ?thesis using assms by (auto simp: units_text_ok_def list_all_iff)
qed

lemma checkpoint_storable_wf:
  assumes "coord_storable c"
  shows "json_wf (checkpoint_json c)"
proof -
  have "json_wf (unit_to_json u)" if "u \<in> set (c_units c)" for u
  proof -
    have "unit_wf u" "dbl_wf (m_noise u)" using that assms by (auto simp: coord_storable_def units_text_ok_def list_all_iff)
    then show ?thesis by (simp add: unit_to_json_def mk_obj_wf unit_wf_def int_ok_int64)
  qed
  then show ?thesis using assms
    by (simp add: checkpoint_json_def result_to_json_def coord_storable_def mk_obj_wf list_all_iff)
qed

text \<open>A file that holds only the beginning of a checkpoint is not loaded.\<close>

lemma torn_checkpoint_throws:
  assumes st: "coord_storable c" and s: "json_dump 2 (checkpoint_json c) = Inr s" and k: "k < length s"
  shows "\<exists>e. json_parse strict (take k s) = Inl e \<and> is_exception e"
proof -
  obtain kvs where kvs: "checkpoint_json c = JObj kvs" by (simp add: checkpoint_json_def mk_obj_def)
  then obtain kvs' where n: "nullify (checkpoint_json c) = JObj kvs'" by simp
  have "json_wf (JObj kvs') \<and> json_finite (JObj kvs')" using nullify_wf [OF checkpoint_storable_wf [OF st]] n by simp
  moreover have "plain_value (Some 2) 0 (JObj kvs') = Inr s"
    using s json_dump_nullify [OF indent_ok_small(2), of "checkpoint_json c"] json_dump_plain [OF indent_ok_small(2)] n by simp
  ultimately show ?thesis using plain_prefix_rejected k by blast
qed

lemma torn_not_loaded:
  assumes "coord_storable c" and "json_dump 2 (checkpoint_json c) = Inr s" and "k < length s" and "fs path = Some (take k s)"
  shows "load_checkpoint (json_parse False) path t fs c0 = Inr (False, c0)"
  using torn_checkpoint_throws [OF assms(1-3), of False] assms(4) by (auto simp: load_checkpoint_def load_failed_def)

text \<open>
  C11. A checkpoint restores the work that was done, over the file that is really written: loading what was saved gives
  every unit its range, its parameters and its status back, leased units becoming unassigned, with the best result and
  a counter that agrees; nothing is pending. The text and its first 32 bytes have to be valid UTF-8.
\<close>

theorem saved_checkpoint_restored:
  assumes "list_all unit_wf (c_units c)" and "units_text_ok (c_units c)" and "result_text_ok (c_best_result c)"
    and "utf8_ok (get_text (c_message c))" and "utf8_ok (take 32 (get_text (c_message c)))"
  shows "load_checkpoint (json_parse False) path (get_text (c_message c)) (snd (save_checkpoint (json_dump 2) disk_fine path c fs)) c0
    = Inr (True, c0\<lparr>c_best_result := c_best_result c, c_units := restored (c_units c),
                     c_pending_units := Map.empty, c_done_count := count_done (c_units c)\<rparr>)"
proof -
  have "dump_ok (checkpoint_json c)" using assms(3-5) by (simp add: checkpoint_dump_ok result_text_ok_def)
  then obtain s where "json_dump 2 (checkpoint_json c) = Inr s" "json_parse False s = Inr (checkpoint_json c)"
    using json_roundtrip [of "checkpoint_json c" 2 False] indent_ok_small(2) checkpoint_json_wf [OF assms(1-3)] by blast
  then show ?thesis using assms(1) by (rule checkpoint_roundtrip)
qed

theorem saved_checkpoint_restored_witness:
  "load_checkpoint (json_parse False) ''cp'' (get_text (c_message demo)) (snd (save_checkpoint (json_dump 2) disk_fine ''cp'' demo Map.empty)) demo
    = Inr (True, demo\<lparr>c_best_result := c_best_result demo, c_units := restored (c_units demo),
                     c_pending_units := Map.empty, c_done_count := count_done (c_units demo)\<rparr>)"
proof (rule saved_checkpoint_restored [OF demo_wf])
  show "units_text_ok (c_units demo)" "result_text_ok (c_best_result demo)"
    "utf8_ok (get_text (c_message demo))" "utf8_ok (take 32 (get_text (c_message demo)))" by code_simp+
qed

text \<open>
  C33. Saving is atomic for whoever loads the checkpoint. Whatever the operating system answers, in every state that the
  file system goes through, also if the call throws, the checkpoint file has its old contents, or the whole new ones, or
  - only if writing failed and the truncated file was renamed over it - the beginning of the new ones, which is never
  loaded: the coordinator stays as it is. In this last case the old checkpoint is lost.
\<close>

theorem save_checkpoint_atomic:
  assumes "coord_storable c" and "fs' \<in> set (snd (save_states (json_dump 2) io path c fs))"
  shows "fs' path = fs path \<or> (\<exists>s. json_dump 2 (checkpoint_json c) = Inr s \<and> fs' path = Some s)
    \<or> io_room io \<noteq> None \<and> (\<forall>t c0. load_checkpoint (json_parse False) path t fs' c0 = Inr (False, c0))"
  using save_states_at [OF assms(2)]
proof (elim disjE exE conjE)
  fix s
  assume s: "json_dump 2 (checkpoint_json c) = Inr s" "fs' path = Some (written io s)"
  show ?thesis
  proof (cases "written io s = s")
    case False
    obtain k where k: "written io s = take k s" using written_prefix by blast
    then have "k < length s" using False by (metis linorder_not_less take_all)
    then show ?thesis using torn_not_loaded [OF assms(1) s(1)] s(2) k False written_whole [of io s] by auto
  qed (use s in simp)
qed simp

text \<open>The disk takes one byte: the old checkpoint is replaced by it, and then nothing is loaded.\<close>

theorem save_checkpoint_atomic_witness:
  "\<exists>fs' \<in> set (snd (save_states (json_dump 2) \<lparr>io_opens = True, io_room = Some 1, io_renames = True\<rparr> ''cp'' demo [''cp'' \<mapsto> ''old''])).
     fs' ''cp'' = Some ''{'' \<and> (\<forall>t c0. load_checkpoint (json_parse False) ''cp'' t fs' c0 = Inr (False, c0))"
proof -
  let ?io = "\<lparr>io_opens = True, io_room = Some 1, io_renames = True\<rparr>"
  have "units_text_ok (c_units demo)" "dbl_wf (res_score (c_best_result demo))" "dump_ok (checkpoint_json demo)" by code_simp+
  then have st: "coord_storable demo" "dump_ok (checkpoint_json demo)" using demo_wf by (simp_all add: coord_storable_def)
  have "floats_wf (checkpoint_json demo)" by (rule json_wf_floats [OF checkpoint_storable_wf [OF st(1)]])
  then obtain s where s: "json_dump 2 (checkpoint_json demo) = Inr s"
    using json_dump_cases [OF _ indent_ok_small(2), of "checkpoint_json demo"] st(2) by auto
  obtain kvs where "checkpoint_json demo = JObj kvs" by (simp add: checkpoint_json_def mk_obj_def)
  then have "plain_value (Some 2) 0 (JObj kvs) = Inr s" using s by (simp add: json_dump_plain indent_ok_small)
  then obtain s' where s': "s = CHR ''{'' # s'" using plain_object_first by blast
  let ?fs = "([''cp'' \<mapsto> ''{''])(''cp'' @ ''.tmp'' := None)"
  have mem: "?fs \<in> set (snd (save_states (json_dump 2) ?io ''cp'' demo [''cp'' \<mapsto> ''old'']))"
    using s s' by (simp add: save_states_def written_def Let_def)
  have "?fs ''cp'' \<noteq> Some s"
  proof
    assume "?fs ''cp'' = Some s"
    then have "s = ''{''" by simp
    then show False using json_reads_null [OF checkpoint_storable_wf [OF st(1)] indent_ok_small(2) s, of False]
      by (simp add: json_parse_def scan_first_def skip_bom_def scan_brace sax_parse_internal.simps(2) parse_member_def)
  qed
  then show ?thesis using save_checkpoint_atomic [OF st(1) mem] s by (intro bexI [OF _ mem]) auto
qed

section \<open>Two senders on one connection\<close>

text \<open>ASCII text without quotes, backslashes and control characters is written as it is.\<close>

lemma dump_escaped_plain:
  assumes "list_all (\<lambda>c. 0x20 \<le> byte c \<and> byte c < 128 \<and> byte c \<noteq> 0x22 \<and> byte c \<noteq> 0x5C) s"
  shows "dump_escaped s = Inr s"
proof -
  have "dump_escaped_loop 0 cp s = Inr s" for cp
    using assms
  proof (induction s arbitrary: cp)
    case (Cons c s)
    then have "utf8_decode 0 c = 0" "decode_codep 0 cp c = byte c"
      using utf8_decode_ascii [of c] by (simp_all add: decode_codep_def utf8_class_def utf8_rows_def)
    then show ?case using Cons by (simp add: escape_codepoint_def)
  qed simp
  then show ?thesis by (simp add: dump_escaped_def)
qed

definition peer_coordinator :: "int \<Rightarrow> Message" where
  "peer_coordinator i = create_peer_coordinator (PPeerId i)"

definition peer_ping :: Message where
  "peer_ping = create_peer_ping (PPing 200)"

lemma peer_texts:
  "\<exists>s. bindR (message_to_json w peer_ping) (json_dump (- 1)) = Inr s \<and> length s = 62"
  "\<exists>s. bindR (message_to_json w (peer_coordinator i)) (json_dump (- 1)) = Inr s \<and> 4 \<le> length s"
proof -
  have "dump_escaped ''code'' = Inr ''code''" "dump_escaped ''type'' = Inr ''type''" "dump_escaped ''action'' = Inr ''action''"
    "dump_escaped ''payload'' = Inr ''payload''" "dump_escaped ''request'' = Inr ''request''"
    "dump_escaped ''peer_ping'' = Inr ''peer_ping''" "dump_escaped ''peer_id'' = Inr ''peer_id''"
    "dump_escaped ''peer_coordinator'' = Inr ''peer_coordinator''"
    by (rule dump_escaped_plain, simp)+
  moreover have "dump_integer 200 = ''200''" by code_simp
  moreover note defs = peer_ping_def peer_coordinator_def create_peer_ping_def create_peer_coordinator_def mk_Message_def
    message_to_json_def payload_json_defs mk_obj_def json_dump_plain indent_ok_small plain_close_def plain_indent_def
    open_text_def comma_text_def colon_text_def
  ultimately show "\<exists>s. bindR (message_to_json w peer_ping) (json_dump (- 1)) = Inr s \<and> length s = 62"
    "\<exists>s. bindR (message_to_json w (peer_coordinator i)) (json_dump (- 1)) = Inr s \<and> 4 \<le> length s"
    by (simp_all add: defs)
qed

lemma parse_ping_header: "json_parse True (put_u32 62 @ t) = Inl Json_parse_error"
proof -
  have "char_of (62 mod 256 :: nat) = CHR ''>''"
    using char_of_char [of "CHR ''>''", where 'a = nat] by simp
  then have "put_u32 62 = CHR ''>'' # tl (put_u32 62)" unfolding put_u32_def by (simp only: list.sel)
  then have eq: "put_u32 62 @ t = CHR ''>'' # tl (put_u32 62) @ t" by (metis append_Cons)
  have "\<not> isdigit CHR ''>''" by code_simp
  then have "scan_first (CHR ''>'' # tl (put_u32 62) @ t) = (Parse_error, [])"
    by (simp add: scan_first_def skip_bom_def scan_def json_space_def scan_at_def)
  then show ?thesis unfolding eq by (simp add: json_parse_def sax_parse_internal.simps(2))
qed

text \<open>One order of the writes of two senders: the header of the second message falls between the header and the text of the
  first.\<close>

lemma crossed_read:
  assumes "send_writes w dump m = Inr [h, s]" and "4 \<le> length s" and "length s \<le> MAX_MESSAGE_SIZE" and "length h' = 4"
    and "\<And>t. parse (h' @ t) = Inl e"
  shows "read_message r parse (concat [h, h', s, s'] @ rest) = Inl e"
proof -
  have h: "h = put_u32 (length s)"
    using assms(1,3) by (auto simp: send_writes_def bindR_eq_Inr MAX_MESSAGE_SIZE_def)
  have "take (length s) (h' @ s @ s' @ rest) = h' @ take (length s - 4) (s @ s' @ rest)"
    using assms(2,4) by simp
  then show ?thesis
    using assms(3,5) by (simp add: read_message_def read_frame_def async_read_def h get_put_u32 MAX_MESSAGE_SIZE_def assms(4))
qed

lemma peer_messages:
  assumes "int_ok i" and "m \<in> {peer_ping, peer_coordinator i}"
  shows "message_wf m \<and> message_text_ok m \<and> sendable w (json_dump (- 1)) (json_parse True) m"
proof -
  have m: "\<And>w. message_to_json w m = message_to_json (\<lambda>d. []) m" "message_wf m" "message_text_ok m"
    "text_size (projr (message_to_json (\<lambda>d. []) m)) \<le> MAX_MESSAGE_SIZE" "ascii []"
    using assms by (auto simp: peer_coordinator_def peer_ping_def create_peer_coordinator_def create_peer_ping_def
      mk_Message_def message_to_json_def message_wf_def payload_wf_def message_text_ok_def payload_text_ok_def
      payload_json_defs text_size_obj MAX_MESSAGE_SIZE_def int_ok_def INT_MIN_def INT_MAX_def ascii_def)
  then have "sendable (\<lambda>d. []) (json_dump (- 1)) (json_parse True) m"
    by (intro message_sendable message_fits_size) auto
  then show ?thesis using m(1) [of w] m(2,3) by (simp add: sendable_def)
qed

text \<open>C39. Two coroutines that send on one connection are not serialised. A PING of the heartbeat and a
  COORDINATOR message of the same server are read back when one is written after the other; but \<^verbatim>\<open>send_message\<close> writes header
  and text in two operations, and if the header of the PING falls between the two writes of the COORDINATOR message,
  the receiver's parser throws, which ends its session with that server.\<close>

theorem crossed_sends_break_session:
  assumes "int_ok i" and "codec w r"
  shows "\<exists>wp wc. send_writes w (json_dump (- 1)) peer_ping = Inr wp
    \<and> send_writes w (json_dump (- 1)) (peer_coordinator i) = Inr wc
    \<and> (\<forall>rest. read_all r (json_parse True) 2 (concat (wp @ wc) @ rest) = Inr ([peer_ping, peer_coordinator i], rest))
    \<and> (\<exists>ws \<in> shuffles wp wc. \<forall>rest. read_message r (json_parse True) (concat ws @ rest) = Inl Json_parse_error)"
proof -
  obtain sp sc where sp: "bindR (message_to_json w peer_ping) (json_dump (- 1)) = Inr sp" "length sp = 62"
    and sc: "bindR (message_to_json w (peer_coordinator i)) (json_dump (- 1)) = Inr sc" "4 \<le> length sc"
    using peer_texts by metis
  let ?h = "\<lambda>s :: string. put_u32 (length s mod 4294967296)"
  have w: "send_writes w (json_dump (- 1)) peer_ping = Inr [?h sp, sp]"
    "send_writes w (json_dump (- 1)) (peer_coordinator i) = Inr [?h sc, sc]"
    by (simp_all add: send_writes_def sp sc)
  have ok: "message_wf m \<and> sendable w (json_dump (- 1)) (json_parse True) m" if "m \<in> {peer_ping, peer_coordinator i}" for m
    using peer_messages [OF assms(1) that] by blast
  then have "read_all r (json_parse True) 2 (concat ([?h sp, sp] @ [?h sc, sc]) @ rest)
      = Inr ([peer_ping, peer_coordinator i], rest)" for rest
    using stream_roundtrip [OF assms(2), of "[peer_ping, peer_coordinator i]" "json_dump (- 1)" "json_parse True" rest]
    by (simp add: send_message_def w numeral_2_eq_2)
  moreover have "length sc \<le> MAX_MESSAGE_SIZE"
    using ok [of "peer_coordinator i"] sc(1) by (auto simp: sendable_def bindR_eq_Inr bindR_eq_Inl split: sum.splits)
  then have "read_message r (json_parse True) (concat [?h sc, ?h sp, sc, sp] @ rest) = Inl Json_parse_error" for rest
    using parse_ping_header by (intro crossed_read [OF w(2) sc(2)]) (simp_all add: sp(2))
  moreover have "[?h sc, ?h sp, sc, sp] \<in> shuffles [?h sp, sp] [?h sc, sc]" by simp
  ultimately show ?thesis using w by blast
qed

theorem crossed_sends_break_session_witness:
  "\<exists>wp wc. send_writes hex_write (json_dump (- 1)) peer_ping = Inr wp
    \<and> send_writes hex_write (json_dump (- 1)) (peer_coordinator 3) = Inr wc
    \<and> (\<forall>rest. read_all hex_read (json_parse True) 2 (concat (wp @ wc) @ rest) = Inr ([peer_ping, peer_coordinator 3], rest))
    \<and> (\<exists>ws \<in> shuffles wp wc. \<forall>rest. read_message hex_read (json_parse True) (concat ws @ rest) = Inl Json_parse_error)"
  by (rule crossed_sends_break_session [OF _ hex_codec(1)]) (simp add: int_ok_def INT_MIN_def INT_MAX_def)

end
