(* ===== verification/Recovery.thy ===== *)
theory Recovery
  imports Progress Wire
begin

text \<open>
  A server that ends and is started again (\<^verbatim>\<open>src/CoordServ.cpp\<close>, \<^verbatim>\<open>src/Coordinator.cpp\<close>): at any moment the process may
  end, also in the middle of writing a checkpoint or with the exception of a failed one. The disk keeps what was written,
  a new process finds it, workers connect again and the client asks again. The search goes on from the checkpoint and
  is still complete. The server relies on the checkpoint file through the contract \<open>checkpoint_store\<close>, which the JSON
  library is shown to keep.
\<close>

section \<open>The contract of the checkpoint file\<close>

text \<open>The coordinator that a checkpoint makes of a new one.\<close>

definition resumed :: "Coordinator \<Rightarrow> Coordinator \<Rightarrow> Coordinator" where
  "resumed saved c = c\<lparr>c_best_result := c_best_result saved, c_units := restored (c_units saved),
     c_pending_units := Map.empty, c_done_count := count_done (c_units saved)\<rparr>"

text \<open>
  What the server relies on: a file that was written for a coordinator with \<open>storable\<close> values, whole or broken off, is loaded
  as a whole or reported as not loaded, and then nothing has changed.
\<close>

locale checkpoint_store =
  fixes dump :: "json \<Rightarrow> string res" and parse :: "string \<Rightarrow> json res" and storable :: "Coordinator \<Rightarrow> bool"
  assumes restores: "\<lbrakk>storable saved; dump (checkpoint_json saved) = Inr x; fs path = Some (take k x)\<rbrakk> \<Longrightarrow>
      load_checkpoint parse path (get_text (c_message saved)) fs c = Inr (True, resumed saved c)
      \<or> load_checkpoint parse path (get_text (c_message saved)) fs c = Inr (False, c)"

text \<open>A best score that is not finite was written as \<^verbatim>\<open>null\<close>: the file is not loaded. Neither is the beginning of one.\<close>

lemma whole_checkpoint_restores:
  assumes st: "coord_storable saved" and x: "json_dump 2 (checkpoint_json saved) = Inr x" "fs path = Some x"
  shows "load_checkpoint (json_parse False) path (get_text (c_message saved)) fs c = Inr (True, resumed saved c)
    \<or> load_checkpoint (json_parse False) path (get_text (c_message saved)) fs c = Inr (False, c)"
proof -
  let ?t = "get_text (c_message saved)" and ?r = "c_best_result saved"
  have read: "json_parse False x = Inr (nullify (checkpoint_json saved))"
    using json_reads_null [OF checkpoint_storable_wf [OF st] indent_ok_small(2) x(1)] .
  have units: "map nullify (map unit_to_json (c_units saved)) = map unit_to_json (c_units saved)"
    "list_all unit_wf (c_units saved)"
    using st units_nullify [of "c_units saved"] unfolding coord_storable_def by blast+
  show ?thesis
  proof (cases "is_finite (res_score ?r)")
    case True
    then have "nullify (checkpoint_json saved) = checkpoint_json saved"
      using units(1) by (simp add: checkpoint_json_def result_to_json_def mk_obj_def)
    then show ?thesis
      using load_checkpoint_fits [of fs path x "json_parse False" ?t _ ?r "map unit_to_json (c_units saved)" c] x(2) read units(2)
      by (simp add: checkpoint_json_def load_units_all resumed_def)
  next
    case False
    then show ?thesis using x(2) read
      by (simp add: load_checkpoint_def checkpoint_json_def result_to_json_def mk_obj_def result_from_json_def load_failed_def)
  qed
qed

interpretation json_file: checkpoint_store "json_dump 2" "json_parse False" coord_storable
proof unfold_locales
  fix saved x path k c and fs :: files
  assume st: "coord_storable saved" and x: "json_dump 2 (checkpoint_json saved) = Inr x" "fs path = Some (take k x)"
  show "load_checkpoint (json_parse False) path (get_text (c_message saved)) fs c = Inr (True, resumed saved c)
      \<or> load_checkpoint (json_parse False) path (get_text (c_message saved)) fs c = Inr (False, c)"
    using whole_checkpoint_restores [OF st x(1), of fs path c] torn_not_loaded [OF st x(1), of k fs path] x(2)
    by (cases "k < length x") simp_all
qed

section \<open>What a handler leaves on the disk\<close>

definition disk :: "Server \<Rightarrow> string \<times> files" where
  "disk s = (sv_checkpoint_path s, sv_files s)"

lemma disk_simps [simp]:
  "disk (s\<lparr>sv_coordinator := c\<rparr>) = disk s" "disk (s\<lparr>sv_sessions := f\<rparr>) = disk s" "disk (s\<lparr>sv_workers := ws\<rparr>) = disk s"
  "disk (s\<lparr>sv_sent := xs\<rparr>) = disk s" "disk (upd_session w g s) = disk s" "disk (emit x s) = disk s"
  "disk (remove_worker w s) = disk s" "disk (erase_pending i s) = disk s"
  by (simp_all add: disk_def upd_session_def emit_def remove_worker_def erase_pending_def)

lemma send_unit_disk: "send_unit i w s = (e, s') \<Longrightarrow> disk s' = disk s"
  by (auto simp: send_unit_def Let_def split: option.splits sum.splits)

lemma spawn_assign_disk: "spawn_assign w now s = Inr s' \<Longrightarrow> disk s' = disk s"
  by (auto simp: spawn_assign_def dest!: send_unit_disk split: option.splits prod.splits if_splits)

lemma add_worker_disk: "add_worker w now s = Inr s' \<Longrightarrow> disk s' = disk s"
  by (auto simp: add_worker_def Let_def dest!: spawn_assign_disk split: option.splits if_splits)

lemma send_result_disk: "send_result_to_client junk r s = (e, s') \<Longrightarrow> disk s' = disk s"
  using send_result_effect [of junk r s e s'] by auto

lemma handle_status_disk: "handle_status junk p w now s = (e, s') \<Longrightarrow> disk s' = disk s"
  by (auto simp: handle_status_def Let_def dest!: spawn_assign_disk send_result_disk
      split: option.splits sum.splits prod.splits if_splits)

lemma worker_read_disk: "worker_read junk m w now s = Inr s' \<Longrightarrow> disk s' = disk s"
  by (auto simp: worker_read_def worker_message_def dest!: handle_status_disk
      split: option.splits prod.splits if_splits Payload.splits)

lemma assign_all_disk: "assign_all ws now s = Inr s' \<Longrightarrow> disk s' = disk s"
  by (induction ws arbitrary: s) (fastforce simp: bindR_eq_Inr dest!: spawn_assign_disk)+

lemma assign_free_disk: "assign_free ws now s = Inr s' \<Longrightarrow> disk s' = disk s"
  by (induction ws arbitrary: s) (fastforce simp: bindR_eq_Inr dest!: spawn_assign_disk split: if_splits)+

lemma handle_timeout_disk: "handle_timeout i now s = Inr s' \<Longrightarrow> disk s' = disk s"
  by (auto simp: handle_timeout_def bindR_eq_Inr Let_def dest!: assign_free_disk split: option.splits)

lemma expire_loop_disk: "expire_loop is now s = Inr s' \<Longrightarrow> disk s' = disk s"
proof (induction "is" arbitrary: s)
  case (Cons i "is")
  then show ?case by (fastforce simp: bindR_eq_Inr dest: handle_timeout_disk split: option.splits if_splits)
qed simp

section \<open>Checkpoints of the task\<close>

text \<open>The checkpoint file, if there is one, is that of a coordinator of the task, or the beginning of one.\<close>

definition disk_ok ::
    "(json \<Rightarrow> string res) \<Rightarrow> string \<Rightarrow> Unit list \<Rightarrow> (Unit \<Rightarrow> Result set) \<Rightarrow> string \<times> files \<Rightarrow> bool" where
  "disk_ok dump t us sols d \<longleftrightarrow>
     (\<forall>x. snd d (fst d) = Some x \<longrightarrow> (\<exists>c y k. coord_part t us sols c \<and> dump (checkpoint_json c) = Inr y \<and> x = take k y))"

text \<open>
  What is on the disk if the server ends now: what was there, or a state that the timer goes through while it writes a
  checkpoint, whatever the operating system answers.
\<close>

inductive left_on_disk :: "(json \<Rightarrow> string res) \<Rightarrow> Server \<Rightarrow> files \<Rightarrow> bool" for dump :: "json \<Rightarrow> string res" and s :: Server where
  left_idle: "left_on_disk dump s (sv_files s)"
| left_saving: "\<lbrakk>expire_loop is now s = Inr s'; sv_coordinator s' = Some c; should_save (sv_last_checkpoint_done s') c;
     fs \<in> set (snd (save_states dump io (sv_checkpoint_path s') c (sv_files s')))\<rbrakk> \<Longrightarrow> left_on_disk dump s fs"

text \<open>The coordinator that the timer saves, and where.\<close>

lemma expired_coordinator:
  assumes "expire_loop is now s = Inr s'" and "srv_inv knows t us sols A jobs nodes s" and "\<forall>u \<in> set us. unit_sound u"
  obtains c where "sv_coordinator s' = Some c" "coord_part t us sols c" "disk s' = disk s"
proof -
  have "srv_inv knows t us sols A jobs nodes s'" using expire_loop_sound [OF assms(2,3), of "is" now] assms(1) by simp
  then show ?thesis using that expire_loop_disk [OF assms(1)] by (auto simp: inv_defs)
qed

lemma left_disk_ok:
  assumes "left_on_disk dump s fs" and inv: "srv_inv knows t us sols A jobs nodes s" and us: "\<forall>u \<in> set us. unit_sound u"
    and old: "disk_ok dump t us sols (disk s)"
  shows "disk_ok dump t us sols (sv_checkpoint_path s, fs)"
  using assms(1)
proof cases
  case (left_saving "is" now s' c io)
  obtain c' where "sv_coordinator s' = Some c'" "coord_part t us sols c'" "disk s' = disk s"
    using expired_coordinator [OF left_saving(1) inv us] .
  then show ?thesis using save_states_at [OF left_saving(4)] written_prefix [of io] left_saving(2) old
    by (auto simp: disk_ok_def disk_def) metis+
qed (use old in \<open>simp add: disk_def\<close>)

lemma tick_disk_ok:
  assumes run: "check_timeouts dump io is now s = Inr s'"
    and inv: "srv_inv knows t us sols A jobs nodes s" and us: "\<forall>u \<in> set us. unit_sound u"
    and old: "disk_ok dump t us sols (disk s)"
  shows "disk_ok dump t us sols (disk s')"
proof -
  obtain s1 where s1: "expire_loop is now s = Inr s1" "maybe_save_checkpoint dump io s1 = (None, s')"
    using run by (cases "expire_loop is now s") (auto simp: check_timeouts_def split: prod.splits option.splits)
  obtain c where c: "sv_coordinator s1 = Some c" "coord_part t us sols c" "disk s1 = disk s"
    using expired_coordinator [OF s1(1) inv us] .
  show ?thesis
  proof (cases "should_save (sv_last_checkpoint_done s1) c")
    case True
    then obtain fs where fs: "save_checkpoint dump io (sv_checkpoint_path s1) c (sv_files s1) = (Inr (), fs)"
      "s' = s1\<lparr>sv_files := fs, sv_last_checkpoint_done := c_done_count c\<rparr>"
      using s1(2) c(1) by (auto simp: maybe_save_checkpoint_def split: prod.splits sum.splits)
    then show ?thesis using save_checkpoint_at [OF fs(1)] written_prefix [of io] old c(2,3)
      by (auto simp: disk_ok_def disk_def) metis+
  qed (use s1(2) c old in \<open>simp add: maybe_save_checkpoint_def\<close>)
qed

lemma deliver_disk [simp]: "disk (wd_server (deliver s wd)) = disk s"
  by (simp add: deliver_def)

lemma step_disk_ok:
  assumes "step dump work ok wd wd'" and inv: "task_inv knows ok t us sols wd" and us: "\<forall>u \<in> set us. unit_sound u"
    and old: "disk_ok dump t us sols (disk (wd_server wd))"
  shows "disk_ok dump t us sols (disk (wd_server wd'))"
  using assms(1)
proof cases
  case (join w n now s)
  then show ?thesis using old add_worker_disk by fastforce
next
  case (answer w m ms n r junk now s)
  then show ?thesis using old worker_read_disk by fastforce
next
  case (tick io "is" now s)
  then show ?thesis using tick_disk_ok [OF tick(2) _ us old] inv by (auto simp: task_inv_def)
qed (use old in simp_all)

section \<open>Starting again\<close>

text \<open>A new process with the disk of the old one; workers have connected, the client has not asked yet.\<close>

definition restarted :: "('n \<Rightarrow> bool) \<Rightarrow> string \<Rightarrow> files \<Rightarrow> 'n World \<Rightarrow> bool" where
  "restarted ok path fs wd \<longleftrightarrow> at_rest ok wd \<and> disk (wd_server wd) = (path, fs)
     \<and> (\<forall>w \<in> set (sv_workers (wd_server wd)). sv_sessions (wd_server wd) w = new_WorkerSession)"

text \<open>Distinct workers that connect to a new server make such a world.\<close>

fun connect :: "worker_id list \<Rightarrow> time_point \<Rightarrow> Server \<Rightarrow> Server res" where
  "connect [] now s = Inr s"
| "connect (w # ws) now s = bindR (add_worker w now s) (connect ws now)"

lemma connect_new:
  assumes "sv_coordinator s = None" and "\<forall>w. sv_sessions s w = new_WorkerSession"
  shows "connect ws now s = Inr (s\<lparr>sv_workers := sv_workers s @ ws\<rparr>)"
  using assms
proof (induction ws arbitrary: s)
  case (Cons w ws)
  have "sv_sessions s = (sv_sessions s)(w := new_WorkerSession)" using Cons.prems(2) by auto
  then have "add_worker w now s = Inr (s\<lparr>sv_workers := sv_workers s @ [w]\<rparr>)"
    using Cons.prems(1) by (simp add: add_worker_def Let_def)
  then show ?case using Cons by simp
qed simp

lemma connected_restarted:
  assumes "distinct ws" and "connect ws now (new_Server path fs) = Inr s" and "\<forall>w \<in> set ws. ok (nodes w)"
  shows "restarted ok path fs \<lparr>wd_server = snd (accept_client s), wd_jobs = (\<lambda>w. []), wd_nodes = nodes,
    wd_used = set ws, wd_gone = {}, wd_results = []\<rparr>"
proof -
  have "s = (new_Server path fs)\<lparr>sv_workers := ws\<rparr>"
    using assms(2) connect_new [of "new_Server path fs" ws now] by (simp add: new_Server_def)
  then show ?thesis using assms(1,3)
    by (auto simp: restarted_def at_rest_def accept_client_def is_busy_def new_Server_def disk_def is_free_def new_WorkerSession_def)
qed

text \<open>The life of a search: it begins on an idle cluster, goes on step by step, and starts again when the server has ended.\<close>

inductive life ::
    "(json \<Rightarrow> string res) \<Rightarrow> (string \<Rightarrow> json res) \<Rightarrow> ('n \<Rightarrow> Message \<Rightarrow> ('n \<times> Message option) res) \<Rightarrow> ('n \<Rightarrow> bool)
     \<Rightarrow> DecryptPayload \<Rightarrow> 'n World \<Rightarrow> bool"
  for dump :: "json \<Rightarrow> string res" and parse :: "string \<Rightarrow> json res"
    and work :: "'n \<Rightarrow> Message \<Rightarrow> ('n \<times> Message option) res" and ok :: "'n \<Rightarrow> bool" and p :: DecryptPayload
where
  begun: "\<lbrakk>idle_world ok wd; handle_task srt parse junk p now (wd_server wd) = Some (e, s)\<rbrakk>
    \<Longrightarrow> life dump parse work ok p (deliver s wd)"
| lived: "\<lbrakk>life dump parse work ok p wd; step dump work ok wd wd'\<rbrakk> \<Longrightarrow> life dump parse work ok p wd'"
| revived: "\<lbrakk>life dump parse work ok p wd; left_on_disk dump (wd_server wd) fs;
     restarted ok (sv_checkpoint_path (wd_server wd)) fs wd'; handle_task srt parse junk p now (wd_server wd') = Some (e, s)\<rbrakk>
    \<Longrightarrow> life dump parse work ok p (deliver s wd')"

section \<open>The task goes on\<close>

text \<open>The server that has loaded a checkpoint, or not, before it leases units or sends the result.\<close>

definition resume_server :: "DecryptPayload \<Rightarrow> bool \<Rightarrow> Coordinator \<Rightarrow> Server \<Rightarrow> Server" where
  "resume_server p b c s = (task_server p c s)\<lparr>sv_last_checkpoint_done := (if b then c_done_count c else 0)\<rparr>"

lemma resume_fields [simp]:
  "sv_coordinator (resume_server p b c s) = Some c" "sv_workers (resume_server p b c s) = sv_workers s"
  "sv_sessions (resume_server p b c s) = sv_sessions s" "sv_sent (resume_server p b c s) = sv_sent s"
  "disk (resume_server p b c s) = disk s" "client_frame (resume_server p b c s) = client_frame (task_server p c s)"
  by (simp_all add: resume_server_def task_server_def disk_def client_frame_def)

lemma handle_task_loaded:
  assumes p: "task_ok p" and c0: "new_Coordinator (message_of (dp_cipher p) (task_text p)) (task_policy p) = Some (Inr c0)"
    and load: "load_checkpoint parse (sv_checkpoint_path s) (task_text p) (sv_files s) (set_mode (dp_mode p) c0) = Inr (b, c)"
  shows "handle_task srt parse junk p now s = Some (let s1 = resume_server p b c s
    in if all_units_done c then send_result_to_client junk (c_best_result c) s1
       else case assign_all (sv_workers s) now s1 of Inl e \<Rightarrow> (Some e, s1) | Inr s2 \<Rightarrow> (None, s2))"
proof -
  have "get_text (message_of (dp_cipher p) (task_text p)) = task_text p" by (simp add: message_of_def)
  then show ?thesis using c0 load
    by (simp add: handle_task_policy [OF p] set_task_def Let_def resume_server_def task_server_def)
qed

lemma loaded_inv:
  assumes rest: "at_rest ok wd" and p: "task_ok p"
    and c0: "new_Coordinator (message_of (dp_cipher p) (task_text p)) (task_policy p) = Some (Inr c0)"
    and load: "load_checkpoint parse (sv_checkpoint_path (wd_server wd)) (task_text p) (sv_files (wd_server wd))
      (set_mode (dp_mode p) c0) = Inr (b, c)"
    and c: "coord_part t us sols c" and us: "\<forall>u \<in> set us. unit_sound u"
    and new: "all_units_done c \<Longrightarrow> \<forall>w \<in> set (sv_workers (wd_server wd)). sv_sessions (wd_server wd) w = new_WorkerSession"
    and run: "handle_task srt parse junk p now (wd_server wd) = Some (e, s)"
  shows "task_inv knows ok t us sols (deliver s wd) \<and> disk s = disk (wd_server wd)"
proof (cases "all_units_done c")
  case True
  let ?s1 = "resume_server p b c (wd_server wd)"
  have s: "send_result_to_client junk (c_best_result c) ?s1 = (e, s)"
    using run True by (simp add: handle_task_loaded [OF p c0 load] Let_def)
  have "session_inv knows t us new_WorkerSession n []" for n by (simp add: session_inv_def new_WorkerSession_def)
  then have "srv_inv knows t us sols (wd_used wd - wd_gone wd) (wd_jobs wd) (wd_nodes wd) ?s1"
    using rest c new [OF True] by (auto simp: inv_defs at_rest_def)
  from send_result_keeps [OF this s] show ?thesis
    using send_result_disk [OF s] rest by (auto simp: at_rest_def intro!: task_inv_deliver)
next
  case False
  let ?s1 = "resume_server p b c (wd_server wd)"
  obtain s2 where s2: "assign_all (sv_workers (wd_server wd)) now ?s1 = Inr s2" "task_inv knows ok t us sols (deliver s2 wd)"
    using assign_all_start [OF rest c us, of ?s1 now knows] rest by (auto simp: at_rest_def)
  then have "s = s2" using run False by (simp add: handle_task_loaded [OF p c0 load] Let_def)
  then show ?thesis using s2 assign_all_disk [OF s2(1)] by simp
qed

text \<open>What was done stays done, and what was leased is searched again.\<close>

lemma resumed_part:
  assumes saved: "coord_part t us sols saved" and c: "coord_part t us sols c"
  shows "coord_part t us sols (resumed saved c)"
proof -
  have len: "length (c_units saved) = length us" using saved by (simp add: coord_part_def units_inv_def)
  then have nth: "restored (c_units saved) ! i = (c_units saved ! i)\<lparr>m_status := unlease (m_status (c_units saved ! i))\<rparr>"
    if "i < length us" for i using that by (simp add: restored_def)
  have unlease: "unlease st = Done \<longleftrightarrow> st = Done" "st \<in> {Unassigned, Leased, Done} \<Longrightarrow> unlease st \<in> {Unassigned, Leased, Done}" for st
    by (auto simp: unlease_def)
  have "units_inv us (resumed saved c)"
    unfolding units_inv_def
  proof (intro conjI allI impI)
    fix i
    assume i: "i < length us"
    then have "c_units saved ! i = (us ! i)\<lparr>m_status := m_status (c_units saved ! i)\<rparr>" "m_status (c_units saved ! i) \<in> {Unassigned, Leased, Done}"
      using saved unfolding coord_part_def units_inv_def by blast+
    then show "c_units (resumed saved c) ! i = (us ! i)\<lparr>m_status := m_status (c_units (resumed saved c) ! i)\<rparr>"
      "m_status (c_units (resumed saved c) ! i) \<in> {Unassigned, Leased, Done}"
      using nth [OF i] unlease(2) [of "m_status (c_units saved ! i)"] unfolding resumed_def
      by simp_all (metis Unit.surjective Unit.update_convs(3))
  qed (simp add: resumed_def restored_def len)
  moreover have "best_inv us sols (resumed saved c)"
    using saved nth unlease by (auto simp: coord_part_def best_inv_def resumed_def)
  ultimately show ?thesis using c by (simp add: coord_part_def resumed_def)
qed

lemma resumed_statuses:
  assumes "coord_part t us sols saved"
  shows "\<forall>u \<in> set (c_units (resumed saved c)). m_status u \<in> {Unassigned, Done}"
proof -
  have "m_status u \<in> {Unassigned, Leased, Done}" if "u \<in> set (c_units saved)" for u
    using assms that unfolding coord_part_def units_inv_def by (metis in_set_conv_nth)
  then show ?thesis by (fastforce simp: resumed_def restored_def unlease_def)
qed

context checkpoint_store
begin

lemma load_part:
  assumes disk: "disk_ok dump t us sols (path, fs)" and st: "\<And>c. coord_part t us sols c \<Longrightarrow> storable c"
    and c: "coord_part t us sols c" "\<forall>u \<in> set (c_units c). m_status u \<in> {Unassigned, Done}"
  obtains b c' where "load_checkpoint parse path t fs c = Inr (b, c')" "coord_part t us sols c'"
    "\<forall>u \<in> set (c_units c'). m_status u \<in> {Unassigned, Done}"
proof (cases "fs path")
  case None
  then show ?thesis using that [of False c] c by (simp add: load_checkpoint_def)
next
  case (Some x)
  then obtain saved y k where saved: "coord_part t us sols saved" "dump (checkpoint_json saved) = Inr y" "x = take k y"
    using disk by (auto simp: disk_ok_def)
  then have "get_text (c_message saved) = t" by (simp add: coord_part_def)
  then show ?thesis
    using restores [where fs = fs and path = path and c = c, OF st [OF saved(1)] saved(2) Some [unfolded saved(3)]] that c resumed_part [OF saved(1) c(1)] resumed_statuses [OF saved(1)] by blast
qed

end

text \<open>A search lives with the invariant of its task and a checkpoint of its task.\<close>

definition life_inv ::
    "('n \<Rightarrow> string \<Rightarrow> bool) \<Rightarrow> ('n \<Rightarrow> bool) \<Rightarrow> (json \<Rightarrow> string res) \<Rightarrow> string \<Rightarrow> Unit list \<Rightarrow> (Unit \<Rightarrow> Result set) \<Rightarrow> 'n World \<Rightarrow> bool" where
  "life_inv knows ok dump t us sols wd \<longleftrightarrow> task_inv knows ok t us sols wd \<and> disk_ok dump t us sols (disk (wd_server wd))"

text \<open>Both contracts together.\<close>

locale crash_recovery = worker_contract work ok knows sols + checkpoint_store dump parse storable
  for work :: "'n \<Rightarrow> Message \<Rightarrow> ('n \<times> Message option) res" and ok :: "'n \<Rightarrow> bool" and knows :: "'n \<Rightarrow> string \<Rightarrow> bool"
    and sols :: "string \<Rightarrow> Unit \<Rightarrow> Result set" and dump :: "json \<Rightarrow> string res" and parse :: "string \<Rightarrow> json res"
    and storable :: "Coordinator \<Rightarrow> bool"
begin

lemma begun_inv:
  assumes p: "task_ok p" and c0: "new_Coordinator (message_of (dp_cipher p) (task_text p)) (task_policy p) = Some (Inr c0)"
    and us: "\<forall>u \<in> set (c_units c0). m_status u = Unassigned \<and> unit_sound u" "c_units c0 \<noteq> []" "\<not> c_solved c0"
    and part: "coord_part (task_text p) (c_units c0) (sols (task_text p)) (set_mode (dp_mode p) c0)"
    and idle: "idle_world ok wd" and run: "handle_task srt parse junk p now (wd_server wd) = Some (e, s)"
  shows "life_inv knows ok dump (task_text p) (c_units c0) (sols (task_text p)) (deliver s wd)"
proof -
  let ?fs = "sv_files (wd_server wd)" and ?path = "sv_checkpoint_path (wd_server wd)"
  have rest: "at_rest ok wd" and none: "?fs ?path = None" using idle by (simp_all add: idle_world_def)
  have "load_checkpoint parse ?path (task_text p) ?fs (set_mode (dp_mode p) c0) = Inr (False, set_mode (dp_mode p) c0)"
    using none by (simp add: load_checkpoint_def)
  moreover have "\<not> all_units_done (set_mode (dp_mode p) c0)"
    using us by (cases "c_units c0") (auto simp: all_units_done_def set_mode_def)
  ultimately have "task_inv knows ok (task_text p) (c_units c0) (sols (task_text p)) (deliver s wd) \<and> disk s = disk (wd_server wd)"
    using loaded_inv [OF rest p c0 _ part _ _ run] us by blast
  moreover have "disk_ok dump (task_text p) (c_units c0) (sols (task_text p)) (disk (wd_server wd))"
    using none by (simp add: disk_ok_def disk_def)
  ultimately show ?thesis by (simp add: life_inv_def)
qed

lemma revived_load:
  assumes part: "coord_part t us (sols t) c" "\<forall>u \<in> set (c_units c). m_status u \<in> {Unassigned, Done}" and st: "\<And>c. coord_part t us (sols t) c \<Longrightarrow> storable c" and us: "\<forall>u \<in> set us. unit_sound u"
    and old: "life_inv knows ok dump t us (sols t) wd" "left_on_disk dump (wd_server wd) fs" and new: "restarted ok (sv_checkpoint_path (wd_server wd)) fs wd'"
  obtains b c' where "coord_part t us (sols t) c'" "disk_ok dump t us (sols t) (disk (wd_server wd'))"
    "load_checkpoint parse (sv_checkpoint_path (wd_server wd')) t (sv_files (wd_server wd')) c = Inr (b, c')"
    "\<forall>u \<in> set (c_units c'). m_status u \<in> {Unassigned, Done}"
proof -
  have "disk_ok dump t us (sols t) (disk (wd_server wd'))"
    using old left_disk_ok [OF old(2) _ us] new by (auto simp: life_inv_def task_inv_def restarted_def)
  then show ?thesis using load_part [OF _ st part] that by (metis disk_def)
qed

lemma life_keeps_inv:
  assumes "life dump parse work ok p wd"
    and p: "task_ok p" and c0: "new_Coordinator (message_of (dp_cipher p) (task_text p)) (task_policy p) = Some (Inr c0)"
    and us: "\<forall>u \<in> set (c_units c0). m_status u = Unassigned \<and> unit_sound u" "c_units c0 \<noteq> []" "\<not> c_solved c0"
    and part: "coord_part (task_text p) (c_units c0) (sols (task_text p)) (set_mode (dp_mode p) c0)"
    and st: "\<And>c. coord_part (task_text p) (c_units c0) (sols (task_text p)) c \<Longrightarrow> storable c"
    and t: "utf8_ok (task_text p)" "task_text p \<noteq> []"
  shows "life_inv knows ok dump (task_text p) (c_units c0) (sols (task_text p)) wd"
  using assms(1)
proof (induction rule: life.induct)
  case (begun wd srt junk now e s)
  then show ?case by (rule begun_inv [OF p c0 us part])
next
  case (lived wd wd')
  have "\<forall>u \<in> set (c_units c0). unit_sound u" using us(1) by simp
  then show ?case using step_inv [OF lived.hyps(2) _ _ t] step_disk_ok [OF lived.hyps(2)] lived.IH unfolding life_inv_def by blast
next
  case (revived wd fs wd' srt junk now e s)
  have sound: "\<forall>u \<in> set (c_units c0). unit_sound u" and new: "\<forall>u \<in> set (c_units (set_mode (dp_mode p) c0)). m_status u \<in> {Unassigned, Done}"
    using us(1) by (simp_all add: set_mode_def)
  obtain b c' where c': "coord_part (task_text p) (c_units c0) (sols (task_text p)) c'"
    "disk_ok dump (task_text p) (c_units c0) (sols (task_text p)) (disk (wd_server wd'))"
    "load_checkpoint parse (sv_checkpoint_path (wd_server wd')) (task_text p) (sv_files (wd_server wd')) (set_mode (dp_mode p) c0)
      = Inr (b, c')"
    using revived_load [OF part new st sound revived.IH revived.hyps(2,3)] .
  have "at_rest ok wd'" "\<forall>w \<in> set (sv_workers (wd_server wd')). sv_sessions (wd_server wd') w = new_WorkerSession"
    using revived.hyps(3) by (simp_all add: restarted_def)
  then show ?case using loaded_inv [OF _ p c0 c'(3,1) sound _ revived.hyps(4)] c'(2) by (simp add: life_inv_def)
qed

end

interpretation crash: crash_recovery "node_work b64 ser junk" "node_ok dict trigrams" node_knows "unit_solutions dict trigrams"
  "json_dump 2" "json_parse False" coord_storable for b64 ser junk dict trigrams
  by unfold_locales

text \<open>Every coordinator of the task can be stored.\<close>

lemma unit_storable:
  assumes p: "task_ok p" "mode_wf (dp_mode p)" and u: "unit_sound u" "unit_task u = sp_task (task_policy p)" and st: "status_wf st"
  shows "m_noise u = dp_noise p" "unit_wf (u\<lparr>m_status := st\<rparr>)"
proof -
  have t: "m_noise u = dp_noise p" "m_mode u = dp_mode p" "m_key_length u = task_key_length p"
    using u(2) by (simp_all add: unit_task_def sp_task_def task_policy_def new_StaticPolicy_def)
  then show "m_noise u = dp_noise p" by simp
  have "int_ok (task_key_length p)" using task_key_length_cases [OF p(1)] by (auto intro: int_okI)
  then show "unit_wf (u\<lparr>m_status := st\<rparr>)" using t p(2) u(1) st
    by (auto simp: unit_wf_def unit_sound_def dest!: int_okD intro!: int_okI)
qed

lemma task_storable:
  assumes p: "task_ok p" "mode_wf (dp_mode p)" "dbl_wf (dp_noise p)" "is_finite (dp_noise p)" and tri: "trigrams_wf trigrams"
    and us: "\<forall>u \<in> set us. unit_sound u \<and> unit_task u = sp_task (task_policy p)"
    and c: "coord_part t us (unit_solutions dict trigrams t) c"
  shows "coord_storable c"
proof -
  have "m_noise v = dp_noise p \<and> unit_wf v" if "v \<in> set (c_units c)" for v
  proof -
    obtain i where "i < length (c_units c)" "c_units c ! i = v" using \<open>v \<in> set (c_units c)\<close> by (metis in_set_conv_nth)
    then have i: "i < length us" "v = (us ! i)\<lparr>m_status := m_status v\<rparr>" "m_status v \<in> {Unassigned, Leased, Done}"
      using c unfolding coord_part_def units_inv_def by metis+
    have st: "status_wf (m_status v)" using i(3) by auto
    have "unit_sound (us ! i)" "unit_task (us ! i) = sp_task (task_policy p)" using us i(1) by simp_all
    note unit_storable [OF p(1,2) this st]
    then have "m_noise ((us ! i)\<lparr>m_status := m_status v\<rparr>) = dp_noise p" by simp
    then show ?thesis using \<open>unit_wf ((us ! i)\<lparr>m_status := m_status v\<rparr>)\<close> unfolding i(2) [symmetric] by blast
  qed
  then have "list_all unit_wf (c_units c)" "units_text_ok (c_units c)" using p(3,4) by (auto simp: list_all_iff units_text_ok_def)
  moreover have "dbl_wf (res_score (c_best_result c))"
  proof (cases "c_best_result c = init_result")
    case False
    then obtain u where "u \<in> set us" "c_best_result c \<in> unit_solutions dict trigrams t u"
      using c by (auto simp: coord_part_def best_inv_def)
    moreover from this have "m_noise u = dp_noise p"
      using us by (auto simp: unit_task_def sp_task_def task_policy_def new_StaticPolicy_def)
    ultimately show ?thesis using unit_solutions_wf [OF tri] p(3) by metis
  qed (simp add: init_result_def)
  ultimately show ?thesis by (simp add: coord_storable_def)
qed

text \<open>Sending the result of a finished task does not fail; if it cannot be serialised this is only logged.\<close>

lemma finished_result_sent:
  assumes p: "task_ok p" and us: "\<forall>u \<in> set us. unit_sound u \<and> unit_task u = sp_task (task_policy p)"
    and c: "coord_part t us (unit_solutions dict trigrams t) c" and wf: "dbl_wf (res_score (c_best_result c))"
  shows "\<exists>s'. send_result_to_client junk (c_best_result c) (resume_server p b c s) = (None, s')"
proof -
  let ?s = "resume_server p b c s"
  have full: "full_message ?s = message_of (dp_cipher p) (dp_cipher_text p)"
    by (simp add: full_message_def resume_server_def task_server_def message_of_def)
  have caesar: "is_caesar (full_message ?s) \<longrightarrow> dp_cipher p = CAESAR" by (simp add: full message_of_def is_caesar_def)
  have "m_cipher u = dp_cipher p" if "u \<in> set us" for u
    using us that task_units_fields by blast
  then have "\<exists>x. decrypt (full_message ?s) (res_key r) = Inr x" if "r \<in> unit_solutions dict trigrams t u" "u \<in> set us" for r u
    using unit_key_decrypts [OF _ _ that(1)] us that(2) caesar by simp
  moreover have "\<exists>x. decrypt (full_message ?s) (res_key init_result) = Inr x" using decrypt_sentinel by (simp add: init_result_def)
  moreover have "c_best_result c \<in> insert init_result (\<Union>u \<in> set us. unit_solutions dict trigrams t u)"
    using c by (simp add: coord_part_def best_inv_def)
  ultimately obtain x where "decrypt (full_message ?s) (res_key (c_best_result c)) = Inr x" by (metis UN_E insertE)
  then show ?thesis
    using send_final_cases [of "(c_best_result c)\<lparr>res_text := x\<rparr>"] wf
    by (cases "sv_client ?s") (simp_all add: send_result_to_client_def full_message_def Let_def split: if_splits)
qed

text \<open>The task that lives, and what a restart loads.\<close>

definition recoverable :: "(string \<times> dbl) list option \<Rightarrow> DecryptPayload \<Rightarrow> bool" where
  "recoverable trigrams p \<longleftrightarrow> task_ok p \<and> utf8_ok (task_text p) \<and> task_text p \<noteq> [] \<and> mode_wf (dp_mode p)
     \<and> dbl_wf (dp_noise p) \<and> is_finite (dp_noise p) \<and> trigrams_wf trigrams"

lemma task_life:
  assumes p: "recoverable trigrams p"
    and life: "life (json_dump 2) (json_parse False) (node_work b64 ser junk) (node_ok dict trigrams) p wd"
  obtains c0 where "new_Coordinator (message_of (dp_cipher p) (task_text p)) (task_policy p) = Some (Inr c0)" "c_units c0 \<noteq> []"
    "\<forall>u \<in> set (c_units c0). unit_sound u \<and> unit_task u = sp_task (task_policy p)"
    "\<forall>u \<in> set (c_units (set_mode (dp_mode p) c0)). m_status u \<in> {Unassigned, Done}"
    "concat (map unit_keys (c_units c0)) = [0..26 ^ nat (task_key_length p) - 1]"
    "\<forall>sols. coord_part (task_text p) (c_units c0) sols (set_mode (dp_mode p) c0)"
    "life_inv node_knows (node_ok dict trigrams) (json_dump 2) (task_text p) (c_units c0) (unit_solutions dict trigrams (task_text p)) wd"
proof -
  have ok: "task_ok p" "utf8_ok (task_text p)" "task_text p \<noteq> []" "mode_wf (dp_mode p)" "dbl_wf (dp_noise p)" "is_finite (dp_noise p)"
    "trigrams_wf trigrams" using p by (simp_all add: recoverable_def)
  obtain c0 where c0: "new_Coordinator (message_of (dp_cipher p) (task_text p)) (task_policy p) = Some (Inr c0)" "c_units c0 \<noteq> []"
    "\<forall>u \<in> set (c_units c0). m_status u = Unassigned \<and> unit_task u = sp_task (task_policy p)"
    "\<forall>u \<in> set (c_units c0). unit_sound u" "concat (map unit_keys (c_units c0)) = [0..26 ^ nat (task_key_length p) - 1]"
    "\<not> c_solved c0" "\<forall>sols. coord_part (task_text p) (c_units c0) sols (set_mode (dp_mode p) c0)"
    by (rule task_coordinator [OF ok(1)])
  have us: "\<forall>u \<in> set (c_units c0). unit_sound u \<and> unit_task u = sp_task (task_policy p)" using c0(3,4) by simp
  note st = task_storable [OF ok(1,4-7) us]
  have "life_inv node_knows (node_ok dict trigrams) (json_dump 2) (task_text p) (c_units c0) (unit_solutions dict trigrams (task_text p)) wd"
    using crash.life_keeps_inv [OF life ok(1) c0(1) _ c0(2,6) _ st ok(2,3)] c0(3,4,7) by simp
  then show ?thesis using that [OF c0(1,2) us _ c0(5,7)] c0(3) by (simp add: set_mode_def)
qed

lemma task_revived:
  assumes p: "recoverable trigrams p"
    and life: "life (json_dump 2) (json_parse False) (node_work b64 ser junk) (node_ok dict trigrams) p wd"
    and left: "left_on_disk (json_dump 2) (wd_server wd) fs"
    and new: "restarted (node_ok dict trigrams) (sv_checkpoint_path (wd_server wd)) fs wd'"
  obtains c0 b c where "new_Coordinator (message_of (dp_cipher p) (task_text p)) (task_policy p) = Some (Inr c0)" "c_units c0 \<noteq> []"
    "\<forall>u \<in> set (c_units c0). unit_sound u \<and> unit_task u = sp_task (task_policy p)"
    "concat (map unit_keys (c_units c0)) = [0..26 ^ nat (task_key_length p) - 1]"
    "coord_part (task_text p) (c_units c0) (unit_solutions dict trigrams (task_text p)) c"
    "load_checkpoint (json_parse False) (sv_checkpoint_path (wd_server wd')) (task_text p) (sv_files (wd_server wd'))
       (set_mode (dp_mode p) c0) = Inr (b, c)"
    "\<forall>u \<in> set (c_units c). m_status u \<in> {Unassigned, Done}" "at_rest (node_ok dict trigrams) wd'"
proof -
  obtain c0 where c0: "new_Coordinator (message_of (dp_cipher p) (task_text p)) (task_policy p) = Some (Inr c0)" "c_units c0 \<noteq> []"
    "\<forall>u \<in> set (c_units c0). unit_sound u \<and> unit_task u = sp_task (task_policy p)"
    "\<forall>u \<in> set (c_units (set_mode (dp_mode p) c0)). m_status u \<in> {Unassigned, Done}"
    "concat (map unit_keys (c_units c0)) = [0..26 ^ nat (task_key_length p) - 1]"
    "\<forall>sols. coord_part (task_text p) (c_units c0) sols (set_mode (dp_mode p) c0)"
    "life_inv node_knows (node_ok dict trigrams) (json_dump 2) (task_text p) (c_units c0) (unit_solutions dict trigrams (task_text p)) wd"
    by (rule task_life [OF p life])
  have "\<forall>u \<in> set (c_units c0). unit_sound u" using c0(3) by simp
  note load = crash.revived_load [OF c0(6) [THEN spec] c0(4) task_storable [OF _ _ _ _ _ c0(3)] this c0(7) left new]
  have ok: "task_ok p" "mode_wf (dp_mode p)" "dbl_wf (dp_noise p)" "is_finite (dp_noise p)" "trigrams_wf trigrams"
    "at_rest (node_ok dict trigrams) wd'" using p new by (simp_all add: recoverable_def restarted_def)
  show ?thesis by (rule load [OF ok(1-5)], assumption) (rule that [OF c0(1,2,3,5) _ _ _ ok(6)], assumption+)
qed

section \<open>A restarted search finishes\<close>

text \<open>What has been sent to the client since the restart counts as new.\<close>

lemma loaded_done:
  assumes rest: "at_rest ok wd" and inv: "task_inv knows ok t us sols (deliver s wd)" and c: "coord_part t us sols c" "all_units_done c"
    and st: "\<forall>u \<in> set (c_units c). m_status u \<in> {Unassigned, Done}"
    and cl: "client_waits t us sols (resume_server p b c (wd_server wd))"
    and run: "send_result_to_client junk (c_best_result c) (resume_server p b c (wd_server wd)) = (e, s)"
  shows "calm_inv knows ok t us sols ((deliver s wd)\<lparr>wd_results := wd_results wd\<rparr>) (count_done (c_units c)) (deliver s wd)
    \<and> client_frame s = client_frame (resume_server p b c (wd_server wd))"
proof -
  let ?s1 = "resume_server p b c (wd_server wd)"
  have solved: "\<not> c_solved c" and len: "length (c_units c) = length us" using c(1) by (simp_all add: coord_part_def units_inv_def)
  obtain cl where cl1: "sv_client ?s1 = Some cl" "\<forall>r \<in> insert init_result (\<Union>u \<in> set us. sols u). deliverable (full_message ?s1) r"
    using cl unfolding client_waits_def by blast
  have A: "sv_sent ?s1 = []" "\<forall>w \<in> wd_used wd - wd_gone wd. cur ?s1 w = None"
    using rest by (auto simp: at_rest_def cur_def is_free_def)
  have "\<not> has_unassigned_units c"
    using c(2) solved by (auto simp: all_units_done_def has_unassigned_units_def list_all_iff list_ex_iff)
  then have "serv_ok (wd_used wd - wd_gone wd) (count_done (c_units c)) (length us) ?s1"
    using rested_serv_ok [OF _ solved st A(2)] len by simp
  then have "lease_ok (wd_used wd - wd_gone wd) (cur ?s1) c" by (auto simp: serv_ok_def)
  from calm_last [OF resume_fields(1) this c(2,1) cl1(1) A(1) cl1(2), of junk] run obtain x where
    s: "serv_ok (wd_used wd - wd_gone wd) (count_done (c_units c)) (length us) s" "client_frame s = client_frame ?s1"
    "sv_coordinator s = Some c" "decrypt (full_message ?s1) (res_key (c_best_result c)) = Inr x"
    "sent_to_client (sv_sent s) = [result_message junk (cs_current_cipher cl) x (c_best_result c)]" using len by auto
  have "count_done (c_units c) = length us" using all_done_count [OF solved] c(2) len by simp
  moreover have "full_message (s\<lparr>sv_sent := []\<rparr>) = full_message ?s1" "sv_client s = Some cl"
    using full_message_frame [OF s(2)] s(2) cl1(1) by (simp_all add: full_message_def client_frame_def)
  moreover have "wd_server (deliver s wd) = s\<lparr>sv_sent := []\<rparr>" "wd_used (deliver s wd) = wd_used wd" "wd_gone (deliver s wd) = wd_gone wd"
    "wd_results (deliver s wd) = wd_results wd @ [result_message junk (cs_current_cipher cl) x (c_best_result c)]"
    using s(5) by (simp_all add: deliver_def)
  ultimately show ?thesis using inv s by (auto simp: calm_inv_def results_ok_def)
qed

lemma loaded_calm:
  assumes rest: "at_rest ok wd" and p: "task_ok p"
    and c0: "new_Coordinator (message_of (dp_cipher p) (task_text p)) (task_policy p) = Some (Inr c0)"
    and load: "load_checkpoint parse (sv_checkpoint_path (wd_server wd)) (task_text p) (sv_files (wd_server wd))
      (set_mode (dp_mode p) c0) = Inr (b, c)"
    and c: "coord_part t us sols c" and us: "\<forall>u \<in> set us. unit_sound u"
    and st: "\<forall>u \<in> set (c_units c). m_status u \<in> {Unassigned, Done}"
    and new: "\<forall>w \<in> set (sv_workers (wd_server wd)). sv_sessions (wd_server wd) w = new_WorkerSession"
    and cl: "client_waits t us sols (resume_server p b c (wd_server wd))"
    and run: "handle_task srt parse junk p now (wd_server wd) = Some (e, s)"
  shows "calm_inv knows ok t us sols ((deliver s wd)\<lparr>wd_results := wd_results wd\<rparr>) (count_done (c_units c)) (deliver s wd)
    \<and> client_frame s = client_frame (resume_server p b c (wd_server wd))"
proof -
  let ?s1 = "resume_server p b c (wd_server wd)"
  have inv: "task_inv knows ok t us sols (deliver s wd)" using loaded_inv [OF rest p c0 load c us new run] by blast
  show ?thesis
  proof (cases "all_units_done c")
    case True
    then have "send_result_to_client junk (c_best_result c) ?s1 = (e, s)"
      using run by (simp add: handle_task_loaded [OF p c0 load] Let_def)
    then show ?thesis by (rule loaded_done [OF rest inv c True st cl])
  next
    case False
    obtain s2 where s2: "assign_all (sv_workers (wd_server wd)) now ?s1 = Inr s2"
      using assign_all_start [OF rest c us, of ?s1 now knows] rest by (auto simp: at_rest_def)
    then have s: "assign_all (sv_workers (wd_server wd)) now ?s1 = Inr s"
      using run False by (simp add: handle_task_loaded [OF p c0 load] Let_def)
    have "length (c_units c) = length us" "sv_sent ?s1 = []" using c rest by (simp_all add: coord_part_def units_inv_def at_rest_def)
    note start = calm_inv_start [OF rest inv s _ _ this(2,1) False st, simplified]
    have "(deliver s wd)\<lparr>wd_results := wd_results wd\<rparr> = deliver s wd" using start(3) by (cases "deliver s wd") simp
    then show ?thesis using start(1,2) by simp
  qed
qed

lemma search_resumes:
  assumes p: "recoverable trigrams p"
    and life: "life (json_dump 2) (json_parse False) (node_work b64 ser junk) (node_ok dict trigrams) p wd"
    and left: "left_on_disk (json_dump 2) (wd_server wd) fs"
    and new: "restarted (node_ok dict trigrams) (sv_checkpoint_path (wd_server wd)) fs wd'"
  shows "\<exists>s. handle_task srt (json_parse False) junk0 p now (wd_server wd') = Some (None, s)"
proof (rule task_revived [OF p life left new])
  fix c0 b c
  assume c0: "new_Coordinator (message_of (dp_cipher p) (task_text p)) (task_policy p) = Some (Inr c0)"
    "\<forall>u \<in> set (c_units c0). unit_sound u \<and> unit_task u = sp_task (task_policy p)"
    "coord_part (task_text p) (c_units c0) (unit_solutions dict trigrams (task_text p)) c"
    "load_checkpoint (json_parse False) (sv_checkpoint_path (wd_server wd')) (task_text p) (sv_files (wd_server wd'))
       (set_mode (dp_mode p) c0) = Inr (b, c)" and rest: "at_rest (node_ok dict trigrams) wd'"
  have ok: "task_ok p" using p by (simp add: recoverable_def)
  have sound: "\<forall>u \<in> set (c_units c0). unit_sound u" using c0(2) by simp
  obtain s where "assign_all (sv_workers (wd_server wd')) now (resume_server p b c (wd_server wd')) = Inr s"
    using assign_all_start [OF rest c0(3) sound, of "resume_server p b c (wd_server wd')" now node_knows] rest by (auto simp: at_rest_def)
  moreover have "coord_storable c" using task_storable [OF ok _ _ _ _ c0(2,3)] p by (simp add: recoverable_def)
  ultimately show ?thesis using finished_result_sent [OF ok c0(2,3), of junk0 b "wd_server wd'"]
    by (simp add: handle_task_loaded [OF ok c0(1,4)] coord_storable_def Let_def)
qed

section \<open>Properties\<close>

text \<open>C2. A search survives the end of its server, over the checkpoint file that is really written. The server may end at
  any moment, also while it writes the file, and writing it may fail, also so that a truncated file takes its place; a new process with the same disk that gets the request again always goes on,
  and however often this happens: once all units are done, the best result is a best one of the whole key space.\<close>

theorem search_survives_restarts:
  assumes p: "recoverable trigrams p"
    and life: "life (json_dump 2) (json_parse False) (node_work b64 ser junk) (node_ok dict trigrams) p wd"
  shows "(\<forall>c. sv_coordinator (wd_server wd) = Some c \<longrightarrow> all_units_done c
      \<longrightarrow> is_best dbl_less is_nan res_score init_result (task_solutions dict trigrams p) (c_best_result c))
    \<and> (\<forall>fs wd'. left_on_disk (json_dump 2) (wd_server wd) fs
      \<longrightarrow> restarted (node_ok dict trigrams) (sv_checkpoint_path (wd_server wd)) fs wd'
      \<longrightarrow> (\<exists>s. handle_task srt (json_parse False) junk0 p now (wd_server wd') = Some (None, s)))"
proof (rule task_life [OF p life])
  fix c0
  assume c0: "\<forall>u \<in> set (c_units c0). unit_sound u \<and> unit_task u = sp_task (task_policy p)"
    "concat (map unit_keys (c_units c0)) = [0..26 ^ nat (task_key_length p) - 1]"
    "life_inv node_knows (node_ok dict trigrams) (json_dump 2) (task_text p) (c_units c0) (unit_solutions dict trigrams (task_text p)) wd"
  have "is_best dbl_less is_nan res_score init_result (task_solutions dict trigrams p) (c_best_result c)"
    if "sv_coordinator (wd_server wd) = Some c" "all_units_done c" for c
  proof -
    have "\<forall>u \<in> set (c_units c0). unit_task u = sp_task (task_policy p)" using c0(1) by simp
    then show ?thesis using c0(3) node.task_inv_best [OF _ that] task_solutions_units [OF c0(2)] unfolding life_inv_def by metis
  qed
  then show ?thesis using search_resumes [OF p life] by blast
qed

text \<open>The example: the server of a Caesar text ends before it has saved anything.\<close>

lemma demo_recoverable: "recoverable None demo_payload"
proof -
  have "utf8_ok ''Khoor''" unfolding utf8_ok_def by code_simp
  then show ?thesis by (simp add: recoverable_def trigrams_wf_def task_ok_def task_text_def demo_payload_def dbl_ops)
qed

lemma demo_life:
  obtains s where
    "life (json_dump 2) (json_parse False) (node_work id (\<lambda>j. []) 0) (node_ok None None) demo_payload (deliver s demo_world)"
    "left_on_disk (json_dump 2) (wd_server (deliver s demo_world)) Map.empty"
    "sv_checkpoint_path (wd_server (deliver s demo_world)) = ''cp''"
proof -
  have idle: "idle_world (node_ok None None) demo_world"
    by (simp add: idle_world_def at_rest_def demo_world_def new_Server_def)
  have p: "task_ok demo_payload" using demo_recoverable by (simp add: recoverable_def)
  obtain c s where s: "handle_task stable_desc (json_parse False) 0 demo_payload 0 (wd_server demo_world) = Some (None, s)"
    "assign_all (sv_workers (wd_server demo_world)) 0 (task_server demo_payload c (wd_server demo_world)) = Inr s"
    by (rule task_start [OF idle p, of stable_desc "json_parse False" 0 0 node_knows])
  have "sv_checkpoint_path (wd_server (deliver s demo_world)) = ''cp''" "sv_files (wd_server (deliver s demo_world)) = Map.empty"
    using s(2) by (auto simp: demo_world_def new_Server_def task_server_def deliver_def)
  then show ?thesis using that begun [OF idle s(1)] left_idle by metis
qed

lemma demo_restarted:
  "restarted (node_ok None None) ''cp'' Map.empty demo_world" "restarted (node_ok None None) ''cp'' Map.empty busy_demo_world"
  by (simp_all add: restarted_def at_rest_def demo_world_def busy_demo_world_def new_Server_def disk_def is_free_def
      new_WorkerSession_def node_ok_def new_Worker_def)

text \<open>It is started again, without workers at first, and asked again.\<close>

theorem search_survives_restarts_witness:
  "\<exists>s. handle_task stable_desc (json_parse False) 0 demo_payload 5 (wd_server demo_world) = Some (None, s)"
proof (rule demo_life)
  fix s
  assume "life (json_dump 2) (json_parse False) (node_work id (\<lambda>j. []) 0) (node_ok None None) demo_payload (deliver s demo_world)"
    "left_on_disk (json_dump 2) (wd_server (deliver s demo_world)) Map.empty"
    "sv_checkpoint_path (wd_server (deliver s demo_world)) = ''cp''"
  then show ?thesis using search_survives_restarts [OF demo_recoverable, THEN conjunct2] demo_restarted(1) by metis
qed



end
