(* ===== verification/Election.thy ===== *)
theory Election
  imports Protocol
begin

text \<open>
  Several coordinators: \<^verbatim>\<open>src/PeerSession.cpp\<close> and the peer side of \<^verbatim>\<open>src/CoordServ.cpp\<close> (connections to
  other coordinators, roles, heartbeats, the election of a primary by least id, opening and closing the ports
  for workers and clients). Every handler is a function on the state of one coordinator; what it sends is
  appended to \<open>pr_sent\<close>. A run is a list of events: messages, connections, losses and timers.

  The theorems say that only a primary serves, that two primaries that hear of each other agree on the one
  with the smaller id, who wins an election, and when a backup stops looking for a primary.
\<close>

section \<open>State\<close>

datatype Role = Primary | Backup

record PeerSession =
  ps_peer_id :: "int option"
  ps_peer_role :: int
  ps_is_initiator :: bool
  ps_closing_intentionally :: bool
  ps_open :: bool

definition new_PeerSession :: "bool \<Rightarrow> PeerSession" where
  "new_PeerSession is_initiator = \<lparr>ps_peer_id = None, ps_peer_role = 1, ps_is_initiator = is_initiator,
     ps_closing_intentionally = False, ps_open = True\<rparr>"

definition close_intentionally :: "PeerSession \<Rightarrow> PeerSession" where
  "close_intentionally p = p\<lparr>ps_closing_intentionally := True, ps_open := False\<rparr>"

text \<open>A peer session is known by a number; \<^verbatim>\<open>m_peers\<close> lists the numbers.\<close>

type_synonym peer_ref = nat

text \<open>The sockets for workers and clients: closed, open but not bound to the port, bound to it, or listening on it.\<close>

datatype Acceptor = Closed | Unbound | Bound | Listening

record Peers =
  pr_id :: int
  pr_role :: Role
  pr_serving :: bool
  pr_worker_acceptor :: Acceptor
  pr_client_acceptor :: Acceptor
  pr_peers :: "peer_ref list"
  pr_sessions :: "peer_ref \<Rightarrow> PeerSession"
  pr_addresses :: nat
  pr_primary_alive :: bool
  pr_grace_expired :: bool
  pr_last_primary_ping :: int
  pr_election_in_progress :: bool
  pr_received_alive :: bool
  pr_sent :: "(peer_ref \<times> Message) list"

definition HEARTBEAT_TIMEOUT_SEC :: int where "HEARTBEAT_TIMEOUT_SEC = 10"

text \<open>The server after its constructor at time \<open>now\<close>.\<close>

definition new_Peers :: "int \<Rightarrow> nat \<Rightarrow> int \<Rightarrow> Peers" where
  "new_Peers i addresses now = \<lparr>pr_id = i, pr_role = Backup, pr_serving = False,
     pr_worker_acceptor = Closed, pr_client_acceptor = Closed, pr_peers = [],
     pr_sessions = (\<lambda>r. new_PeerSession False), pr_addresses = addresses, pr_primary_alive = False,
     pr_grace_expired = False, pr_last_primary_ping = now, pr_election_in_progress = False,
     pr_received_alive = False, pr_sent = []\<rparr>"

section \<open>Sending\<close>

definition upd_peer :: "peer_ref \<Rightarrow> (PeerSession \<Rightarrow> PeerSession) \<Rightarrow> Peers \<Rightarrow> Peers" where
  "upd_peer r f s = s\<lparr>pr_sessions := (pr_sessions s)(r := f (pr_sessions s r))\<rparr>"

text \<open>\<^verbatim>\<open>send_raw\<close> and \<^verbatim>\<open>send_hello\<close> do nothing on a session that is being closed.\<close>

definition send_raw :: "peer_ref \<Rightarrow> Message \<Rightarrow> Peers \<Rightarrow> Peers" where
  "send_raw r m s = (if ps_closing_intentionally (pr_sessions s r) then s else s\<lparr>pr_sent := pr_sent s @ [(r, m)]\<rparr>)"

definition send_hello :: "peer_ref \<Rightarrow> int \<Rightarrow> int \<Rightarrow> MessageType \<Rightarrow> Peers \<Rightarrow> Peers" where
  "send_hello r my_id my_role t s =
     (let p = PHello \<lparr>hp_peer_id = my_id, hp_role = my_role\<rparr>
      in send_raw r (if t = REQUEST then create_peer_hello_request p else create_peer_hello_response p) s)"

definition role_code :: "Role \<Rightarrow> int" where
  "role_code r = (if r = Primary then 0 else 1)"

text \<open>The peers that a broadcast reaches.\<close>

definition open_peers :: "Peers \<Rightarrow> peer_ref list" where
  "open_peers s = filter (\<lambda>r. ps_open (pr_sessions s r)) (pr_peers s)"

definition send_each :: "Message \<Rightarrow> peer_ref list \<Rightarrow> Peers \<Rightarrow> Peers" where
  "send_each m rs s = foldl (\<lambda>s r. send_raw r m s) s rs"

definition send_ping_to_backups :: "Peers \<Rightarrow> Peers" where
  "send_ping_to_backups s = send_each (create_peer_ping (PPing 200)) (open_peers s) s"

definition announce_coordinator :: "Peers \<Rightarrow> Peers" where
  "announce_coordinator s = send_each (create_peer_coordinator (PPeerId (pr_id s))) (open_peers s) s"

definition has_lower_id :: "Peers \<Rightarrow> peer_ref \<Rightarrow> bool" where
  "has_lower_id s r = (case ps_peer_id (pr_sessions s r) of None \<Rightarrow> False | Some i \<Rightarrow> i < pr_id s)"

definition send_election_to_lower_ids :: "Peers \<Rightarrow> Peers" where
  "send_election_to_lower_ids s =
     send_each (create_peer_election (PPeerId (pr_id s))) (filter (has_lower_id s) (open_peers s)) s"

definition peer_id_or :: "PeerSession \<Rightarrow> int" where
  "peer_id_or p = (case ps_peer_id p of None \<Rightarrow> - 1 | Some i \<Rightarrow> i)"

text \<open>Only the first open session of the target gets the answer.\<close>

definition send_alive_to :: "int \<Rightarrow> Peers \<Rightarrow> Peers" where
  "send_alive_to target s =
     (case filter (\<lambda>r. peer_id_or (pr_sessions s r) = target) (open_peers s) of
        [] \<Rightarrow> s
      | r # rs \<Rightarrow> send_raw r (create_peer_alive (PPeerId (pr_id s))) s)"

section \<open>Serving\<close>

text \<open>
  \<open>env\<close> is how the operating system answers for the two ports, by the state of the socket when \<^verbatim>\<open>bind\<close> is called.
  \<open>open_acceptor\<close> is the sequence open, set option, bind, listen: opening a socket that is open already only
  sets the error code, which the next call overwrites, and without a socket \<^verbatim>\<open>bind\<close> fails too. The code looks at the
  error code after \<^verbatim>\<open>bind\<close> only: a failure of \<^verbatim>\<open>listen\<close> goes unnoticed.
\<close>

datatype port_answer = Open_fails | Bind_fails | Listen_fails | Port_ok

type_synonym bind_env = "(Acceptor \<Rightarrow> port_answer) \<times> (Acceptor \<Rightarrow> port_answer)"

definition open_acceptor :: "(Acceptor \<Rightarrow> port_answer) \<Rightarrow> Acceptor \<Rightarrow> Acceptor \<times> bool" where
  "open_acceptor env a =
     (let a1 = (if a = Closed then Unbound else a)
      in case env a1 of Open_fails \<Rightarrow> (a, False) | Bind_fails \<Rightarrow> (a1, False) | Listen_fails \<Rightarrow> (Bound, True) | Port_ok \<Rightarrow> (Listening, True))"

definition open_serving_acceptors :: "bind_env \<Rightarrow> Peers \<Rightarrow> Peers" where
  "open_serving_acceptors env s =
     (if pr_serving s then s
      else let (w, w_ok) = open_acceptor (fst env) (pr_worker_acceptor s); s1 = s\<lparr>pr_worker_acceptor := w\<rparr>
      in if \<not> w_ok then s1
      else let (c, c_ok) = open_acceptor (snd env) (pr_client_acceptor s1); s2 = s1\<lparr>pr_client_acceptor := c\<rparr>
      in if \<not> c_ok then s2
      else s2\<lparr>pr_serving := True\<rparr>)"

definition close_serving_acceptors :: "Peers \<Rightarrow> Peers" where
  "close_serving_acceptors s =
     (if \<not> pr_serving s then s
      else s\<lparr>pr_worker_acceptor := Closed, pr_client_acceptor := Closed, pr_serving := False\<rparr>)"

definition update_serving_state :: "bind_env \<Rightarrow> Peers \<Rightarrow> Peers" where
  "update_serving_state env s =
     (if pr_role s = Primary then open_serving_acceptors env s else close_serving_acceptors s)"

section \<open>Roles and elections\<close>

definition known_ids :: "Peers \<Rightarrow> int list" where
  "known_ids s = List.map_filter (\<lambda>r. ps_peer_id (pr_sessions s r)) (pr_peers s)"

definition exists_primary_peer :: "Peers \<Rightarrow> bool" where
  "exists_primary_peer s \<longleftrightarrow>
     list_ex (\<lambda>r. ps_peer_id (pr_sessions s r) \<noteq> None \<and> ps_peer_role (pr_sessions s r) = 0) (pr_peers s)"

definition recompute_role :: "bind_env \<Rightarrow> Peers \<Rightarrow> Peers" where
  "recompute_role env s =
     (if pr_role s = Primary then s
      else if \<not> pr_grace_expired s \<and> length (known_ids s) < pr_addresses s then s
      else if \<not> exists_primary_peer s \<and> pr_id s = foldl min (pr_id s) (known_ids s)
      then announce_coordinator (update_serving_state env (s\<lparr>pr_role := Primary, pr_primary_alive := True\<rparr>))
      else s)"

definition add_peer :: "peer_ref \<Rightarrow> Peers \<Rightarrow> Peers" where
  "add_peer r s = s\<lparr>pr_peers := pr_peers s @ [r]\<rparr>"

definition remove_peer :: "peer_ref \<Rightarrow> Peers \<Rightarrow> Peers" where
  "remove_peer r s = s\<lparr>pr_peers := remove1 r (pr_peers s)\<rparr>"

text \<open>
  Two connections to the same coordinator: the one started by the smaller id is kept. \<open>dedup\<close> is the loop of
  \<^verbatim>\<open>on_peer_hello\<close>, which acts on the first other session with the same id.
\<close>

definition initiator_of :: "int \<Rightarrow> int \<Rightarrow> PeerSession \<Rightarrow> int" where
  "initiator_of my_id pid p = (if ps_is_initiator p then my_id else pid)"

definition dedup :: "peer_ref \<Rightarrow> int \<Rightarrow> Peers \<Rightarrow> Peers" where
  "dedup r pid s =
     (case filter (\<lambda>q. q \<noteq> r \<and> ps_peer_id (pr_sessions s q) = Some pid) (pr_peers s) of
        [] \<Rightarrow> s
      | q # qs \<Rightarrow>
          if initiator_of (pr_id s) pid (pr_sessions s r) < initiator_of (pr_id s) pid (pr_sessions s q)
          then remove_peer q (upd_peer q close_intentionally s)
          else remove_peer r (upd_peer r close_intentionally s))"

definition on_peer_hello :: "bind_env \<Rightarrow> int \<Rightarrow> peer_ref \<Rightarrow> Peers \<Rightarrow> Peers" where
  "on_peer_hello env now r s0 =
     (case ps_peer_id (pr_sessions s0 r) of None \<Rightarrow> s0
      | Some pid \<Rightarrow>
          let prole = ps_peer_role (pr_sessions s0 r);
              s = dedup r pid s0
          in if \<not> ps_open (pr_sessions s r) then s
             else if prole = 0 \<and> pr_role s = Primary
             then if pid < pr_id s
                  then update_serving_state env
                         (s\<lparr>pr_role := Backup, pr_primary_alive := True, pr_last_primary_ping := now\<rparr>)
                  else announce_coordinator s
             else recompute_role env s)"

definition on_primary_ping :: "int \<Rightarrow> Peers \<Rightarrow> Peers" where
  "on_primary_ping now s = s\<lparr>pr_last_primary_ping := now, pr_primary_alive := True\<rparr>"

definition start_election :: "Peers \<Rightarrow> Peers" where
  "start_election s =
     (if pr_election_in_progress s then s
      else send_election_to_lower_ids (s\<lparr>pr_election_in_progress := True, pr_received_alive := False\<rparr>))"

text \<open>The handler of the election timer.\<close>

definition election_timeout :: "bind_env \<Rightarrow> Peers \<Rightarrow> Peers" where
  "election_timeout env s =
     (if \<not> pr_election_in_progress s then s
      else if pr_received_alive s then s\<lparr>pr_election_in_progress := False\<rparr>
      else announce_coordinator (update_serving_state env
             (s\<lparr>pr_election_in_progress := False, pr_role := Primary, pr_primary_alive := True\<rparr>)))"

definition on_primary_dead :: "Peers \<Rightarrow> Peers" where
  "on_primary_dead s = start_election s"

text \<open>One round of the primary watcher; the silence is counted in whole seconds.\<close>

definition watch_primary :: "int \<Rightarrow> Peers \<Rightarrow> Peers" where
  "watch_primary now s =
     (if pr_role s = Backup \<and> pr_primary_alive s
         \<and> (now - pr_last_primary_ping s) sdiv 1000000000 > HEARTBEAT_TIMEOUT_SEC
      then on_primary_dead (s\<lparr>pr_primary_alive := False\<rparr>) else s)"

definition on_peer_disconnected :: "peer_ref \<Rightarrow> Peers \<Rightarrow> Peers" where
  "on_peer_disconnected r s0 =
     (let prole = ps_peer_role (pr_sessions s0 r);
          s = remove_peer r s0
      in if prole = 0 \<and> pr_role s = Backup \<and> pr_primary_alive s
         then on_primary_dead (s\<lparr>pr_primary_alive := False\<rparr>) else s)"

definition on_peer_election :: "int \<Rightarrow> Peers \<Rightarrow> Peers" where
  "on_peer_election from_id s =
     (if from_id > pr_id s
      then let s1 = send_alive_to from_id s in if pr_election_in_progress s1 then s1 else start_election s1
      else s)"

definition on_peer_alive :: "int \<Rightarrow> Peers \<Rightarrow> Peers" where
  "on_peer_alive from_id s = (if pr_election_in_progress s then s\<lparr>pr_received_alive := True\<rparr> else s)"

definition new_primary_roles :: "int \<Rightarrow> Peers \<Rightarrow> peer_ref \<Rightarrow> PeerSession" where
  "new_primary_roles from_id s r =
     (let p = pr_sessions s r
      in if r \<notin> set (pr_peers s) then p
         else if peer_id_or p = from_id then p\<lparr>ps_peer_role := 0\<rparr>
         else if ps_peer_role p = 0 then p\<lparr>ps_peer_role := 1\<rparr> else p)"

definition on_peer_coordinator :: "bind_env \<Rightarrow> int \<Rightarrow> int \<Rightarrow> Peers \<Rightarrow> Peers" where
  "on_peer_coordinator env now from_id s =
     (if pr_role s = Primary \<and> from_id > pr_id s then announce_coordinator s
      else update_serving_state env
        (s\<lparr>pr_sessions := new_primary_roles from_id s, pr_role := Backup, pr_election_in_progress := False,
           pr_received_alive := False, pr_primary_alive := True, pr_last_primary_ping := now\<rparr>))"

section \<open>Messages\<close>

definition handle_hello :: "bind_env \<Rightarrow> int \<Rightarrow> peer_ref \<Rightarrow> Message \<Rightarrow> Peers \<Rightarrow> Peers" where
  "handle_hello env now r m s =
     (case msg_payload m of
        Some (PHello h) \<Rightarrow>
          let s1 = upd_peer r (\<lambda>p. p\<lparr>ps_peer_id := Some (hp_peer_id h), ps_peer_role := hp_role h\<rparr>) s;
              s2 = (if msg_type m = REQUEST then send_hello r (pr_id s1) (role_code (pr_role s1)) RESPONSE s1 else s1)
          in on_peer_hello env now r s2
      | _ \<Rightarrow> s)"

definition peer_message :: "bind_env \<Rightarrow> int \<Rightarrow> peer_ref \<Rightarrow> Message \<Rightarrow> Peers \<Rightarrow> Peers" where
  "peer_message env now r m s =
     (case msg_action m of
        PEER_HELLO \<Rightarrow> handle_hello env now r m s
      | PEER_PING \<Rightarrow> on_primary_ping now s
      | PEER_ELECTION \<Rightarrow> (case msg_payload m of Some (PPeerId i) \<Rightarrow> on_peer_election i s | _ \<Rightarrow> s)
      | PEER_ALIVE \<Rightarrow> (case msg_payload m of Some (PPeerId i) \<Rightarrow> on_peer_alive i s | _ \<Rightarrow> s)
      | PEER_COORDINATOR \<Rightarrow> (case msg_payload m of Some (PPeerId i) \<Rightarrow> on_peer_coordinator env now i s | _ \<Rightarrow> s)
      | _ \<Rightarrow> s)"

text \<open>A read error of a session: a session that was closed on purpose just ends.\<close>

definition read_error :: "peer_ref \<Rightarrow> Peers \<Rightarrow> Peers" where
  "read_error r s = (if ps_closing_intentionally (pr_sessions s r) then s else on_peer_disconnected r s)"

text \<open>A new connection: the side that started it says hello.\<close>

definition connected :: "peer_ref \<Rightarrow> bool \<Rightarrow> Peers \<Rightarrow> Peers" where
  "connected r is_initiator s =
     (let s1 = add_peer r (s\<lparr>pr_sessions := (pr_sessions s)(r := new_PeerSession is_initiator)\<rparr>)
      in if is_initiator then send_hello r (pr_id s1) (role_code (pr_role s1)) REQUEST s1 else s1)"

definition grace_over :: "bind_env \<Rightarrow> Peers \<Rightarrow> Peers" where
  "grace_over env s = recompute_role env (s\<lparr>pr_grace_expired := True\<rparr>)"

text \<open>One round of the heartbeat sender.\<close>

definition heartbeat :: "Peers \<Rightarrow> Peers" where
  "heartbeat s = (if pr_role s = Primary then send_ping_to_backups s else s)"

text \<open>\<^verbatim>\<open>start\<close>, as far as roles go: without peers the role is decided at once.\<close>

definition start_server :: "bind_env \<Rightarrow> Peers \<Rightarrow> Peers" where
  "start_server env s = (if pr_addresses s = 0 then grace_over env s else s)"

datatype event =
    Received peer_ref Message
  | Connected peer_ref bool
  | Lost peer_ref
  | Watch
  | Heartbeat
  | Election_timer
  | Grace_timer

fun apply_event :: "bind_env \<Rightarrow> int \<Rightarrow> event \<Rightarrow> Peers \<Rightarrow> Peers" where
  "apply_event env now (Received r m) s = peer_message env now r m s"
| "apply_event env now (Connected r b) s = connected r b s"
| "apply_event env now (Lost r) s = read_error r s"
| "apply_event env now Watch s = watch_primary now s"
| "apply_event env now Heartbeat s = heartbeat s"
| "apply_event env now Election_timer s = election_timeout env s"
| "apply_event env now Grace_timer s = grace_over env s"

text \<open>A run: events with the time and the answers of \<^verbatim>\<open>bind\<close>.\<close>

definition run_events :: "(bind_env \<times> int \<times> event) list \<Rightarrow> Peers \<Rightarrow> Peers" where
  "run_events es s = foldl (\<lambda>s (b, now, e). apply_event b now e s) s es"

section \<open>What sending leaves alone\<close>

named_theorems peer_simps \<open>fields that the sending operations do not change\<close>

lemma send_raw_fields [peer_simps]:
  "pr_id (send_raw r m s) = pr_id s" "pr_role (send_raw r m s) = pr_role s" "pr_serving (send_raw r m s) = pr_serving s"
  "pr_primary_alive (send_raw r m s) = pr_primary_alive s" "pr_sessions (send_raw r m s) = pr_sessions s"
  "pr_peers (send_raw r m s) = pr_peers s" "pr_election_in_progress (send_raw r m s) = pr_election_in_progress s"
  "pr_received_alive (send_raw r m s) = pr_received_alive s"
  "pr_worker_acceptor (send_raw r m s) = pr_worker_acceptor s" "pr_client_acceptor (send_raw r m s) = pr_client_acceptor s"
  by (simp_all add: send_raw_def)

lemma send_each_fields [peer_simps]:
  "pr_id (send_each m rs s) = pr_id s" "pr_role (send_each m rs s) = pr_role s" "pr_serving (send_each m rs s) = pr_serving s"
  "pr_primary_alive (send_each m rs s) = pr_primary_alive s" "pr_sessions (send_each m rs s) = pr_sessions s"
  "pr_peers (send_each m rs s) = pr_peers s" "pr_election_in_progress (send_each m rs s) = pr_election_in_progress s"
  "pr_received_alive (send_each m rs s) = pr_received_alive s"
  "pr_worker_acceptor (send_each m rs s) = pr_worker_acceptor s" "pr_client_acceptor (send_each m rs s) = pr_client_acceptor s"
  unfolding send_each_def by (induction rs arbitrary: s) (simp_all add: peer_simps)

lemma send_each_sent:
  "pr_sent (send_each m rs s) = pr_sent s @ map (\<lambda>r. (r, m)) (filter (\<lambda>r. \<not> ps_closing_intentionally (pr_sessions s r)) rs)"
  unfolding send_each_def
proof (induction rs arbitrary: s)
  case (Cons r rs)
  then show ?case by (simp add: peer_simps) (simp add: send_raw_def)
qed simp

lemmas peer_ops = send_ping_to_backups_def announce_coordinator_def send_election_to_lower_ids_def send_hello_def
  upd_peer_def remove_peer_def add_peer_def

section \<open>Only a primary serves\<close>

definition role_inv :: "Peers \<Rightarrow> bool" where
  "role_inv s \<longleftrightarrow> (pr_serving s \<longrightarrow> pr_role s = Primary) \<and> (pr_role s = Primary \<longrightarrow> pr_primary_alive s)"

lemma serving_fields [peer_simps]:
  "pr_role (update_serving_state b s) = pr_role s" "pr_primary_alive (update_serving_state b s) = pr_primary_alive s"
  "pr_id (update_serving_state b s) = pr_id s" "pr_peers (update_serving_state b s) = pr_peers s"
  "pr_sessions (update_serving_state b s) = pr_sessions s"
  "pr_sent (update_serving_state b s) = pr_sent s"
  "pr_election_in_progress (update_serving_state b s) = pr_election_in_progress s"
  "pr_received_alive (update_serving_state b s) = pr_received_alive s"
  by (simp_all add: update_serving_state_def open_serving_acceptors_def close_serving_acceptors_def Let_def split: prod.split)

lemma serving_update [dest]: "pr_serving (update_serving_state b s) \<Longrightarrow> pr_role s = Primary"
  by (cases "pr_role s") (simp_all add: update_serving_state_def close_serving_acceptors_def split: if_splits)

lemma role_inv_update: "pr_role s = Primary \<longrightarrow> pr_primary_alive s \<Longrightarrow> role_inv (update_serving_state b s)"
  by (auto simp: role_inv_def peer_simps)

lemma role_inv_send [simp]:
  "role_inv (send_each m rs s) \<longleftrightarrow> role_inv s" "role_inv (announce_coordinator s) \<longleftrightarrow> role_inv s"
  "role_inv (send_ping_to_backups s) \<longleftrightarrow> role_inv s" "role_inv (send_hello r i j t s) \<longleftrightarrow> role_inv s"
  "role_inv (upd_peer r f s) \<longleftrightarrow> role_inv s" "role_inv (remove_peer r s) \<longleftrightarrow> role_inv s"
  "role_inv (send_election_to_lower_ids s) \<longleftrightarrow> role_inv s" "role_inv (send_alive_to i s) \<longleftrightarrow> role_inv s"
  by (simp_all add: role_inv_def peer_ops peer_simps Let_def send_alive_to_def split: list.split)

lemma role_inv_recompute: "role_inv s \<Longrightarrow> role_inv (recompute_role b s)"
  by (auto simp: recompute_role_def intro!: role_inv_update)

lemma role_inv_dedup [simp]: "role_inv (dedup r pid s) \<longleftrightarrow> role_inv s"
  by (simp add: dedup_def split: list.split)

lemma role_inv_hello: "role_inv s \<Longrightarrow> role_inv (on_peer_hello b now r s)"
  using role_inv_dedup [of r "the (ps_peer_id (pr_sessions s r))" s]
  by (auto simp: on_peer_hello_def Let_def role_inv_recompute intro!: role_inv_update split: option.split)

lemma role_inv_election: "role_inv s \<Longrightarrow> role_inv (start_election s)"
  by (simp add: start_election_def role_inv_def peer_simps send_election_to_lower_ids_def)

lemma role_inv_dead:
  "\<lbrakk>role_inv s; pr_role s = Backup\<rbrakk> \<Longrightarrow> role_inv (on_primary_dead (s\<lparr>pr_primary_alive := False\<rparr>))"
  unfolding on_primary_dead_def by (rule role_inv_election) (auto simp: role_inv_def)

lemma role_inv_timeout: "role_inv s \<Longrightarrow> role_inv (election_timeout b s)"
  by (auto simp: election_timeout_def intro!: role_inv_update) (simp add: role_inv_def)

lemma role_inv_message: "role_inv s \<Longrightarrow> role_inv (peer_message b now r m s)"
proof (cases "msg_action m")
  case PEER_HELLO
  assume "role_inv s"
  then show ?thesis using PEER_HELLO
    by (auto simp: peer_message_def handle_hello_def Let_def role_inv_hello split: option.split Payload.split)
next
  case PEER_ELECTION
  assume "role_inv s"
  then show ?thesis using PEER_ELECTION
    by (auto simp: peer_message_def on_peer_election_def Let_def role_inv_election split: option.split Payload.split)
next
  case PEER_COORDINATOR
  assume "role_inv s"
  then show ?thesis using PEER_COORDINATOR
    by (auto simp: peer_message_def on_peer_coordinator_def intro!: role_inv_update split: option.split Payload.split)
qed (auto simp: peer_message_def on_primary_ping_def on_peer_alive_def role_inv_def split: option.split Payload.split)

lemma role_inv_event: "role_inv s \<Longrightarrow> role_inv (apply_event b now e s)"
proof (cases e)
  case (Received r m)
  assume "role_inv s"
  then show ?thesis using Received role_inv_message by simp
next
  case (Lost r)
  assume "role_inv s"
  then show ?thesis using Lost role_inv_dead [of "remove_peer r s"]
    by (auto simp: read_error_def on_peer_disconnected_def Let_def)
next
  case Watch
  assume "role_inv s"
  then show ?thesis using Watch role_inv_dead [of s] by (simp add: watch_primary_def)
next
  case Grace_timer
  assume "role_inv s"
  then show ?thesis using Grace_timer
    by (simp add: grace_over_def) (rule role_inv_recompute, simp add: role_inv_def)
next
  case (Connected r i)
  assume "role_inv s"
  then show ?thesis using Connected by (simp add: connected_def Let_def) (simp add: role_inv_def add_peer_def)
qed (simp_all add: heartbeat_def role_inv_timeout)

text \<open>The sockets while the ports are served: what \<^verbatim>\<open>bind\<close> and \<^verbatim>\<open>listen\<close> have made of them.\<close>

definition ports :: "(Acceptor \<Rightarrow> bool) \<Rightarrow> Peers \<Rightarrow> bool" where
  "ports P s \<longleftrightarrow> (pr_serving s \<longrightarrow> P (pr_worker_acceptor s) \<and> P (pr_client_acceptor s))"

definition has_port :: "Acceptor \<Rightarrow> bool" where
  "has_port a \<longleftrightarrow> a = Bound \<or> a = Listening"

definition listens :: "bind_env \<Rightarrow> bool" where
  "listens env \<longleftrightarrow> fst env Unbound \<noteq> Listen_fails \<and> fst env Bound \<noteq> Listen_fails \<and> fst env Listening \<noteq> Listen_fails
     \<and> snd env Unbound \<noteq> Listen_fails \<and> snd env Bound \<noteq> Listen_fails \<and> snd env Listening \<noteq> Listen_fails"

text \<open>What a successful answer gives fits \<open>P\<close>.\<close>

definition fits :: "(Acceptor \<Rightarrow> bool) \<Rightarrow> bind_env \<Rightarrow> bool" where
  "fits P env \<longleftrightarrow> P Listening \<and> (P Bound \<or> listens env)"

lemma open_acceptor_fits:
  "\<lbrakk>fits P env; open_acceptor (fst env) a = (a', True)\<rbrakk> \<Longrightarrow> P a'" "\<lbrakk>fits P env; open_acceptor (snd env) a = (a', True)\<rbrakk> \<Longrightarrow> P a'"
  by (cases a; auto simp: open_acceptor_def fits_def listens_def split: port_answer.splits)+

lemma ports_update: "\<lbrakk>fits P env; ports P s\<rbrakk> \<Longrightarrow> ports P (update_serving_state env s)"
  by (auto simp: ports_def update_serving_state_def open_serving_acceptors_def close_serving_acceptors_def Let_def
      dest: open_acceptor_fits split: prod.splits if_splits)

lemma ports_send [simp]:
  "ports P (send_each m rs s) \<longleftrightarrow> ports P s" "ports P (announce_coordinator s) \<longleftrightarrow> ports P s"
  "ports P (send_ping_to_backups s) \<longleftrightarrow> ports P s" "ports P (send_hello r i j t s) \<longleftrightarrow> ports P s"
  "ports P (upd_peer r f s) \<longleftrightarrow> ports P s" "ports P (remove_peer r s) \<longleftrightarrow> ports P s" "ports P (add_peer r s) \<longleftrightarrow> ports P s"
  "ports P (send_election_to_lower_ids s) \<longleftrightarrow> ports P s" "ports P (send_alive_to i s) \<longleftrightarrow> ports P s"
  by (simp_all add: ports_def peer_ops peer_simps Let_def send_alive_to_def split: list.split)

lemma ports_upd [simp]:
  "ports P (s\<lparr>pr_role := x\<rparr>) \<longleftrightarrow> ports P s" "ports P (s\<lparr>pr_primary_alive := b\<rparr>) \<longleftrightarrow> ports P s"
  "ports P (s\<lparr>pr_last_primary_ping := t\<rparr>) \<longleftrightarrow> ports P s" "ports P (s\<lparr>pr_grace_expired := b\<rparr>) \<longleftrightarrow> ports P s"
  "ports P (s\<lparr>pr_sessions := f\<rparr>) \<longleftrightarrow> ports P s" "ports P (s\<lparr>pr_election_in_progress := b\<rparr>) \<longleftrightarrow> ports P s"
  "ports P (s\<lparr>pr_received_alive := b\<rparr>) \<longleftrightarrow> ports P s"
  by (simp_all add: ports_def)

lemma ports_recompute: "\<lbrakk>fits P env; ports P s\<rbrakk> \<Longrightarrow> ports P (recompute_role env s)"
  by (simp add: recompute_role_def ports_update)

lemma ports_election [simp]: "ports P (start_election s) \<longleftrightarrow> ports P s"
  by (simp add: start_election_def)

lemma ports_dedup [simp]: "ports P (dedup r pid s) \<longleftrightarrow> ports P s"
  by (simp add: dedup_def split: list.split)

lemma ports_message: "\<lbrakk>fits P env; ports P s\<rbrakk> \<Longrightarrow> ports P (peer_message env now r m s)"
  by (auto simp: peer_message_def handle_hello_def on_peer_hello_def on_primary_ping_def on_peer_election_def on_peer_alive_def
      on_peer_coordinator_def ports_update ports_recompute Let_def split: Action.split option.split Payload.split)

lemma ports_event: "\<lbrakk>fits P env; ports P s\<rbrakk> \<Longrightarrow> ports P (apply_event env now e s)"
  by (cases e) (simp_all add: ports_message connected_def read_error_def on_peer_disconnected_def on_primary_dead_def
      watch_primary_def heartbeat_def grace_over_def election_timeout_def ports_update ports_recompute Let_def)

text \<open>
  What a class of events preserves, a run of such events preserves. The invariants of this theory are
  instances: two for all events, one for a pending election, one for a backup that gave up.
\<close>

locale preserved =
  fixes ok :: "bind_env \<Rightarrow> event \<Rightarrow> bool" and inv :: "Peers \<Rightarrow> bool"
  assumes keep: "inv s \<Longrightarrow> ok env e \<Longrightarrow> inv (apply_event env now e s)"
begin

lemma run: "inv s \<Longrightarrow> list_all (\<lambda>(env, now, e). ok env e) es \<Longrightarrow> inv (run_events es s)"
  unfolding run_events_def by (induction es arbitrary: s) (auto simp: keep)

end

interpretation roles: preserved "\<lambda>env e. True" role_inv
  by unfold_locales (rule role_inv_event)

interpretation sockets: preserved "\<lambda>env e. fits P env" "ports P" for P
  by unfold_locales (rule ports_event)

lemma role_inv_start: "role_inv (start_server env (new_Peers i n now))"
proof -
  have "role_inv (new_Peers i n now)" "role_inv ((new_Peers i n now)\<lparr>pr_grace_expired := True\<rparr>)"
    by (simp_all add: role_inv_def new_Peers_def)
  then show ?thesis by (simp add: start_server_def grace_over_def role_inv_recompute)
qed

lemma ports_start: "fits P env \<Longrightarrow> ports P (start_server env (new_Peers i n now))"
proof -
  assume "fits P env"
  moreover have "ports P (new_Peers i n now)" by (simp add: ports_def new_Peers_def)
  ultimately show ?thesis by (simp add: start_server_def grace_over_def ports_recompute)
qed

section \<open>A pending election\<close>

definition electing :: "Peers \<Rightarrow> bool" where
  "electing s \<longleftrightarrow> pr_election_in_progress s \<and> \<not> pr_received_alive s"

definition leaves_election :: "event \<Rightarrow> bool" where
  "leaves_election e =
     (case e of Received r m \<Rightarrow> msg_action m = PEER_ALIVE \<or> msg_action m = PEER_COORDINATOR
      | Election_timer \<Rightarrow> True | _ \<Rightarrow> False)"

lemma electing_send [simp]:
  "electing (send_each m rs s) \<longleftrightarrow> electing s" "electing (announce_coordinator s) \<longleftrightarrow> electing s"
  "electing (send_ping_to_backups s) \<longleftrightarrow> electing s" "electing (send_hello r i j t s) \<longleftrightarrow> electing s"
  "electing (upd_peer r f s) \<longleftrightarrow> electing s" "electing (remove_peer r s) \<longleftrightarrow> electing s"
  "electing (send_alive_to i s) \<longleftrightarrow> electing s" "electing (update_serving_state env s) \<longleftrightarrow> electing s"
  "electing (add_peer r s) \<longleftrightarrow> electing s"
  by (simp_all add: electing_def peer_ops peer_simps Let_def send_alive_to_def split: list.split)

lemma electing_upd [simp]:
  "electing (s\<lparr>pr_role := x\<rparr>) \<longleftrightarrow> electing s" "electing (s\<lparr>pr_primary_alive := b\<rparr>) \<longleftrightarrow> electing s"
  "electing (s\<lparr>pr_last_primary_ping := t\<rparr>) \<longleftrightarrow> electing s" "electing (s\<lparr>pr_grace_expired := b\<rparr>) \<longleftrightarrow> electing s"
  "electing (s\<lparr>pr_sessions := f\<rparr>) \<longleftrightarrow> electing s"
  by (simp_all add: electing_def)

lemma electing_ops [simp]:
  "electing (recompute_role env s) \<longleftrightarrow> electing s" "electing (dedup r i s) \<longleftrightarrow> electing s"
  by (simp_all add: recompute_role_def dedup_def split: list.split)

lemma electing_hello [simp]: "electing (on_peer_hello env now r s) \<longleftrightarrow> electing s"
  by (simp add: on_peer_hello_def Let_def split: option.split)

lemma electing_start [simp]: "electing s \<Longrightarrow> electing (start_election s)"
  by (simp add: start_election_def) (simp add: electing_def)

lemma electing_event:
  assumes "electing s" "\<not> leaves_election e"
  shows "electing (apply_event env now e s)"
proof (cases e)
  case (Received r m)
  have "electing (peer_message env now r m s)"
    using assms Received
    by (cases "msg_action m")
      (auto simp: leaves_election_def peer_message_def handle_hello_def on_primary_ping_def on_peer_election_def Let_def
        split: option.split Payload.split)
  then show ?thesis using Received by simp
qed (use assms in \<open>simp_all add: leaves_election_def connected_def read_error_def on_peer_disconnected_def
       on_primary_dead_def watch_primary_def heartbeat_def grace_over_def Let_def\<close>)

interpretation pending: preserved "\<lambda>env e. \<not> leaves_election e" electing
  by unfold_locales (rule electing_event)

section \<open>A backup that stepped back\<close>

definition gave_up :: "Peers \<Rightarrow> bool" where
  "gave_up s \<longleftrightarrow> pr_role s = Backup \<and> \<not> pr_primary_alive s \<and> \<not> pr_election_in_progress s"

text \<open>Timers, connections and losses, and the answers ALIVE.\<close>

definition quiet :: "event \<Rightarrow> bool" where
  "quiet e =
     (case e of Received r m \<Rightarrow> msg_action m = PEER_ALIVE | Grace_timer \<Rightarrow> False | _ \<Rightarrow> True)"

lemma gave_up_event:
  assumes "gave_up s" "quiet e"
  shows "gave_up (apply_event env now e s)"
  using assms
  by (cases e) (auto simp: gave_up_def quiet_def peer_message_def on_peer_alive_def connected_def read_error_def
    on_peer_disconnected_def watch_primary_def heartbeat_def election_timeout_def peer_ops peer_simps Let_def
    split: option.split Payload.split)

interpretation resigned: preserved "\<lambda>env. quiet" gave_up
  by unfold_locales (rule gave_up_event)

section \<open>Auxiliary facts\<close>

lemma foldl_min_iff: "(a::int) = foldl min a xs \<longleftrightarrow> (\<forall>x\<in>set xs. a \<le> x)"
proof -
  have "foldl min a xs = fold min xs a" by (simp add: foldl_conv_fold min.commute fun_eq_iff)
  also have "\<dots> = Min (insert a (set xs))" by (metis Min.set_eq_fold list.simps(15))
  finally show ?thesis by (auto simp: eq_Min_iff)
qed

lemma distinct_filter_single: "distinct xs \<Longrightarrow> q \<in> set xs \<Longrightarrow> filter (\<lambda>x. x = q) xs = [q]"
  by (induction xs) (auto simp: filter_empty_conv)

lemma message_dispatch [simp]:
  "peer_message env now r (create_peer_coordinator (PPeerId i)) s = on_peer_coordinator env now i s"
  "peer_message env now r (create_peer_election (PPeerId i)) s = on_peer_election i s"
  "peer_message env now r (create_peer_alive (PPeerId i)) s = on_peer_alive i s"
  "peer_message env now r (create_peer_ping p) s = on_primary_ping now s"
  by (simp_all add: peer_message_def create_peer_coordinator_def create_peer_election_def create_peer_alive_def
    create_peer_ping_def mk_Message_def)

lemma announced:
  "pr_sent (announce_coordinator s) = pr_sent s @
     map (\<lambda>r. (r, create_peer_coordinator (PPeerId (pr_id s))))
         (filter (\<lambda>r. \<not> ps_closing_intentionally (pr_sessions s r)) (open_peers s))"
  by (simp add: announce_coordinator_def send_each_sent)

lemma won_election:
  assumes "electing s"
  shows "pr_role (election_timeout env s) = Primary" "pr_primary_alive (election_timeout env s)"
    "\<not> pr_election_in_progress (election_timeout env s)"
    "pr_sent (election_timeout env s) = pr_sent s @
       map (\<lambda>r. (r, create_peer_coordinator (PPeerId (pr_id s))))
           (filter (\<lambda>r. \<not> ps_closing_intentionally (pr_sessions s r)) (open_peers s))"
  using assms
  by (simp_all add: election_timeout_def electing_def announced peer_simps open_peers_def)
     (simp_all add: announce_coordinator_def peer_simps)

text \<open>A coordinator with one open connection, to the coordinator \<open>pid\<close>, for the examples.\<close>

definition demo_node :: "int \<Rightarrow> Role \<Rightarrow> int \<Rightarrow> Peers" where
  "demo_node i role pid = (new_Peers i 1 0)\<lparr>pr_role := role, pr_primary_alive := True, pr_peers := [0],
     pr_sessions := (\<lambda>r. \<lparr>ps_peer_id = Some pid, ps_peer_role = 0, ps_is_initiator = True,
        ps_closing_intentionally = False, ps_open = True\<rparr>)\<rparr>"

lemmas demo_node_simps = demo_node_def new_Peers_def open_peers_def

section \<open>Properties\<close>

text \<open>
  C18. In every run of a coordinator, whatever messages, connections, losses and timers it sees, the ports for
  workers and clients are served only while its role is primary, both sockets are then bound to their ports, and a
  primary always takes the primary to be alive (so it never starts an election against itself). Both sockets are
  listening as well unless a call of \<^verbatim>\<open>listen\<close> has failed, an error that the code does not look at.
\<close>

theorem serving_only_primary:
  fixes es env i n now
  defines "s \<equiv> run_events es (start_server env (new_Peers i n now))"
  shows "(pr_serving s \<longrightarrow> pr_role s = Primary \<and> has_port (pr_worker_acceptor s) \<and> has_port (pr_client_acceptor s))
    \<and> (pr_role s = Primary \<longrightarrow> pr_primary_alive s)
    \<and> (listens env \<and> list_all (\<lambda>(env', now', e). listens env') es \<and> pr_serving s
         \<longrightarrow> pr_worker_acceptor s = Listening \<and> pr_client_acceptor s = Listening)"
proof -
  have "role_inv s" using roles.run [OF role_inv_start, of es env i n now] by (simp add: s_def list_all_iff)
  moreover have fits: "fits has_port env'" "fits ((=) Listening) env' \<longleftrightarrow> listens env'" for env' by (simp_all add: fits_def has_port_def)
  then have "ports has_port s" using sockets.run [OF ports_start, of has_port env es i n now] by (simp add: s_def list_all_iff)
  moreover have "ports ((=) Listening) s" if "listens env" "list_all (\<lambda>(env', now', e). listens env') es"
    using sockets.run [OF ports_start, of "(=) Listening" env es i n now] that by (simp add: s_def fits(2))
  ultimately show ?thesis by (auto simp: role_inv_def ports_def)
qed

theorem serving_only_primary_witness:
  "pr_serving (run_events [] (start_server (\<lambda>_. Port_ok, \<lambda>_. Port_ok) (new_Peers 1 0 0)))
   \<and> pr_role (run_events [] (start_server (\<lambda>_. Port_ok, \<lambda>_. Port_ok) (new_Peers 1 0 0))) = Primary
   \<and> pr_worker_acceptor (run_events [] (start_server (\<lambda>_. Port_ok, \<lambda>_. Port_ok) (new_Peers 1 0 0))) = Listening"
proof -
  have "pr_serving (run_events [] (start_server (\<lambda>_. Port_ok, \<lambda>_. Port_ok) (new_Peers 1 0 0)))"
    by (simp add: run_events_def start_server_def new_Peers_def grace_over_def recompute_role_def known_ids_def
      List.map_filter_def exists_primary_peer_def announce_coordinator_def peer_simps update_serving_state_def
      open_serving_acceptors_def open_acceptor_def)
  moreover have "listens (\<lambda>_. Port_ok, \<lambda>_. Port_ok)" by (simp add: listens_def)
  ultimately show ?thesis using serving_only_primary [of "[]" "(\<lambda>_. Port_ok, \<lambda>_. Port_ok)" 1 0 0] by simp
qed

text \<open>A coordinator whose worker socket cannot listen takes the role of primary and counts as serving all the same.\<close>

theorem listen_error_unnoticed:
  "pr_serving (start_server (\<lambda>_. Listen_fails, \<lambda>_. Port_ok) (new_Peers 1 0 0))
   \<and> pr_role (start_server (\<lambda>_. Listen_fails, \<lambda>_. Port_ok) (new_Peers 1 0 0)) = Primary
   \<and> pr_worker_acceptor (start_server (\<lambda>_. Listen_fails, \<lambda>_. Port_ok) (new_Peers 1 0 0)) = Bound"
  by (simp add: start_server_def new_Peers_def grace_over_def recompute_role_def known_ids_def
    List.map_filter_def exists_primary_peer_def announce_coordinator_def peer_simps update_serving_state_def
    open_serving_acceptors_def open_acceptor_def)

text \<open>
  C19. Two primaries that hear of each other through COORDINATOR messages agree on the one with the smaller id:
  it stays primary and keeps serving as it did, and repeats its claim to every open peer; the other becomes a
  backup, stops serving, ends its election and takes the primary to be alive.
\<close>

theorem primaries_agree:
  fixes s t env1 env2 now1 now2 r q
  assumes "pr_role s = Primary" "pr_role t = Primary" "pr_id s < pr_id t"
  defines "s' \<equiv> peer_message env1 now1 r (create_peer_coordinator (PPeerId (pr_id t))) s"
    and "t' \<equiv> peer_message env2 now2 q (create_peer_coordinator (PPeerId (pr_id s))) t"
  shows "pr_role s' = Primary \<and> pr_serving s' = pr_serving s
    \<and> (\<forall>x\<in>set (open_peers s). \<not> ps_closing_intentionally (pr_sessions s x)
         \<longrightarrow> (x, create_peer_coordinator (PPeerId (pr_id s))) \<in> set (pr_sent s'))
    \<and> pr_role t' = Backup \<and> \<not> pr_serving t' \<and> pr_primary_alive t' \<and> \<not> pr_election_in_progress t'"
  using assms(1-3) unfolding s'_def t'_def
  by (auto simp: on_peer_coordinator_def announced peer_simps) (auto simp: announce_coordinator_def peer_simps)

theorem primaries_agree_witness:
  "pr_role (peer_message (\<lambda>_. Port_ok, \<lambda>_. Port_ok) 5 0 (create_peer_coordinator (PPeerId 1)) (demo_node 2 Primary 1)) = Backup"
  using primaries_agree [of "demo_node 1 Primary 2" "demo_node 2 Primary 1" "(\<lambda>_. Port_ok, \<lambda>_. Port_ok)" 5 0 "(\<lambda>_. Port_ok, \<lambda>_. Port_ok)" 5 0]
  by (simp add: demo_node_simps)

text \<open>
  C20. A backup whose primary has been silent for more than ten seconds asks every open peer with a smaller id
  to take part in an election; if until the timer fires neither an ALIVE nor a COORDINATOR arrives, it becomes
  the primary and announces itself to every peer that is open then.
\<close>

theorem silent_election_won:
  fixes s es env env' now now'
  assumes "pr_role s = Backup" "pr_primary_alive s" "\<not> pr_election_in_progress s"
    and "(now - pr_last_primary_ping s) sdiv 1000000000 > HEARTBEAT_TIMEOUT_SEC"
    and "list_all (\<lambda>(env, t, e). \<not> leaves_election e) es"
  defines "s1 \<equiv> apply_event env now Watch s"
  defines "s2 \<equiv> run_events es s1"
  defines "s3 \<equiv> apply_event env' now' Election_timer s2"
  shows "pr_sent s1 = pr_sent s @ map (\<lambda>r. (r, create_peer_election (PPeerId (pr_id s))))
           (filter (\<lambda>r. \<not> ps_closing_intentionally (pr_sessions s r)) (filter (has_lower_id s) (open_peers s)))
    \<and> pr_role s3 = Primary \<and> \<not> pr_election_in_progress s3
    \<and> (\<forall>x\<in>set (open_peers s2). \<not> ps_closing_intentionally (pr_sessions s2 x)
         \<longrightarrow> (x, create_peer_coordinator (PPeerId (pr_id s2))) \<in> set (pr_sent s3))"
proof -
  have s1: "s1 = send_election_to_lower_ids
      (s\<lparr>pr_primary_alive := False, pr_election_in_progress := True, pr_received_alive := False\<rparr>)"
    using assms(1-4) by (simp add: s1_def watch_primary_def on_primary_dead_def start_election_def)
  have "electing s1" by (simp add: s1 send_election_to_lower_ids_def) (simp add: electing_def)
  then have "electing s2" unfolding s2_def using assms(5) by (rule pending.run)
  note won = won_election [OF this, of env']
  have "pr_sent s1 = pr_sent s @ map (\<lambda>r. (r, create_peer_election (PPeerId (pr_id s))))
           (filter (\<lambda>r. \<not> ps_closing_intentionally (pr_sessions s r)) (filter (has_lower_id s) (open_peers s)))"
    by (simp add: s1 send_election_to_lower_ids_def send_each_sent open_peers_def has_lower_id_def
      cong: filter_cong option.case_cong)
  then show ?thesis using won by (auto simp: s3_def)
qed

theorem silent_election_won_witness:
  "pr_role (apply_event (\<lambda>_. Port_ok, \<lambda>_. Port_ok) 14000000000 Election_timer
     (run_events [((\<lambda>_. Port_ok, \<lambda>_. Port_ok), 12000000000, Lost 0)]
       (apply_event (\<lambda>_. Port_ok, \<lambda>_. Port_ok) 11000000000 Watch (demo_node 2 Backup 1)))) = Primary"
  using silent_election_won [of "demo_node 2 Backup 1" 11000000000 "[((\<lambda>_. Port_ok, \<lambda>_. Port_ok), 12000000000, Lost 0)]"
    "(\<lambda>_. Port_ok, \<lambda>_. Port_ok)" "(\<lambda>_. Port_ok, \<lambda>_. Port_ok)" 14000000000]
  by (simp add: demo_node_simps HEARTBEAT_TIMEOUT_SEC_def leaves_election_def signed_divide_int_def)

text \<open>
  C28. A coordinator that gets an ELECTION from a larger id answers ALIVE on its open session to that id and
  stands in the election itself; the larger id, once it has the ALIVE, does not become primary when its timer
  fires but ends its election with its role unchanged.
\<close>

theorem smaller_id_takes_over:
  fixes s t env1 env2 now1 now2 now3 r rs x q
  assumes "pr_id s < pr_id t" "electing t" "\<not> ps_closing_intentionally (pr_sessions s r)"
    and "filter (\<lambda>x. peer_id_or (pr_sessions s x) = pr_id t) (open_peers s) = r # rs"
  defines "s' \<equiv> peer_message env1 now1 x (create_peer_election (PPeerId (pr_id t))) s"
    and "t' \<equiv> apply_event env2 now3 Election_timer (peer_message env2 now2 q (create_peer_alive (PPeerId (pr_id s))) t)"
  shows "(r, create_peer_alive (PPeerId (pr_id s))) \<in> set (pr_sent s') \<and> pr_election_in_progress s'
    \<and> pr_role t' = pr_role t \<and> pr_serving t' = pr_serving t \<and> \<not> pr_election_in_progress t'"
proof -
  have "pr_election_in_progress s' \<and> (r, create_peer_alive (PPeerId (pr_id s))) \<in> set (pr_sent s')"
    using assms(1,3,4) unfolding s'_def
    by (simp add: on_peer_election_def send_alive_to_def Let_def
      start_election_def send_election_to_lower_ids_def send_each_sent peer_simps) (simp add: send_raw_def)
  moreover have "pr_role t' = pr_role t \<and> pr_serving t' = pr_serving t \<and> \<not> pr_election_in_progress t'"
    using assms(2) unfolding t'_def
    by (simp add: on_peer_alive_def electing_def election_timeout_def)
  ultimately show ?thesis by blast
qed

theorem smaller_id_takes_over_witness:
  "pr_election_in_progress (peer_message (\<lambda>_. Port_ok, \<lambda>_. Port_ok) 5 0 (create_peer_election (PPeerId 2)) (demo_node 1 Backup 2))"
  using smaller_id_takes_over [of "demo_node 1 Backup 2" "(demo_node 2 Backup 1)\<lparr>pr_election_in_progress := True\<rparr>" 0 "[]"
    "(\<lambda>_. Port_ok, \<lambda>_. Port_ok)" 5 0 "(\<lambda>_. Port_ok, \<lambda>_. Port_ok)" 8 5 0]
  by (simp add: demo_node_simps electing_def peer_id_or_def)

text \<open>
  A backup becomes primary in \<^verbatim>\<open>recompute_role\<close> exactly when it has waited long enough (the grace time is
  over or every configured peer has said hello), no peer that said hello claims to be primary, and none of them
  has a smaller id; otherwise nothing changes.
\<close>

theorem initial_role:
  fixes s env
  assumes "pr_role s = Backup"
  defines "s' \<equiv> recompute_role env s"
    and "ready \<equiv> pr_grace_expired s \<or> pr_addresses s \<le> length (known_ids s)"
  shows "(pr_role s' = Primary \<longleftrightarrow> ready
           \<and> (\<forall>r\<in>set (pr_peers s). ps_peer_id (pr_sessions s r) \<noteq> None \<longrightarrow>
                ps_peer_role (pr_sessions s r) \<noteq> 0 \<and> pr_id s \<le> the (ps_peer_id (pr_sessions s r))))
    \<and> (pr_role s' = Backup \<longrightarrow> s' = s)"
proof -
  have ids: "set (known_ids s) = {i. \<exists>r\<in>set (pr_peers s). ps_peer_id (pr_sessions s r) = Some i}"
    by (force simp: known_ids_def map_filter_def)
  show ?thesis
    using assms(1) unfolding s'_def ready_def
    by (auto simp: recompute_role_def foldl_min_iff ids exists_primary_peer_def list_ex_iff announce_coordinator_def
      peer_simps not_less)
qed

theorem initial_role_witness:
  "pr_role (recompute_role (\<lambda>_. Port_ok, \<lambda>_. Port_ok) ((new_Peers 1 3 0)\<lparr>pr_grace_expired := True\<rparr>)) = Primary"
  using initial_role [of "(new_Peers 1 3 0)\<lparr>pr_grace_expired := True\<rparr>" "(\<lambda>_. Port_ok, \<lambda>_. Port_ok)"]
  by (simp add: new_Peers_def)

text \<open>
  C29. A backup that got an ALIVE and stepped back does not stand again by itself: however long the primary stays
  silent and whichever connections come or are lost afterwards, including the one to the coordinator that answered, it
  remains a backup without a primary as long as no other coordinator sends it more than ALIVEs. Only the grace timer,
  which fires once after the start, can still make it the primary if it is yet to fire, and does so exactly if no peer
  that has said hello claims to be primary or has a smaller id.
\<close>

theorem stepped_back_stays_back:
  fixes s es env env' now now' t r m
  assumes "pr_role s = Backup" "\<not> pr_primary_alive s" "electing s" "msg_action m = PEER_ALIVE" "msg_payload m = Some (PPeerId i)"
    and "list_all (\<lambda>(env, t, e). quiet e) es"
  defines "s' \<equiv> run_events es (apply_event env now' Election_timer (apply_event env now (Received r m) s))"
  shows "pr_role s' = Backup \<and> \<not> pr_primary_alive s' \<and> \<not> pr_election_in_progress s'
    \<and> (pr_role (apply_event env' t Grace_timer s') = Primary \<longleftrightarrow>
         (\<forall>r\<in>set (pr_peers s'). ps_peer_id (pr_sessions s' r) \<noteq> None \<longrightarrow>
            ps_peer_role (pr_sessions s' r) \<noteq> 0 \<and> pr_id s' \<le> the (ps_peer_id (pr_sessions s' r))))"
proof -
  have "gave_up (apply_event env now' Election_timer (apply_event env now (Received r m) s))"
    using assms(1-5) by (simp add: gave_up_def electing_def peer_message_def on_peer_alive_def election_timeout_def)
  then have g: "gave_up s'" unfolding s'_def using assms(6) by (rule resigned.run)
  then have "pr_role (s'\<lparr>pr_grace_expired := True\<rparr>) = Backup" by (simp add: gave_up_def)
  from initial_role [OF this, of env'] show ?thesis using g by (simp add: gave_up_def grace_over_def)
qed

theorem stepped_back_stays_back_witness:
  "pr_role (run_events [((\<lambda>_. Port_ok, \<lambda>_. Port_ok), 9, Lost 0), ((\<lambda>_. Port_ok, \<lambda>_. Port_ok), 99000000000, Watch)]
     (apply_event (\<lambda>_. Port_ok, \<lambda>_. Port_ok) 8 Election_timer
       (apply_event (\<lambda>_. Port_ok, \<lambda>_. Port_ok) 5 (Received 0 (create_peer_alive (PPeerId 1)))
         ((demo_node 2 Backup 1)\<lparr>pr_primary_alive := False, pr_election_in_progress := True\<rparr>)))) = Backup"
  using stepped_back_stays_back [of "(demo_node 2 Backup 1)\<lparr>pr_primary_alive := False, pr_election_in_progress := True\<rparr>"
    "create_peer_alive (PPeerId 1)" 1 "[((\<lambda>_. Port_ok, \<lambda>_. Port_ok), 9, Lost 0), ((\<lambda>_. Port_ok, \<lambda>_. Port_ok), 99000000000, Watch)]"
    "(\<lambda>_. Port_ok, \<lambda>_. Port_ok)" 8 5 0]
  by (simp add: demo_node_simps electing_def create_peer_alive_def mk_Message_def quiet_def)

text \<open>
  C30. When both coordinators have connected to each other, \<open>on_peer_hello\<close> keeps one of the two connections: the
  one started by the smaller id, on whichever of them the second hello arrives. As the two ends see the roles of
  starter and accepter swapped, both keep the same connection.
\<close>

theorem dedup_keeps_smaller_starter:
  fixes s r q pid
  assumes "distinct (pr_peers s)" "r \<in> set (pr_peers s)" "q \<in> set (pr_peers s)" "r \<noteq> q" "pid \<noteq> pr_id s"
    and "\<forall>x\<in>set (pr_peers s). ps_peer_id (pr_sessions s x) = Some pid \<longleftrightarrow> x = r \<or> x = q"
    and "ps_is_initiator (pr_sessions s r) \<noteq> ps_is_initiator (pr_sessions s q)"
    and "x = r \<or> x = q"
  shows "(x \<in> set (pr_peers (dedup r pid s)) \<longleftrightarrow> (ps_is_initiator (pr_sessions s x) \<longleftrightarrow> pr_id s < pid))
    \<and> (x \<notin> set (pr_peers (dedup r pid s)) \<longrightarrow> \<not> ps_open (pr_sessions (dedup r pid s) x)
         \<and> ps_closing_intentionally (pr_sessions (dedup r pid s) x))"
proof -
  have "filter (\<lambda>x. x \<noteq> r \<and> ps_peer_id (pr_sessions s x) = Some pid) (pr_peers s) = filter (\<lambda>x. x = q) (pr_peers s)"
    using assms(4,6) by (auto intro: filter_cong)
  also have "\<dots> = [q]"
    using assms(1,3) by (simp add: distinct_filter_single)
  finally have "dedup r pid s = (if initiator_of (pr_id s) pid (pr_sessions s r) < initiator_of (pr_id s) pid (pr_sessions s q)
      then remove_peer q (upd_peer q close_intentionally s) else remove_peer r (upd_peer r close_intentionally s))"
    by (simp add: dedup_def)
  then show ?thesis
    using assms(1-5,7,8)
    by (auto simp: initiator_of_def remove_peer_def upd_peer_def close_intentionally_def split: if_splits)
qed

theorem dedup_keeps_smaller_starter_witness:
  "0 \<in> set (pr_peers (dedup 0 2 ((demo_node 1 Backup 2)\<lparr>pr_peers := [0, 1], pr_sessions :=
      (pr_sessions (demo_node 1 Backup 2))(1 := (pr_sessions (demo_node 1 Backup 2) 1)\<lparr>ps_is_initiator := False\<rparr>)\<rparr>)))"
  using dedup_keeps_smaller_starter [of "(demo_node 1 Backup 2)\<lparr>pr_peers := [0, 1], pr_sessions :=
      (pr_sessions (demo_node 1 Backup 2))(1 := (pr_sessions (demo_node 1 Backup 2) 1)\<lparr>ps_is_initiator := False\<rparr>)\<rparr>" 0 1 2 0]
  by (simp add: demo_node_simps)

text \<open>
  If the client port cannot be bound after the worker port was, the coordinator is left half open: the
  operating system refuses to bind the listening worker socket a second time, so later attempts fail too even
  when the client port has become free, and stepping down does not close the worker port either.
\<close>

theorem half_open_stays_half_open:
  fixes s env env'
  assumes "pr_role s = Primary" "\<not> pr_serving s" "pr_worker_acceptor s = Closed"
    and "fst env Unbound = Port_ok" "snd env Unbound = Bind_fails" "pr_client_acceptor s = Closed"
    and "fst env' Listening = Bind_fails"
  defines "s1 \<equiv> update_serving_state env s"
  shows "\<not> pr_serving (update_serving_state env' s1)
    \<and> pr_worker_acceptor (update_serving_state env' s1) = Listening
    \<and> pr_worker_acceptor (update_serving_state env' (s1\<lparr>pr_role := Backup\<rparr>)) = Listening"
  using assms(1-7) unfolding s1_def
  by (simp add: update_serving_state_def open_serving_acceptors_def close_serving_acceptors_def open_acceptor_def)

theorem half_open_stays_half_open_witness:
  "\<not> pr_serving (update_serving_state (\<lambda>a. if a = Unbound then Port_ok else Bind_fails, \<lambda>_. Port_ok)
      (update_serving_state (\<lambda>_. Port_ok, \<lambda>_. Bind_fails) (demo_node 1 Primary 2)))"
  using half_open_stays_half_open [of "demo_node 1 Primary 2" "(\<lambda>_. Port_ok, \<lambda>_. Bind_fails)" "(\<lambda>a. if a = Unbound then Port_ok else Bind_fails, \<lambda>_. Port_ok)"]
  by (simp add: demo_node_simps)

end
