(* ===== verification/Network.thy ===== *)
theory Network
  imports Election
begin

text \<open>
  Several coordinators together: the handlers of \<^verbatim>\<open>src/CoordServ.cpp\<close> and \<^verbatim>\<open>src/PeerSession.cpp\<close> (theory
  \<^verbatim>\<open>Election\<close>), connected by a network. The state has every coordinator, the connections between them and the messages on
  their way; a step is a timer, a new connection in its two halves, the delivery of a message, the loss of a connection,
  or the crash and restart of a coordinator, in any order. The network uses a coordinator only through the contract
  \<open>peer_contract\<close>. The lemmas of the locale say that between two primaries a claim is always on its way, and that without
  crashes there is always a primary behind whoever is said to be one.
\<close>

section \<open>Connections and messages\<close>

text \<open>
  A connection has a number, which is the number of the session at both of its ends. It is accepted when the other side
  has taken it from the queue of its listening socket (\<^verbatim>\<open>peer_accept_loop\<close>).
\<close>

record link =
  ln_from :: nat
  ln_to :: nat
  ln_accepted :: bool

record net =
  nt_node :: "nat \<Rightarrow> Peers"
  nt_up :: "nat set"
  nt_link :: "peer_ref \<Rightarrow> link option"
  nt_next :: peer_ref
  nt_wire :: "peer_ref \<Rightarrow> nat \<Rightarrow> Message list"

definition at_end :: "nat \<Rightarrow> link \<Rightarrow> bool" where
  "at_end n l \<longleftrightarrow> n = ln_from l \<or> n = ln_to l"

definition other_end :: "nat \<Rightarrow> link \<Rightarrow> nat" where
  "other_end n l = (if n = ln_from l then ln_to l else ln_from l)"

text \<open>A session whose messages are read and which a broadcast reaches.\<close>

definition live :: "Peers \<Rightarrow> peer_ref \<Rightarrow> bool" where
  "live s r \<longleftrightarrow> r \<in> set (pr_peers s) \<and> ps_open (pr_sessions s r) \<and> \<not> ps_closing_intentionally (pr_sessions s r)"

text \<open>What a coordinator sent is put on the connections that are still there; \<open>nt_wire c n\<close> is read by \<open>n\<close>.\<close>

definition sent_on :: "peer_ref \<Rightarrow> Peers \<Rightarrow> Message list" where
  "sent_on c s = map snd (filter (\<lambda>(r, m). r = c) (pr_sent s))"

definition post :: "nat \<Rightarrow> Peers \<Rightarrow> net \<Rightarrow> net" where
  "post n s w = w\<lparr>nt_node := (nt_node w)(n := s\<lparr>pr_sent := []\<rparr>),
     nt_wire := (\<lambda>c k. nt_wire w c k @
       (case nt_link w c of None \<Rightarrow> [] | Some l \<Rightarrow> if at_end n l \<and> k = other_end n l then sent_on c s else []))\<rparr>"

type_synonym peer_handler = "bind_env \<Rightarrow> int \<Rightarrow> event \<Rightarrow> Peers \<Rightarrow> Peers"

definition act :: "peer_handler \<Rightarrow> bind_env \<Rightarrow> int \<Rightarrow> event \<Rightarrow> nat \<Rightarrow> net \<Rightarrow> net" where
  "act run env now e n w = post n (run env now e (nt_node w n)) w"

definition dialed :: "nat \<Rightarrow> nat \<Rightarrow> net \<Rightarrow> net" where
  "dialed a b w = w\<lparr>nt_link := (nt_link w)(nt_next w \<mapsto> \<lparr>ln_from = a, ln_to = b, ln_accepted = False\<rparr>),
     nt_wire := (nt_wire w)(nt_next w := (\<lambda>k. [])), nt_next := Suc (nt_next w)\<rparr>"

definition accepted :: "peer_ref \<Rightarrow> link \<Rightarrow> net \<Rightarrow> net" where
  "accepted c l w = w\<lparr>nt_link := (nt_link w)(c \<mapsto> l\<lparr>ln_accepted := True\<rparr>)\<rparr>"

definition taken :: "peer_ref \<Rightarrow> nat \<Rightarrow> Message list \<Rightarrow> net \<Rightarrow> net" where
  "taken c n ms w = w\<lparr>nt_wire := (nt_wire w)(c := (nt_wire w c)(n := ms))\<rparr>"

definition cut :: "(link \<Rightarrow> bool) \<Rightarrow> net \<Rightarrow> net" where
  "cut p w = w\<lparr>nt_link := (\<lambda>c. case nt_link w c of None \<Rightarrow> None | Some l \<Rightarrow> if p l then None else Some l)\<rparr>"

definition timer :: "event \<Rightarrow> bool" where
  "timer e \<longleftrightarrow> e = Watch \<or> e = Heartbeat \<or> e = Election_timer \<or> e = Grace_timer"

text \<open>
  The steps. A connection that breaks is first cut; its ends notice it later (\<open>lose\<close>), and may also give up a connection
  by themselves. A crash cuts all connections of the coordinator; it starts again with its id and no memory. The flag
  says whether coordinators may crash.
\<close>

inductive net_step :: "peer_handler \<Rightarrow> bool \<Rightarrow> net \<Rightarrow> net \<Rightarrow> bool" for run :: peer_handler and crashes :: bool where
  tick: "\<lbrakk>n \<in> nt_up w; timer e\<rbrakk> \<Longrightarrow> net_step run crashes w (act run env now e n w)"
| dial: "\<lbrakk>a \<in> nt_up w; b \<in> nt_up w; a \<noteq> b\<rbrakk> \<Longrightarrow>
     net_step run crashes w (act run env now (Connected (nt_next w) True) a (dialed a b w))"
| take: "\<lbrakk>nt_link w c = Some l; \<not> ln_accepted l; ln_to l \<in> nt_up w\<rbrakk> \<Longrightarrow>
     net_step run crashes w (act run env now (Connected c False) (ln_to l) (accepted c l w))"
| deliver: "\<lbrakk>nt_link w c = Some l; at_end n l; n \<in> nt_up w; ln_accepted l; live (nt_node w n) c; nt_wire w c n = m # ms\<rbrakk> \<Longrightarrow>
     net_step run crashes w (act run env now (Received c m) n (taken c n ms w))"
| lose: "\<lbrakk>n \<in> nt_up w; live (nt_node w n) c\<rbrakk> \<Longrightarrow> net_step run crashes w (act run env now (Lost c) n w)"
| break_link: "nt_link w c = Some l \<Longrightarrow> net_step run crashes w (w\<lparr>nt_link := (nt_link w)(c := None)\<rparr>)"
| crash: "\<lbrakk>crashes; n \<in> nt_up w\<rbrakk> \<Longrightarrow> net_step run crashes w (cut (at_end n) (w\<lparr>nt_up := nt_up w - {n}\<rparr>))"
| restart: "\<lbrakk>crashes; n \<notin> nt_up w\<rbrakk> \<Longrightarrow>
     net_step run crashes w (w\<lparr>nt_node := (nt_node w)(n := start_server env (new_Peers (pr_id (nt_node w n)) addresses now)),
       nt_up := insert n (nt_up w)\<rparr>)"

inductive net_run :: "peer_handler \<Rightarrow> bool \<Rightarrow> net \<Rightarrow> net \<Rightarrow> bool" for run :: peer_handler and crashes :: bool where
  stop: "net_run run crashes w w"
| go: "\<lbrakk>net_run run crashes w w'; net_step run crashes w' w''\<rbrakk> \<Longrightarrow> net_run run crashes w w''"

text \<open>The start: coordinators with their ids and numbers of addresses, no connections.\<close>

definition net_start :: "(nat \<Rightarrow> bind_env) \<Rightarrow> (nat \<Rightarrow> int) \<Rightarrow> (nat \<Rightarrow> nat) \<Rightarrow> int \<Rightarrow> nat set \<Rightarrow> net" where
  "net_start envs ids addresses now up = \<lparr>nt_node = (\<lambda>n. start_server (envs n) (new_Peers (ids n) (addresses n) now)),
     nt_up = up, nt_link = Map.empty, nt_next = 0, nt_wire = (\<lambda>c k. [])\<rparr>"

section \<open>The contract of a coordinator\<close>

text \<open>
  A message that makes a primary react: an announcement, the request of a handshake, or a hello of a primary. A boast says
  that its sender is the primary.
\<close>

definition claim :: "Message \<Rightarrow> bool" where
  "claim m \<longleftrightarrow> msg_action m = PEER_COORDINATOR \<and> (\<exists>i. msg_payload m = Some (PPeerId i))
     \<or> msg_action m = PEER_HELLO \<and> (\<exists>h. msg_payload m = Some (PHello h) \<and> (msg_type m = REQUEST \<or> hp_role h = 0))"

definition names :: "Message \<Rightarrow> int \<Rightarrow> bool" where
  "names m x \<longleftrightarrow> msg_action m = PEER_COORDINATOR \<and> msg_payload m = Some (PPeerId x)
     \<or> msg_action m = PEER_HELLO \<and> (\<exists>h. msg_payload m = Some (PHello h) \<and> hp_peer_id h = x)"

definition boast :: "Message \<Rightarrow> bool" where
  "boast m \<longleftrightarrow> msg_action m = PEER_COORDINATOR \<or> msg_action m = PEER_HELLO \<and> (\<exists>h. msg_payload m = Some (PHello h) \<and> hp_role h = 0)"

definition primary :: "Peers \<Rightarrow> bool" where
  "primary s \<longleftrightarrow> pr_role s = Primary"

text \<open>A session whose other end is known to be \<open>x\<close>, and one whose other end is taken to be a primary.\<close>

definition knows :: "Peers \<Rightarrow> peer_ref \<Rightarrow> int \<Rightarrow> bool" where
  "knows s r x \<longleftrightarrow> r \<in> set (pr_peers s) \<and> ps_peer_id (pr_sessions s r) = Some x"

definition trusts :: "Peers \<Rightarrow> peer_ref \<Rightarrow> int \<Rightarrow> bool" where
  "trusts s r x \<longleftrightarrow> knows s r x \<and> ps_peer_role (pr_sessions s r) = 0"

locale peer_contract =
  fixes run :: peer_handler
  assumes keeps_id: "pr_id (run env now e s) = pr_id s"
    and rises_loudly: "\<lbrakk>pr_sent s = []; s' = run env now e s; primary s'; live s' r; \<forall>b. e \<noteq> Connected r b\<rbrakk>
      \<Longrightarrow> primary s \<and> live s r \<or> (\<exists>m. (r, m) \<in> set (pr_sent s') \<and> claim m)"
    and answers_claim: "\<lbrakk>pr_sent s = []; s' = run env now (Received r m) s; claim m; live s r; primary s'; live s' r\<rbrakk>
      \<Longrightarrow> \<exists>m'. (r, m') \<in> set (pr_sent s') \<and> claim m'"
    and says_hello: "pr_sent s = [] \<Longrightarrow> \<exists>m. (r, m) \<in> set (pr_sent (run env now (Connected r True) s)) \<and> claim m"
    and names_itself: "\<lbrakk>pr_sent s = []; (r, m) \<in> set (pr_sent (run env now e s)); names m x\<rbrakk> \<Longrightarrow> x = pr_id s"
    and boasts_as_primary: "\<lbrakk>pr_sent s = []; s' = run env now e s; (r, m) \<in> set (pr_sent s'); boast m\<rbrakk>
      \<Longrightarrow> primary s \<or> primary s' \<or> (\<exists>q m x. e = Received q m \<and> boast m \<and> names m x \<and> x \<le> pr_id s)"
    and yields_to_less: "\<lbrakk>primary s; \<not> primary (run env now e s)\<rbrakk>
      \<Longrightarrow> \<exists>r m x. e = Received r m \<and> boast m \<and> names m x \<and> x \<le> pr_id s"
    and learns_names: "knows (run env now e s) r x \<Longrightarrow> knows s r x \<or> (\<exists>m. e = Received r m \<and> names m x)"
    and learns_primary: "trusts (run env now e s) r x \<Longrightarrow> trusts s r x \<or> (\<exists>q m. e = Received q m \<and> boast m \<and> names m x)"
    and ends_grace: "\<not> primary (run env now Grace_timer s) \<Longrightarrow> \<exists>r x. knows s r x \<and> (trusts s r x \<or> x < pr_id s)"

section \<open>What the network relies on\<close>

text \<open>
  The invariant of a connection: before it is accepted a claim is on its way; afterwards, if both ends are live and
  primary, a claim is on its way to one of them.
\<close>

definition claim_waits :: "net \<Rightarrow> peer_ref \<Rightarrow> nat \<Rightarrow> bool" where
  "claim_waits w c n \<longleftrightarrow> (\<exists>m \<in> set (nt_wire w c n). claim m)"

definition rivals :: "net \<Rightarrow> peer_ref \<Rightarrow> link \<Rightarrow> bool" where
  "rivals w c l \<longleftrightarrow> (\<forall>n. at_end n l \<longrightarrow> live (nt_node w n) c \<and> primary (nt_node w n))"

definition link_ok :: "net \<Rightarrow> peer_ref \<Rightarrow> link \<Rightarrow> bool" where
  "link_ok w c l \<longleftrightarrow> (\<not> ln_accepted l \<longrightarrow> claim_waits w c (ln_to l))
     \<and> (ln_accepted l \<longrightarrow> rivals w c l \<longrightarrow> (\<exists>n. at_end n l \<and> claim_waits w c n))"

definition net_inv :: "net \<Rightarrow> bool" where
  "net_inv w \<longleftrightarrow> (\<forall>n. pr_sent (nt_node w n) = [])
     \<and> (\<forall>c l. nt_link w c = Some l \<longrightarrow> c < nt_next w \<and> ln_from l \<noteq> ln_to l \<and> link_ok w c l)"

lemma forget_sent [simp]:
  "live (s\<lparr>pr_sent := x\<rparr>) = live s" "primary (s\<lparr>pr_sent := x\<rparr>) = primary s" "knows (s\<lparr>pr_sent := x\<rparr>) = knows s"
  "trusts (s\<lparr>pr_sent := x\<rparr>) = trusts s"
  by (simp_all add: fun_eq_iff live_def primary_def knows_def trusts_def)

lemma net_change_simps [simp]:
  "nt_node (dialed a b w) = nt_node w" "nt_up (dialed a b w) = nt_up w" "nt_next (dialed a b w) = Suc (nt_next w)"
  "nt_node (accepted c l w) = nt_node w" "nt_up (accepted c l w) = nt_up w" "nt_next (accepted c l w) = nt_next w"
  "nt_wire (accepted c l w) = nt_wire w" "nt_link (taken c n ms w) = nt_link w"
  "nt_node (taken c n ms w) = nt_node w" "nt_up (taken c n ms w) = nt_up w" "nt_next (taken c n ms w) = nt_next w"
  "nt_node (cut p w) = nt_node w" "nt_up (cut p w) = nt_up w" "nt_next (cut p w) = nt_next w" "nt_wire (cut p w) = nt_wire w"
  "nt_link (act run env now e n w) = nt_link w" "nt_up (act run env now e n w) = nt_up w" "nt_next (act run env now e n w) = nt_next w"
  by (simp_all add: dialed_def accepted_def taken_def cut_def act_def post_def)

lemma act_node: "nt_node (act run env now e n w) k = (if k = n then (run env now e (nt_node w n))\<lparr>pr_sent := []\<rparr> else nt_node w k)"
  by (simp add: act_def post_def)

lemma act_wire:
  "m \<in> set (nt_wire (act run env now e n w) c k) \<longleftrightarrow> m \<in> set (nt_wire w c k)
     \<or> (\<exists>l. nt_link w c = Some l \<and> at_end n l \<and> k = other_end n l \<and> (c, m) \<in> set (pr_sent (run env now e (nt_node w n))))"
  by (force simp: act_def post_def sent_on_def split: option.split)

lemma waits_act: "claim_waits w c k \<Longrightarrow> claim_waits (act run env now e n w) c k"
  by (auto simp: claim_waits_def act_wire)

lemma other_end_at [simp]: "at_end n l \<Longrightarrow> at_end (other_end n l) l"
  by (auto simp: at_end_def other_end_def)

lemma taken_wire: "nt_wire (taken c n ms w) c' k = (if c' = c \<and> k = n then ms else nt_wire w c' k)"
  by (simp add: taken_def)

lemma started:
  "pr_sent (start_server env (new_Peers i a now)) = []" "pr_peers (start_server env (new_Peers i a now)) = []"
  "pr_id (start_server env (new_Peers i a now)) = i"
  by (simp_all add: start_server_def grace_over_def recompute_role_def announce_coordinator_def open_peers_def send_each_def
    peer_simps new_Peers_def)

text \<open>A coordinator is primary at most as large as \<open>x\<close>.\<close>

definition backed :: "net \<Rightarrow> int \<Rightarrow> bool" where
  "backed w x \<longleftrightarrow> (\<exists>p \<in> nt_up w. primary (nt_node w p) \<and> pr_id (nt_node w p) \<le> x)"

text \<open>
  The invariant while nobody crashes: every message names its sender, sessions know only ids that exist, and whoever
  is said or believed to be primary is backed.
\<close>

definition ids_of :: "net \<Rightarrow> int set" where
  "ids_of w = (\<lambda>n. pr_id (nt_node w n)) ` nt_up w"

definition links_inv :: "net \<Rightarrow> bool" where
  "links_inv w \<longleftrightarrow> (\<forall>n. pr_sent (nt_node w n) = []) \<and> inj_on (\<lambda>n. pr_id (nt_node w n)) (nt_up w)
     \<and> (\<forall>c l. nt_link w c = Some l \<longrightarrow> ln_from l \<noteq> ln_to l \<and> ln_from l \<in> nt_up w \<and> ln_to l \<in> nt_up w \<and> c < nt_next w)"

definition wires_inv :: "net \<Rightarrow> bool" where
  "wires_inv w \<longleftrightarrow> (\<forall>c l n m x. nt_link w c = Some l \<longrightarrow> at_end n l \<longrightarrow> m \<in> set (nt_wire w c n) \<longrightarrow> names m x
     \<longrightarrow> x = pr_id (nt_node w (other_end n l)) \<and> (boast m \<longrightarrow> backed w x))"

definition beliefs_inv :: "net \<Rightarrow> bool" where
  "beliefs_inv w \<longleftrightarrow> (\<forall>n \<in> nt_up w. \<forall>r x. (knows (nt_node w n) r x \<longrightarrow> x \<in> ids_of w) \<and> (trusts (nt_node w n) r x \<longrightarrow> backed w x))"

definition honest_inv :: "net \<Rightarrow> bool" where
  "honest_inv w \<longleftrightarrow> links_inv w \<and> wires_inv w \<and> beliefs_inv w"

text \<open>What the event tells a coordinator is true.\<close>

definition heard_truth :: "net \<Rightarrow> nat \<Rightarrow> event \<Rightarrow> bool" where
  "heard_truth w n e \<longleftrightarrow> (\<forall>q m x. e = Received q m \<longrightarrow> names m x \<longrightarrow> x \<in> ids_of w \<and> x \<noteq> pr_id (nt_node w n) \<and> (boast m \<longrightarrow> backed w x))"

lemma other_other: "\<lbrakk>at_end n l; ln_from l \<noteq> ln_to l; k = other_end n l\<rbrakk> \<Longrightarrow> other_end k l = n"
  by (auto simp: at_end_def other_end_def)

context peer_contract
begin

text \<open>One event at one end.\<close>

lemma sent_waits:
  "\<lbrakk>nt_link w c = Some l; at_end n l; (c, m) \<in> set (pr_sent (run env now e (nt_node w n))); claim m\<rbrakk>
   \<Longrightarrow> \<exists>k. at_end k l \<and> claim_waits (act run env now e n w) c k"
  using other_end_at by (fastforce simp: claim_waits_def act_wire)

lemma rivals_act:
  assumes "nt_link w c = Some l" "pr_sent (nt_node w n) = []" "\<forall>b. e = Connected c b \<longrightarrow> \<not> at_end n l"
    and "rivals (act run env now e n w) c l"
  shows "rivals w c l \<or> (\<exists>k. at_end k l \<and> claim_waits (act run env now e n w) c k)"
proof (cases "at_end n l")
  case True
  let ?s' = "run env now e (nt_node w n)"
  have "primary ?s'" "live ?s' c" using assms(4) True by (auto simp: rivals_def act_node)
  then have "primary (nt_node w n) \<and> live (nt_node w n) c \<or> (\<exists>m. (c, m) \<in> set (pr_sent ?s') \<and> claim m)"
    using rises_loudly [OF assms(2) refl] assms(3) True by blast
  then consider "primary (nt_node w n)" "live (nt_node w n) c" | m where "(c, m) \<in> set (pr_sent ?s')" "claim m" by blast
  then show ?thesis
  proof cases
    case 1
    then show ?thesis using assms(4) by (auto simp: rivals_def act_node split: if_splits)
  next
    case 2
    then show ?thesis using sent_waits [OF assms(1) True] by blast
  qed
next
  case False
  then have "at_end k l \<Longrightarrow> nt_node (act run env now e n w) k = nt_node w k" for k by (auto simp: act_node)
  then show ?thesis using assms(4) by (simp add: rivals_def)
qed

lemma link_ok_act:
  assumes "nt_link w c = Some l" "pr_sent (nt_node w n) = []" "\<forall>b. e = Connected c b \<longrightarrow> \<not> at_end n l" "link_ok w c l"
  shows "link_ok (act run env now e n w) c l"
  using rivals_act [OF assms(1-3), of env now] assms(4) waits_act unfolding link_ok_def by blast

lemma link_ok_take:
  assumes "claim_waits w c k" "at_end k l" "ln_accepted l"
  shows "link_ok (act run env now e n w) c l"
  using assms(2,3) waits_act [OF assms(1), of run env now e n] by (auto simp: link_ok_def)

lemma link_ok_dial:
  assumes "nt_link w c = Some l" "pr_sent (nt_node w n) = []" "\<not> ln_accepted l" "n = ln_from l"
  shows "link_ok (act run env now (Connected c True) n w) c l"
  using says_hello [OF assms(2), of c env now] assms by (fastforce simp: link_ok_def claim_waits_def act_wire at_end_def other_end_def)

lemma link_ok_deliver:
  assumes "nt_link w c = Some l" "pr_sent (nt_node w n) = []" "at_end n l" "ln_accepted l" "live (nt_node w n) c"
    "nt_wire w c n = m # ms" "link_ok w c l"
  shows "link_ok (act run env now (Received c m) n (taken c n ms w)) c l"
proof -
  let ?t = "taken c n ms w" and ?w = "act run env now (Received c m) n (taken c n ms w)"
  have "\<exists>k. at_end k l \<and> claim_waits ?w c k" if r: "rivals ?w c l"
  proof (cases "claim m")
    case True
    have "\<exists>m'. (c, m') \<in> set (pr_sent (run env now (Received c m) (nt_node w n))) \<and> claim m'"
      using r assms(3) by (intro answers_claim [OF assms(2) refl True assms(5)]) (auto simp: rivals_def act_node)
    then show ?thesis using sent_waits [of ?t c l n _ env now "Received c m"] assms(1,3) by auto
  next
    case False
    have "claim_waits w c k \<Longrightarrow> claim_waits ?t c k" for k
      using assms(6) False by (auto simp: claim_waits_def taken_wire)
    then have keep: "claim_waits w c k \<Longrightarrow> claim_waits ?w c k" for k using waits_act by blast
    have "rivals ?t c l \<or> (\<exists>k. at_end k l \<and> claim_waits ?w c k)" using assms(1,2) r by (intro rivals_act) auto
    moreover have "rivals ?t c l = rivals w c l" by (simp add: rivals_def)
    ultimately show ?thesis using assms(4,7) keep unfolding link_ok_def by blast
  qed
  then show ?thesis using assms(4) by (simp add: link_ok_def)
qed

lemma net_inv_act:
  assumes "net_inv w" "\<forall>c b. e \<noteq> Connected c b"
  shows "net_inv (act run env now e n w)"
  using assms link_ok_act [of w _ _ n e env now] by (auto simp: net_inv_def act_node)

lemma net_inv_dial:
  assumes "net_inv w" "a \<noteq> b"
  shows "net_inv (act run env now (Connected (nt_next w) True) a (dialed a b w))"
proof -
  let ?c = "nt_next w" and ?w = "dialed a b w"
  have idle: "pr_sent (nt_node w k) = []" for k using assms by (simp add: net_inv_def)
  have "link_ok ?w c l" if "nt_link w c = Some l" for c l
    using assms that by (fastforce simp: net_inv_def link_ok_def claim_waits_def rivals_def dialed_def)
  then have "link_ok (act run env now (Connected ?c True) a ?w) c l" if "nt_link w c = Some l" for c l
    using that assms idle by (intro link_ok_act) (auto simp: net_inv_def dialed_def)
  then show ?thesis using assms idle link_ok_dial [of ?w ?c _ a env now]
    by (fastforce simp: net_inv_def act_node dialed_def less_Suc_eq)
qed

lemma net_inv_take:
  assumes "net_inv w" "nt_link w c = Some l" "\<not> ln_accepted l"
  shows "net_inv (act run env now (Connected c False) (ln_to l) (accepted c l w))"
proof -
  let ?w = "accepted c l w" and ?l = "l\<lparr>ln_accepted := True\<rparr>"
  have idle: "pr_sent (nt_node w k) = []" for k using assms(1) by (simp add: net_inv_def)
  have "claim_waits ?w c (ln_to l)" using assms by (auto simp: net_inv_def link_ok_def claim_waits_def)
  then have "link_ok (act run env now (Connected c False) (ln_to l) ?w) c ?l"
    by (intro link_ok_take) (auto simp: at_end_def)
  moreover have "link_ok (act run env now (Connected c False) (ln_to l) ?w) c' l'" if "nt_link w c' = Some l'" "c' \<noteq> c" for c' l'
    using that assms(1) idle
    by (intro link_ok_act) (auto simp: net_inv_def accepted_def link_ok_def claim_waits_def rivals_def)
  ultimately show ?thesis using assms idle by (auto simp: net_inv_def act_node accepted_def)
qed

lemma net_inv_deliver:
  assumes "net_inv w" "nt_link w c = Some l" "at_end n l" "ln_accepted l" "live (nt_node w n) c" "nt_wire w c n = m # ms"
  shows "net_inv (act run env now (Received c m) n (taken c n ms w))"
proof -
  let ?t = "taken c n ms w"
  have idle: "pr_sent (nt_node w k) = []" for k using assms(1) by (simp add: net_inv_def)
  have "link_ok (act run env now (Received c m) n ?t) c l"
    using assms idle by (intro link_ok_deliver) (auto simp: net_inv_def)
  moreover have "link_ok (act run env now (Received c m) n ?t) c' l'" if "nt_link w c' = Some l'" "c' \<noteq> c" for c' l'
    using that assms(1) idle
    by (intro link_ok_act) (auto simp: net_inv_def link_ok_def claim_waits_def rivals_def taken_wire)
  ultimately have "link_ok (act run env now (Received c m) n ?t) c' l'" if "nt_link w c' = Some l'" for c' l'
    using that assms(2) by (cases "c' = c") auto
  then show ?thesis using assms(1) idle by (simp add: net_inv_def act_node)
qed

lemma net_inv_step: "\<lbrakk>net_step run crashes w w'; net_inv w\<rbrakk> \<Longrightarrow> net_inv w'"
proof (induction rule: net_step.induct)
  case (tick n w e env now)
  then show ?case by (intro net_inv_act) (auto simp: timer_def)
next
  case (lose n w c env now)
  then show ?case by (intro net_inv_act) auto
next
  case (restart n w env addresses now)
  let ?w = "w\<lparr>nt_node := (nt_node w)(n := start_server env (new_Peers (pr_id (nt_node w n)) addresses now)), nt_up := insert n (nt_up w)\<rparr>"
  have "rivals w c l" if "rivals ?w c l" for c l
    using that by (auto simp: rivals_def live_def started split: if_splits)
  then show ?case using restart.prems by (auto simp: net_inv_def link_ok_def claim_waits_def started)
next
  case (dial a w b env now)
  then show ?case by (intro net_inv_dial)
next
  case (take w c l env now)
  then show ?case by (intro net_inv_take)
next
  case (deliver w c l n m ms env now)
  then show ?case by (intro net_inv_deliver)
qed (auto simp: net_inv_def link_ok_def claim_waits_def rivals_def cut_def split: option.splits if_splits)

text \<open>Without crashes there is always someone behind a claim.\<close>

lemma act_id [simp]: "pr_id (nt_node (act run env now e n w) k) = pr_id (nt_node w k)"
  by (simp add: act_node keeps_id)

lemma act_ids [simp]: "ids_of (act run env now e n w) = ids_of w"
  by (simp add: ids_of_def)

lemma backed_act:
  assumes "heard_truth w n e" "n \<in> nt_up w" "backed w x"
  shows "backed (act run env now e n w) x"
proof -
  obtain p where p: "p \<in> nt_up w" "primary (nt_node w p)" "pr_id (nt_node w p) \<le> x" using assms(3) by (auto simp: backed_def)
  show ?thesis
  proof (cases "p = n \<and> \<not> primary (run env now e (nt_node w n))")
    case True
    then obtain r m y where y: "e = Received r m" "boast m" "names m y" "y \<le> pr_id (nt_node w n)"
      using yields_to_less [of "nt_node w n" env now e] p(2) by auto
    then have "backed w y" "y < pr_id (nt_node w n)" using assms(1) by (force simp: heard_truth_def)+
    then obtain k where "k \<in> nt_up w" "primary (nt_node w k)" "pr_id (nt_node w k) < pr_id (nt_node w n)" by (auto simp: backed_def)
    then show ?thesis using True p(3) by (auto simp: backed_def act_node intro!: bexI [of _ k])
  next
    case False
    then show ?thesis using p by (auto simp: backed_def act_node keeps_id intro!: bexI [of _ p])
  qed
qed

lemma sender_backed:
  assumes "heard_truth w n e" "n \<in> nt_up w" "pr_sent (nt_node w n) = []"
    and "(c, m) \<in> set (pr_sent (run env now e (nt_node w n)))" "boast m"
  shows "backed (act run env now e n w) (pr_id (nt_node w n))"
proof -
  let ?s = "nt_node w n"
  consider "primary (run env now e ?s)" | "primary ?s" | q m y where "e = Received q m" "boast m" "names m y" "y \<le> pr_id ?s"
    using boasts_as_primary [OF assms(3) refl assms(4,5)] by blast
  then show ?thesis
  proof cases
    case 1
    then show ?thesis using assms(2) by (auto simp: backed_def act_node keeps_id intro!: bexI [of _ n])
  next
    case 2
    then have "backed w (pr_id ?s)" using assms(2) by (auto simp: backed_def)
    then show ?thesis by (rule backed_act [OF assms(1,2)])
  next
    case 3
    then have "backed w (pr_id ?s)" using assms(1) by (force simp: backed_def heard_truth_def)
    then show ?thesis by (rule backed_act [OF assms(1,2)])
  qed
qed

lemma honest_act:
  assumes "honest_inv w" "n \<in> nt_up w" "heard_truth w n e"
  shows "honest_inv (act run env now e n w)"
proof -
  let ?w = "act run env now e n w" and ?s = "nt_node w n"
  have inv: "links_inv w" "wires_inv w" "beliefs_inv w" using assms(1) by (simp_all add: honest_inv_def)
  have idle: "pr_sent ?s = []" using inv(1) by (simp add: links_inv_def)
  have "pr_sent (nt_node ?w k) = []" for k using inv(1) by (simp add: links_inv_def act_node)
  then have "links_inv ?w" using inv(1) by (simp add: links_inv_def)
  moreover have "x = pr_id (nt_node ?w (other_end k l)) \<and> (boast m \<longrightarrow> backed ?w x)"
    if l: "nt_link ?w c = Some l" "at_end k l" and m: "m \<in> set (nt_wire ?w c k)" "names m x" for c l k m x
  proof (cases "m \<in> set (nt_wire w c k)")
    case True
    then show ?thesis using inv(2) l m(2) backed_act [OF assms(3,2)] by (simp add: wires_inv_def)
  next
    case False
    then have new: "at_end n l" "k = other_end n l" "(c, m) \<in> set (pr_sent (run env now e ?s))" using m(1) l by (auto simp: act_wire)
    then have "other_end k l = n" using inv(1) l(1) by (intro other_other) (auto simp: links_inv_def)
    moreover have "x = pr_id ?s" using names_itself [OF idle new(3) m(2)] .
    ultimately show ?thesis using sender_backed [OF assms(3,2) idle new(3)] by simp
  qed
  then have "wires_inv ?w" unfolding wires_inv_def by blast
  moreover have "(knows (nt_node ?w k) r x \<longrightarrow> x \<in> ids_of ?w) \<and> (trusts (nt_node ?w k) r x \<longrightarrow> backed ?w x)" if "k \<in> nt_up w" for k r x
  proof (cases "k = n")
    case True
    have "knows (nt_node ?w k) r x \<Longrightarrow> x \<in> ids_of w"
      using True learns_names [of env now e ?s r x] inv(3) assms(2,3) by (auto simp: act_node beliefs_inv_def heard_truth_def)
    moreover have "trusts (nt_node ?w k) r x \<Longrightarrow> backed w x"
      using True learns_primary [of env now e ?s r x] inv(3) assms(2,3) by (auto simp: act_node beliefs_inv_def heard_truth_def)
    ultimately show ?thesis using backed_act [OF assms(3,2)] by simp
  next
    case False
    then show ?thesis using inv(3) that backed_act [OF assms(3,2)] by (simp add: act_node beliefs_inv_def)
  qed
  then have "beliefs_inv ?w" by (simp add: beliefs_inv_def)
  ultimately show ?thesis by (simp add: honest_inv_def)
qed

lemma heard_delivery:
  assumes "honest_inv w" "nt_link w c = Some l" "at_end n l" "m \<in> set (nt_wire w c n)"
  shows "heard_truth w n (Received q m)"
proof -
  let ?k = "other_end n l"
  have inv: "links_inv w" "wires_inv w" using assms(1) by (simp_all add: honest_inv_def)
  have k: "n \<in> nt_up w" "?k \<in> nt_up w" "n \<noteq> ?k" using inv(1) assms(2,3) by (auto simp: links_inv_def at_end_def other_end_def)
  then have "pr_id (nt_node w ?k) \<noteq> pr_id (nt_node w n)" using inv(1) by (auto simp: links_inv_def inj_on_def)
  moreover have "pr_id (nt_node w ?k) \<in> ids_of w" using k(2) by (simp add: ids_of_def)
  ultimately show ?thesis using inv(2) assms(2-4) unfolding heard_truth_def wires_inv_def by fastforce
qed

lemma backed_change: "\<lbrakk>nt_node w' = nt_node w; nt_up w' = nt_up w\<rbrakk> \<Longrightarrow> backed w' = backed w \<and> ids_of w' = ids_of w \<and> beliefs_inv w' = beliefs_inv w"
  by (simp add: fun_eq_iff backed_def ids_of_def beliefs_inv_def)

lemma honest_dialed: "\<lbrakk>honest_inv w; a \<in> nt_up w; b \<in> nt_up w; a \<noteq> b\<rbrakk> \<Longrightarrow> honest_inv (dialed a b w)"
  using backed_change [of "dialed a b w" w]
  by (fastforce simp: honest_inv_def links_inv_def wires_inv_def dialed_def less_Suc_eq split: if_splits)

lemma honest_accepted: "\<lbrakk>honest_inv w; nt_link w c = Some l\<rbrakk> \<Longrightarrow> honest_inv (accepted c l w)"
  using backed_change [of "accepted c l w" w]
  by (fastforce simp: honest_inv_def links_inv_def wires_inv_def accepted_def at_end_def other_end_def split: if_splits)

lemma honest_taken: "\<lbrakk>honest_inv w; nt_wire w c n = m # ms\<rbrakk> \<Longrightarrow> honest_inv (taken c n ms w)"
  using backed_change [of "taken c n ms w" w]
  by (fastforce simp: honest_inv_def links_inv_def wires_inv_def taken_wire split: if_splits)

lemma heard_nothing: "\<forall>q m. e \<noteq> Received q m \<Longrightarrow> heard_truth w n e"
  by (simp add: heard_truth_def)

lemma honest_step:
  "\<lbrakk>net_step run False w w'; honest_inv w\<rbrakk>
   \<Longrightarrow> honest_inv w' \<and> nt_up w' = nt_up w \<and> (\<forall>n. pr_id (nt_node w' n) = pr_id (nt_node w n)) \<and> (\<forall>x. backed w x \<longrightarrow> backed w' x)"
proof (induction rule: net_step.induct)
  case (tick n w e env now)
  then have "heard_truth w n e" by (auto simp: timer_def heard_nothing)
  then show ?case using tick honest_act backed_act by simp
next
  case (dial a w b env now)
  have "heard_truth (dialed a b w) a (Connected (nt_next w) True)" by (simp add: heard_nothing)
  moreover have "backed (dialed a b w) = backed w" using backed_change [of "dialed a b w" w] by simp
  ultimately show ?case using dial honest_dialed [of w a b] honest_act backed_act by simp
next
  case (take w c l env now)
  have "heard_truth (accepted c l w) (ln_to l) (Connected c False)" by (simp add: heard_nothing)
  moreover have "backed (accepted c l w) = backed w" using backed_change [of "accepted c l w" w] by simp
  ultimately show ?case using take honest_accepted [of w c l] honest_act backed_act by simp
next
  case (deliver w c l n m ms env now)
  have "heard_truth w n (Received c m)" using deliver by (intro heard_delivery) auto
  moreover have same: "backed (taken c n ms w) = backed w" "ids_of (taken c n ms w) = ids_of w"
    using backed_change [of "taken c n ms w" w] by simp_all
  ultimately have "heard_truth (taken c n ms w) n (Received c m)" by (simp add: heard_truth_def)
  then show ?case using deliver same honest_taken [of w c n m ms] honest_act backed_act by simp
next
  case (lose n w c env now)
  have "heard_truth w n (Lost c)" by (simp add: heard_nothing)
  then show ?case using lose honest_act backed_act by simp
next
  case (break_link w c l)
  let ?w = "w\<lparr>nt_link := (nt_link w)(c := None)\<rparr>"
  have "backed ?w = backed w" "beliefs_inv ?w = beliefs_inv w" using backed_change [of ?w w] by simp_all
  then show ?case using break_link.prems by (auto simp: honest_inv_def links_inv_def wires_inv_def split: if_splits)
qed simp_all

lemma honest_run:
  "\<lbrakk>net_run run False w w'; honest_inv w\<rbrakk>
   \<Longrightarrow> honest_inv w' \<and> nt_up w' = nt_up w \<and> (\<forall>n. pr_id (nt_node w' n) = pr_id (nt_node w n)) \<and> (\<forall>x. backed w x \<longrightarrow> backed w' x)"
  by (induction rule: net_run.induct) (auto dest: honest_step)

lemma net_inv_run: "\<lbrakk>net_run run crashes w w'; net_inv w\<rbrakk> \<Longrightarrow> net_inv w'"
  by (induction rule: net_run.induct) (auto intro: net_inv_step)

text \<open>The end of the grace time at the least coordinator.\<close>

lemma grace_backed:
  assumes "honest_inv w" "n \<in> nt_up w" "\<forall>k \<in> nt_up w. pr_id (nt_node w n) \<le> pr_id (nt_node w k)"
  shows "\<exists>x. backed (act run env now Grace_timer n w) x"
proof (cases "primary (run env now Grace_timer (nt_node w n))")
  case True
  then show ?thesis using assms(2) by (auto simp: backed_def act_node intro!: bexI [of _ n])
next
  case False
  then obtain r x where x: "knows (nt_node w n) r x" "trusts (nt_node w n) r x \<or> x < pr_id (nt_node w n)" using ends_grace by blast
  then have "x \<in> ids_of w" using assms(1,2) by (auto simp: honest_inv_def beliefs_inv_def)
  then have "\<not> x < pr_id (nt_node w n)" using assms(3) by (auto simp: ids_of_def)
  then have "backed w x" using x assms(1,2) by (auto simp: honest_inv_def beliefs_inv_def)
  then show ?thesis using backed_act [OF heard_nothing assms(2)] by blast
qed

end

end
