(* ===== verification/Agreement.thy ===== *)
theory Agreement
  imports Network
begin

text \<open>
  The handlers of \<^verbatim>\<open>src/CoordServ.cpp\<close> and \<^verbatim>\<open>src/PeerSession.cpp\<close> keep the contract that the network of coordinators relies
  on: the relation \<open>moves\<close>, closed under composition, holds for every operation and hence for every event. The theorems: on a
  connection on which no message waits, not both ends are primary; and as long as no coordinator crashes, there is a
  primary from the end of the least coordinator's grace time on.
\<close>

section \<open>The handlers keep the contract\<close>

text \<open>
  What a handler may do on the event \<open>e\<close>, closed under composition: it sends, it keeps its id, it becomes primary only with a
  claim to every live session, and it steps down and trusts only on a boast.
\<close>

definition told :: "event \<Rightarrow> int \<Rightarrow> bool" where
  "told e x \<longleftrightarrow> (\<exists>q m. e = Received q m \<and> boast m \<and> names m x)"

definition yield_to :: "event \<Rightarrow> int \<Rightarrow> bool" where
  "yield_to e i \<longleftrightarrow> (\<exists>x. told e x \<and> x \<le> i)"

definition fair_message :: "event \<Rightarrow> Peers \<Rightarrow> Message \<Rightarrow> bool" where
  "fair_message e s m \<longleftrightarrow> (\<forall>x. names m x \<longrightarrow> x = pr_id s) \<and> (boast m \<longrightarrow> primary s \<or> yield_to e (pr_id s))"

definition moves :: "event \<Rightarrow> Peers \<Rightarrow> Peers \<Rightarrow> bool" where
  "moves e s s' \<longleftrightarrow> pr_id s' = pr_id s
     \<and> set (pr_sent s) \<subseteq> set (pr_sent s')
     \<and> (\<forall>r. primary s' \<longrightarrow> live s' r \<longrightarrow> (\<forall>b. e \<noteq> Connected r b) \<longrightarrow> primary s \<and> live s r \<or> (\<exists>m. (r, m) \<in> set (pr_sent s') \<and> claim m))
     \<and> (\<forall>r m. (r, m) \<in> set (pr_sent s') \<longrightarrow> (r, m) \<in> set (pr_sent s) \<or> fair_message e s m \<or> fair_message e s' m)
     \<and> (primary s \<longrightarrow> \<not> primary s' \<longrightarrow> yield_to e (pr_id s))
     \<and> (\<forall>r x. knows s' r x \<longrightarrow> knows s r x \<or> (\<exists>m. e = Received r m \<and> names m x))
     \<and> (\<forall>r x. trusts s' r x \<longrightarrow> trusts s r x \<or> told e x)"

lemma moves_refl: "moves e s s"
  by (simp add: moves_def)

lemma movesD:
  assumes "moves e s s'"
  shows "pr_id s' = pr_id s" "x \<in> set (pr_sent s) \<Longrightarrow> x \<in> set (pr_sent s')"
    "\<lbrakk>primary s'; live s' r; \<forall>b. e \<noteq> Connected r b\<rbrakk> \<Longrightarrow> primary s \<and> live s r \<or> (\<exists>m. (r, m) \<in> set (pr_sent s') \<and> claim m)"
    "(r, m) \<in> set (pr_sent s') \<Longrightarrow> (r, m) \<in> set (pr_sent s) \<or> fair_message e s m \<or> fair_message e s' m"
    "\<lbrakk>primary s; \<not> primary s'\<rbrakk> \<Longrightarrow> yield_to e (pr_id s)"
    "knows s' r i \<Longrightarrow> knows s r i \<or> (\<exists>m. e = Received r m \<and> names m i)"
    "trusts s' r i \<Longrightarrow> trusts s r i \<or> told e i"
  using assms by (auto simp: moves_def)

lemma moves_trans:
  assumes st: "moves e s t" and tu: "moves e t u"
  shows "moves e s u"
proof -
  have yield: "primary t \<Longrightarrow> primary s \<or> primary u \<or> yield_to e (pr_id s)"
    using movesD(5) [OF tu] movesD(1) [OF st] by auto
  have "fair_message e t m \<Longrightarrow> fair_message e s m \<or> fair_message e u m" for m
    using yield movesD(1) [OF st] movesD(1) [OF tu] by (auto simp: fair_message_def)
  then have fair: "(r, m) \<in> set (pr_sent u) \<Longrightarrow> (r, m) \<in> set (pr_sent s) \<or> fair_message e s m \<or> fair_message e u m" for r m
    using movesD(4) [OF st, of r m] movesD(4) [OF tu, of r m] by blast
  have rise: "\<lbrakk>primary u; live u r; \<forall>b. e \<noteq> Connected r b\<rbrakk> \<Longrightarrow> primary s \<and> live s r \<or> (\<exists>m. (r, m) \<in> set (pr_sent u) \<and> claim m)" for r
    using movesD(3) [OF st, of r] movesD(3) [OF tu, of r] movesD(2) [OF tu] by metis
  have "pr_id u = pr_id s" "set (pr_sent s) \<subseteq> set (pr_sent u)" using movesD(1,2) [OF st] movesD(1,2) [OF tu] by auto
  moreover have "\<lbrakk>primary s; \<not> primary u\<rbrakk> \<Longrightarrow> yield_to e (pr_id s)"
    using movesD(1,5) [OF st] movesD(5) [OF tu] by fastforce
  moreover have "knows u r i \<Longrightarrow> knows s r i \<or> (\<exists>m. e = Received r m \<and> names m i)" "trusts u r i \<Longrightarrow> trusts s r i \<or> told e i" for r i
    using movesD(6,7) [OF st, of r i] movesD(6,7) [OF tu, of r i] by blast+
  ultimately show ?thesis using fair rise unfolding moves_def by simp
qed

text \<open>Fields that matter and operations that leave them alone.\<close>

lemma sent_raw: "(r, m) \<in> set (pr_sent (send_raw q m' s)) \<longleftrightarrow> (r, m) \<in> set (pr_sent s) \<or> r = q \<and> m = m' \<and> \<not> ps_closing_intentionally (pr_sessions s q)"
  by (auto simp: send_raw_def)

lemma sent_each:
  "(r, m) \<in> set (pr_sent (send_each m' rs s)) \<longleftrightarrow> (r, m) \<in> set (pr_sent s) \<or> r \<in> set rs \<and> m = m' \<and> \<not> ps_closing_intentionally (pr_sessions s r)"
  by (auto simp: send_each_sent)

lemma sent_announce:
  "(r, m) \<in> set (pr_sent (announce_coordinator s)) \<longleftrightarrow> (r, m) \<in> set (pr_sent s) \<or> live s r \<and> m = create_peer_coordinator (PPeerId (pr_id s))"
  by (auto simp: announce_coordinator_def sent_each open_peers_def live_def)

lemma frame_send [simp]:
  "live (send_raw q m s) = live s" "knows (send_raw q m s) = knows s" "trusts (send_raw q m s) = trusts s" "primary (send_raw q m s) = primary s"
  "live (send_each m rs s) = live s" "knows (send_each m rs s) = knows s" "trusts (send_each m rs s) = trusts s" "primary (send_each m rs s) = primary s"
  "live (update_serving_state env s) = live s" "knows (update_serving_state env s) = knows s"
  "trusts (update_serving_state env s) = trusts s" "primary (update_serving_state env s) = primary s"
  by (simp_all add: fun_eq_iff live_def knows_def trusts_def primary_def peer_simps)

lemma claim_messages [simp]:
  "claim (create_peer_coordinator (PPeerId i))" "claim (create_peer_hello_request (PHello h))"
  "claim (create_peer_hello_response (PHello h)) \<longleftrightarrow> hp_role h = 0"
  by (simp_all add: claim_def create_peer_coordinator_def create_peer_hello_request_def create_peer_hello_response_def mk_Message_def)

lemma message_content [simp]:
  "names (create_peer_coordinator (PPeerId i)) x \<longleftrightarrow> x = i" "boast (create_peer_coordinator p)"
  "names (create_peer_hello_request (PHello h)) x \<longleftrightarrow> x = hp_peer_id h" "names (create_peer_hello_response (PHello h)) x \<longleftrightarrow> x = hp_peer_id h"
  "boast (create_peer_hello_request (PHello h)) \<longleftrightarrow> hp_role h = 0" "boast (create_peer_hello_response (PHello h)) \<longleftrightarrow> hp_role h = 0"
  "\<not> names (create_peer_election p) x" "\<not> boast (create_peer_election p)" "\<not> names (create_peer_alive p) x" "\<not> boast (create_peer_alive p)"
  "\<not> names (create_peer_ping p) x" "\<not> boast (create_peer_ping p)"
  by (auto simp: names_def boast_def create_peer_coordinator_def create_peer_hello_request_def create_peer_hello_response_def
    create_peer_election_def create_peer_alive_def create_peer_ping_def mk_Message_def)

lemma moves_each: "fair_message e s m \<Longrightarrow> moves e s (send_each m rs s)"
  by (auto simp: moves_def sent_each peer_simps)

lemma moves_raw: "fair_message e s m \<Longrightarrow> moves e s (send_raw q m s)"
  by (auto simp: moves_def sent_raw peer_simps)

lemma moves_announce: "primary s \<Longrightarrow> moves e s (announce_coordinator s)"
  unfolding announce_coordinator_def by (rule moves_each) (simp add: fair_message_def)

text \<open>A change of fields that the contract does not mention, a session less, and a step down.\<close>

definition same_role :: "Peers \<Rightarrow> Peers \<Rightarrow> bool" where
  "same_role s s' \<longleftrightarrow> pr_id s' = pr_id s \<and> pr_sent s' = pr_sent s \<and> pr_peers s' = pr_peers s \<and> pr_sessions s' = pr_sessions s"

lemma moves_same: "\<lbrakk>same_role s s'; pr_role s' = pr_role s\<rbrakk> \<Longrightarrow> moves e s s'"
  by (simp add: moves_def same_role_def primary_def live_def knows_def trusts_def)

lemma moves_down: "\<lbrakk>same_role s s'; pr_role s' = Backup; yield_to e (pr_id s)\<rbrakk> \<Longrightarrow> moves e s s'"
  by (simp add: moves_def same_role_def primary_def live_def knows_def trusts_def)

lemma same_role_serving: "same_role s s' \<Longrightarrow> same_role s (update_serving_state env s')"
  by (simp add: same_role_def peer_simps)

lemma moves_up:
  assumes "same_role s s'" and "pr_role s' = Primary"
  shows "moves e s (announce_coordinator s')"
proof -
  have "primary (announce_coordinator s')" using assms(2) by (simp add: announce_coordinator_def primary_def peer_simps)
  moreover have "pr_id (announce_coordinator s') = pr_id s" "live (announce_coordinator s') = live s"
    "knows (announce_coordinator s') = knows s" "trusts (announce_coordinator s') = trusts s"
    using assms(1) by (simp_all add: announce_coordinator_def peer_simps same_role_def live_def knows_def trusts_def fun_eq_iff)
  ultimately show ?thesis using assms(1)
    by (auto simp: moves_def sent_announce same_role_def live_def fair_message_def)
qed

lemma in_set_remove1_imp: "x \<in> set (remove1 q xs) \<Longrightarrow> x \<in> set xs"
  using set_remove1_subset [of q xs] by auto

lemma moves_remove: "moves e s (remove_peer q s)"
  by (auto simp: moves_def remove_peer_def live_def knows_def trusts_def primary_def dest: in_set_remove1_imp)

lemma moves_close: "moves e s (upd_peer q close_intentionally s)"
  by (auto simp: moves_def upd_peer_def close_intentionally_def live_def knows_def trusts_def primary_def split: if_splits)

lemma moves_dedup: "moves e s (dedup r pid s)"
  by (auto simp: dedup_def intro: moves_refl moves_trans [OF moves_close moves_remove] split: list.split)

lemma moves_recompute: "moves e s (recompute_role env s)"
  by (auto simp: recompute_role_def intro!: moves_refl moves_up same_role_serving) (simp_all add: same_role_def peer_simps)

text \<open>The handlers.\<close>

lemma dedup_keeps [simp]: "pr_id (dedup r pid s) = pr_id s" "pr_role (dedup r pid s) = pr_role s"
  by (simp_all add: dedup_def remove_peer_def upd_peer_def split: list.split)

lemma moves_hello:
  assumes "ps_peer_id (pr_sessions s r) = Some pid" and "ps_peer_role (pr_sessions s r) = 0 \<Longrightarrow> told e pid"
  shows "moves e s (on_peer_hello env now r s)"
proof -
  let ?d = "dedup r pid s"
  have "moves e ?d (update_serving_state env (?d\<lparr>pr_role := Backup, pr_primary_alive := True, pr_last_primary_ping := now\<rparr>))"
    if "ps_peer_role (pr_sessions s r) = 0" "pid < pr_id ?d"
    using that assms(2) by (intro moves_down same_role_serving) (auto simp: same_role_def peer_simps yield_to_def intro: exI [of _ pid])
  then have "moves e ?d (on_peer_hello env now r s)"
    using assms(1) by (auto simp: on_peer_hello_def Let_def moves_refl moves_recompute primary_def intro!: moves_announce)
  then show ?thesis by (rule moves_trans [OF moves_dedup])
qed

lemma moves_set_peer:
  assumes "\<exists>m. e = Received r m \<and> names m i" and "role = 0 \<Longrightarrow> told e i"
  shows "moves e s (upd_peer r (\<lambda>p. p\<lparr>ps_peer_id := Some i, ps_peer_role := role\<rparr>) s)"
  using assms by (auto simp: moves_def upd_peer_def live_def knows_def trusts_def primary_def split: if_splits)

lemma fair_hello:
  "fair_message e s (create_peer_hello_request (PHello \<lparr>hp_peer_id = pr_id s, hp_role = role_code (pr_role s)\<rparr>))"
  "fair_message e s (create_peer_hello_response (PHello \<lparr>hp_peer_id = pr_id s, hp_role = role_code (pr_role s)\<rparr>))"
  by (simp_all add: fair_message_def role_code_def primary_def)

lemma moves_send_hello: "moves e s (send_hello r (pr_id s) (role_code (pr_role s)) t s)"
  using fair_hello [of e s] by (simp add: send_hello_def Let_def moves_raw)

lemma moves_handle_hello:
  assumes "msg_action m = PEER_HELLO"
  shows "moves (Received r m) s (handle_hello env now r m s)"
proof (cases "\<exists>h. msg_payload m = Some (PHello h)")
  case True
  then obtain h where h: "msg_payload m = Some (PHello h)" by blast
  let ?e = "Received r m" and ?s1 = "upd_peer r (\<lambda>p. p\<lparr>ps_peer_id := Some (hp_peer_id h), ps_peer_role := hp_role h\<rparr>) s"
  let ?s2 = "if msg_type m = REQUEST then send_hello r (pr_id ?s1) (role_code (pr_role ?s1)) RESPONSE ?s1 else ?s1"
  have n: "names m (hp_peer_id h)" "hp_role h = 0 \<Longrightarrow> boast m" using h assms by (auto simp: names_def boast_def)
  have "moves ?e s ?s1" using n by (intro moves_set_peer) (auto simp: told_def)
  moreover have "moves ?e ?s1 ?s2" using moves_send_hello moves_refl by simp
  ultimately have "moves ?e s ?s2" by (rule moves_trans)
  moreover have "pr_sessions ?s2 r = (pr_sessions s r)\<lparr>ps_peer_id := Some (hp_peer_id h), ps_peer_role := hp_role h\<rparr>"
    by (simp add: send_hello_def Let_def peer_simps) (simp add: upd_peer_def)
  then have "moves ?e ?s2 (on_peer_hello env now r ?s2)"
    using n by (intro moves_hello) (auto simp: told_def)
  ultimately have "moves ?e s (on_peer_hello env now r ?s2)" by (rule moves_trans)
  then show ?thesis using h by (simp add: handle_hello_def Let_def)
next
  case False
  then show ?thesis by (auto simp: handle_hello_def moves_refl split: option.split Payload.split)
qed

lemma moves_start_election: "moves e s (start_election s)"
proof -
  let ?t = "s\<lparr>pr_election_in_progress := True, pr_received_alive := False\<rparr>"
  have "moves e s ?t" by (intro moves_same) (simp_all add: same_role_def)
  moreover have "moves e ?t (send_election_to_lower_ids ?t)"
    unfolding send_election_to_lower_ids_def by (intro moves_each) (simp add: fair_message_def)
  ultimately have "moves e s (send_election_to_lower_ids ?t)" by (rule moves_trans)
  then show ?thesis by (simp add: start_election_def moves_refl)
qed

lemma moves_alive_to: "moves e s (send_alive_to i s)"
  by (auto simp: send_alive_to_def intro!: moves_refl moves_raw split: list.split) (simp add: fair_message_def)

lemma moves_election: "moves e s (on_peer_election i s)"
  by (auto simp: on_peer_election_def Let_def moves_alive_to intro: moves_refl moves_trans [OF moves_alive_to moves_start_election])

lemma moves_dead: "moves e s (on_primary_dead (s\<lparr>pr_primary_alive := False\<rparr>))"
proof -
  have "moves e s (s\<lparr>pr_primary_alive := False\<rparr>)" by (rule moves_same) (simp_all add: same_role_def)
  then show ?thesis unfolding on_primary_dead_def by (rule moves_trans [OF _ moves_start_election])
qed

lemma moves_coordinator:
  assumes "told e i"
  shows "moves e s (on_peer_coordinator env now i s)"
proof (cases "pr_role s = Primary \<and> i > pr_id s")
  case True
  then show ?thesis by (auto simp: on_peer_coordinator_def primary_def intro!: moves_announce)
next
  case False
  let ?t = "s\<lparr>pr_sessions := new_primary_roles i s\<rparr>"
  have yield: "pr_role s = Primary \<Longrightarrow> yield_to e (pr_id s)" using False assms by (auto simp: yield_to_def intro: exI [of _ i])
  have "moves e s ?t" using assms
    by (auto simp: moves_def live_def knows_def trusts_def primary_def new_primary_roles_def Let_def peer_id_or_def split: if_splits)
  moreover have "same_role ?t (on_peer_coordinator env now i s)" "pr_role (on_peer_coordinator env now i s) = Backup"
    using False by (auto simp: on_peer_coordinator_def same_role_def peer_simps)
  then have "moves e ?t (on_peer_coordinator env now i s)"
    using yield by (cases "pr_role s") (auto intro: moves_down moves_same)
  ultimately show ?thesis by (rule moves_trans)
qed

lemma moves_message: "moves (Received r m) s (peer_message env now r m s)"
proof (cases "msg_action m")
  case PEER_COORDINATOR
  then have "moves (Received r m) s (on_peer_coordinator env now i s)" if "msg_payload m = Some (PPeerId i)" for i
    using that by (intro moves_coordinator) (auto simp: told_def boast_def names_def)
  then show ?thesis using PEER_COORDINATOR by (auto simp: peer_message_def moves_refl split: option.split Payload.split)
next
  case PEER_HELLO
  then show ?thesis by (simp add: peer_message_def moves_handle_hello)
next
  case PEER_PING
  then show ?thesis by (simp add: peer_message_def on_primary_ping_def same_role_def moves_same)
next
  case PEER_ALIVE
  then show ?thesis by (auto simp: peer_message_def on_peer_alive_def same_role_def moves_refl intro!: moves_same split: option.split Payload.split)
qed (auto simp: peer_message_def moves_refl moves_election split: option.split Payload.split)

lemma moves_connected: "moves (Connected r b) s (connected r b s)"
proof -
  let ?t = "add_peer r (s\<lparr>pr_sessions := (pr_sessions s)(r := new_PeerSession b)\<rparr>)"
  have "moves (Connected r b) s ?t"
    by (auto simp: moves_def add_peer_def new_PeerSession_def live_def knows_def trusts_def primary_def split: if_splits)
  moreover have "moves (Connected r b) ?t (connected r b s)"
    by (simp add: connected_def Let_def moves_refl moves_send_hello)
  ultimately show ?thesis by (rule moves_trans)
qed

lemma moves_event: "moves e s (apply_event env now e s)"
proof (cases e)
  case Grace_timer
  have "moves e s (s\<lparr>pr_grace_expired := True\<rparr>)" by (rule moves_same) (simp_all add: same_role_def)
  then show ?thesis using Grace_timer moves_trans [OF _ moves_recompute] by (simp add: grace_over_def)
next
  case Heartbeat
  then show ?thesis by (auto simp: heartbeat_def send_ping_to_backups_def moves_refl fair_message_def intro!: moves_each)
next
  case Election_timer
  let ?t = "s\<lparr>pr_election_in_progress := False, pr_role := Primary, pr_primary_alive := True\<rparr>"
  have "moves e s (announce_coordinator (update_serving_state env ?t))"
    by (intro moves_up same_role_serving) (simp_all add: same_role_def peer_simps)
  moreover have "moves e s (s\<lparr>pr_election_in_progress := False\<rparr>)" by (rule moves_same) (simp_all add: same_role_def)
  ultimately show ?thesis using Election_timer by (simp add: election_timeout_def moves_refl)
next
  case (Lost r)
  then show ?thesis
    by (auto simp: read_error_def on_peer_disconnected_def Let_def moves_remove intro: moves_refl moves_trans [OF moves_remove moves_dead])
qed (simp_all add: moves_message moves_connected watch_primary_def moves_refl moves_dead)

lemma hello_answered:
  assumes "msg_payload m = Some (PHello h)" "msg_type m = REQUEST \<or> hp_role h = 0" "live s r"
    and "s' = handle_hello env now r m s" "primary s'" "live s' r" and move: "moves (Received r m) s s'"
  shows "\<exists>m'. (r, m') \<in> set (pr_sent s') \<and> claim m'"
proof (cases "primary s")
  case False
  then show ?thesis using movesD(3) [OF move assms(5,6)] by blast
next
  case True
  let ?s1 = "upd_peer r (\<lambda>p. p\<lparr>ps_peer_id := Some (hp_peer_id h), ps_peer_role := hp_role h\<rparr>) s"
  let ?s2 = "if msg_type m = REQUEST then send_hello r (pr_id ?s1) (role_code (pr_role ?s1)) RESPONSE ?s1 else ?s1"
  let ?d = "dedup r (hp_peer_id h) ?s2"
  have s': "s' = on_peer_hello env now r ?s2" using assms(1,4) by (simp add: handle_hello_def Let_def)
  have sess: "pr_sessions ?s2 r = (pr_sessions s r)\<lparr>ps_peer_id := Some (hp_peer_id h), ps_peer_role := hp_role h\<rparr>"
    by (simp add: send_hello_def Let_def peer_simps) (simp add: upd_peer_def)
  have role: "pr_role ?s2 = Primary" using True by (simp add: send_hello_def Let_def peer_simps) (simp add: upd_peer_def primary_def)
  show ?thesis
  proof (cases "msg_type m = REQUEST")
    case True
    have "role_code (pr_role ?s1) = 0" using \<open>primary s\<close> by (simp add: upd_peer_def primary_def role_code_def)
    moreover have "\<not> ps_closing_intentionally (pr_sessions ?s1 r)" using assms(3) by (simp add: live_def upd_peer_def)
    ultimately have "\<exists>m'. (r, m') \<in> set (pr_sent ?s2) \<and> claim m'"
      using True by (auto simp: send_hello_def Let_def sent_raw)
    moreover have "moves (Connected r True) ?s2 s'" if "hp_role h \<noteq> 0" unfolding s' using sess that by (intro moves_hello) auto
    moreover have "(r, m') \<in> set (pr_sent ?s2) \<Longrightarrow> (r, m') \<in> set (pr_sent s')" if "hp_role h = 0" for m'
      using movesD(2) [OF moves_dedup] sess that unfolding s'
      by (auto simp: on_peer_hello_def Let_def sent_announce peer_simps intro: movesD(2) [OF moves_recompute])
    ultimately show ?thesis using movesD(2) by blast
  next
    case False
    then have zero: "hp_role h = 0" using assms(2) by simp
    have d: "pr_role ?d = Primary" using role by simp
    have "s' = (if \<not> ps_open (pr_sessions ?d r) then ?d
       else if hp_peer_id h < pr_id ?d
       then update_serving_state env (?d\<lparr>pr_role := Backup, pr_primary_alive := True, pr_last_primary_ping := now\<rparr>)
       else announce_coordinator ?d)"
      unfolding s' using sess zero d by (simp add: on_peer_hello_def Let_def)
    then have "s' = announce_coordinator ?d" using assms(5,6) by (auto simp: primary_def live_def peer_simps split: if_splits)
    moreover have "live (announce_coordinator ?d) r = live ?d r" by (simp add: announce_coordinator_def)
    ultimately show ?thesis using assms(6) by (auto simp: sent_announce)
  qed
qed

lemma claim_answered:
  assumes "claim m" "live s r" "primary (peer_message env now r m s)" "live (peer_message env now r m s) r"
  shows "\<exists>m'. (r, m') \<in> set (pr_sent (peer_message env now r m s)) \<and> claim m'"
proof (cases "msg_action m = PEER_HELLO")
  case True
  then show ?thesis using assms hello_answered [OF _ _ assms(2), of m _ "peer_message env now r m s" env now] moves_message [of r m s env now]
    by (auto simp: claim_def peer_message_def)
next
  case False
  then obtain i where i: "peer_message env now r m s = on_peer_coordinator env now i s" using assms(1) by (auto simp: claim_def peer_message_def)
  then have "peer_message env now r m s = announce_coordinator s"
    using assms(3) by (auto simp: on_peer_coordinator_def primary_def peer_simps split: if_splits)
  then show ?thesis using assms(2) by (auto simp: sent_announce)
qed

lemma hello_sent: "\<exists>m. (r, m) \<in> set (pr_sent (connected r True s)) \<and> claim m"
  by (auto simp: connected_def Let_def send_hello_def sent_raw add_peer_def new_PeerSession_def)

lemma grace_ended: "\<not> primary (grace_over env s) \<Longrightarrow> \<exists>r x. knows s r x \<and> (trusts s r x \<or> x < pr_id s)"
  by (auto simp: grace_over_def recompute_role_def primary_def announce_coordinator_def peer_simps foldl_min_iff known_ids_def
      map_filter_def exists_primary_peer_def list_ex_iff knows_def trusts_def not_le split: if_splits)

interpretation coordinators: peer_contract apply_event
proof
  fix env now e s s' r m x
  note move = moves_event [of e s env now]
  show "pr_id (apply_event env now e s) = pr_id s" by (rule movesD(1) [OF move])
  show "primary s \<and> live s r \<or> (\<exists>m. (r, m) \<in> set (pr_sent s') \<and> claim m)"
    if "s' = apply_event env now e s" "primary s'" "live s' r" "\<forall>b. e \<noteq> Connected r b"
    using movesD(3) [OF move, of r] that by simp
  show "\<exists>m'. (r, m') \<in> set (pr_sent s') \<and> claim m'"
    if "s' = apply_event env now (Received r m) s" "claim m" "live s r" "primary s'" "live s' r"
    using claim_answered [of m s r env now] that by simp
  show "\<exists>m. (r, m) \<in> set (pr_sent (apply_event env now (Connected r True) s)) \<and> claim m" using hello_sent by simp
  show "x = pr_id s" if "pr_sent s = []" "(r, m) \<in> set (pr_sent (apply_event env now e s))" "names m x"
    using movesD(4) [OF move that(2)] that(1,3) movesD(1) [OF move] by (auto simp: fair_message_def)
  show "primary s \<or> primary s' \<or> (\<exists>q m x. e = Received q m \<and> boast m \<and> names m x \<and> x \<le> pr_id s)"
    if "pr_sent s = []" "s' = apply_event env now e s" "(r, m) \<in> set (pr_sent s')" "boast m"
    using movesD(4) [OF move, of r m] that movesD(1) [OF move] by (auto simp: fair_message_def yield_to_def told_def)
  show "\<exists>r m x. e = Received r m \<and> boast m \<and> names m x \<and> x \<le> pr_id s" if "primary s" "\<not> primary (apply_event env now e s)"
    using movesD(5) [OF move that] by (auto simp: yield_to_def told_def)
  show "knows s r x \<or> (\<exists>m. e = Received r m \<and> names m x)" if "knows (apply_event env now e s) r x"
    by (rule movesD(6) [OF move that])
  show "trusts s r x \<or> (\<exists>q m. e = Received q m \<and> boast m \<and> names m x)" if "trusts (apply_event env now e s) r x"
    using movesD(7) [OF move that] by (simp add: told_def)
  show "\<exists>r x. knows s r x \<and> (trusts s r x \<or> x < pr_id s)" if "\<not> primary (apply_event env now Grace_timer s)"
    using grace_ended that by simp
qed

section \<open>Runs from the start\<close>

lemma net_inv_start: "net_inv (net_start envs ids addresses now up)"
  by (simp add: net_inv_def net_start_def started)

lemma honest_start: "inj_on ids up \<Longrightarrow> honest_inv (net_start envs ids addresses now up)"
  by (simp add: honest_inv_def links_inv_def wires_inv_def beliefs_inv_def knows_def trusts_def net_start_def started inj_on_def)

lemma role_inv_sent [simp]: "role_inv (s\<lparr>pr_sent := x\<rparr>) \<longleftrightarrow> role_inv s"
  by (simp add: role_inv_def)

lemma role_inv_act: "\<forall>k. role_inv (nt_node w k) \<Longrightarrow> role_inv (nt_node (act apply_event env now e n w) k)"
  using role_inv_event [of "nt_node w n" env now e] by (simp add: act_node)

lemma roles_step: "\<lbrakk>net_step apply_event crashes w w'; \<forall>n. role_inv (nt_node w n)\<rbrakk> \<Longrightarrow> role_inv (nt_node w' n)"
  by (induction rule: net_step.induct) (simp_all add: role_inv_act role_inv_start)

lemma roles_run: "\<lbrakk>net_run apply_event crashes w w'; \<forall>n. role_inv (nt_node w n)\<rbrakk> \<Longrightarrow> \<forall>n. role_inv (nt_node w' n)"
  by (induction rule: net_run.induct) (auto intro: roles_step)

lemma roles_start: "role_inv (nt_node (net_start envs ids addresses now up) n)"
  by (simp add: net_start_def role_inv_start)

text \<open>Two coordinators with an accepted connection that is live at both ends and on which no message waits.\<close>

definition joined :: "net \<Rightarrow> nat \<Rightarrow> nat \<Rightarrow> bool" where
  "joined w a b \<longleftrightarrow> (\<exists>c l. nt_link w c = Some l \<and> ln_accepted l \<and> {a, b} = {ln_from l, ln_to l}
     \<and> (\<forall>n \<in> {a, b}. live (nt_node w n) c \<and> nt_wire w c n = []))"

definition settled :: "net \<Rightarrow> bool" where
  "settled w \<longleftrightarrow> (\<forall>a \<in> nt_up w. \<forall>b \<in> nt_up w. a \<noteq> b \<longrightarrow> joined w a b)"

lemma joined_not_both:
  assumes "net_inv w" "joined w a b"
  shows "\<not> (primary (nt_node w a) \<and> primary (nt_node w b))"
proof
  assume p: "primary (nt_node w a) \<and> primary (nt_node w b)"
  obtain c l where l: "nt_link w c = Some l" "ln_accepted l" "{a, b} = {ln_from l, ln_to l}"
      "\<forall>n \<in> {a, b}. live (nt_node w n) c \<and> nt_wire w c n = []"
    using assms(2) unfolding joined_def by blast
  then have ends: "at_end n l \<longleftrightarrow> n \<in> {a, b}" for n by (auto simp: at_end_def)
  have "rivals w c l" using l(4) p ends by (auto simp: rivals_def)
  then obtain n where "n \<in> {a, b}" "claim_waits w c n" using assms(1) l(1,2) ends unfolding net_inv_def link_ok_def by blast
  then show False using l(4) by (simp add: claim_waits_def)
qed

text \<open>
  The example: the coordinators 1 and 2; the first connects to the second, they say hello, the first becomes primary and
  announces it, and the second has read that.
\<close>

definition binds :: bind_env where "binds = (\<lambda>_. Port_ok, \<lambda>_. Port_ok)"

definition demo_dialed :: net where
  "demo_dialed = act apply_event binds 1 (Connected 0 True) 0 (dialed 0 1 (net_start (\<lambda>_. binds) (\<lambda>n. int n + 1) (\<lambda>_. 1) 0 {0, 1}))"

definition demo_accepted :: net where
  "demo_accepted = act apply_event binds 2 (Connected 0 False) 1 (accepted 0 \<lparr>ln_from = 0, ln_to = 1, ln_accepted = False\<rparr> demo_dialed)"

definition demo_read :: "nat \<Rightarrow> net \<Rightarrow> net" where
  "demo_read n w = act apply_event binds 3 (Received 0 (hd (nt_wire w 0 n))) n (taken 0 n (tl (nt_wire w 0 n)) w)"

definition demo_net :: net where
  "demo_net = demo_read 1 (demo_read 0 (demo_read 1 demo_accepted))"

definition demo_end :: net where
  "demo_end = act apply_event binds 9 Grace_timer 0 demo_net"

definition readable :: "nat \<Rightarrow> net \<Rightarrow> bool" where
  "readable n w \<longleftrightarrow> live (nt_node w n) 0 \<and> nt_wire w 0 n \<noteq> []"

lemma demo_facts:
  "readable 1 demo_accepted" "readable 0 (demo_read 1 demo_accepted)" "readable 1 (demo_read 0 (demo_read 1 demo_accepted))"
  "list_all (\<lambda>n. live (nt_node demo_net n) 0 \<and> nt_wire demo_net 0 n = []) [0, 1]" "pr_role (nt_node demo_net 0) = Primary"
  "list_all (\<lambda>n. live (nt_node demo_end n) 0 \<and> nt_wire demo_end 0 n = []) [0, 1]"
  by code_simp+

lemma demo_links: "nt_link demo_dialed 0 = Some \<lparr>ln_from = 0, ln_to = 1, ln_accepted = False\<rparr>" "nt_up demo_dialed = {0, 1}"
  by (simp_all add: demo_dialed_def net_start_def) (simp add: dialed_def)

lemma demo_links2:
  "nt_link demo_accepted 0 = Some \<lparr>ln_from = 0, ln_to = 1, ln_accepted = True\<rparr>" "nt_up demo_accepted = {0, 1}"
  "nt_link (demo_read n w) = nt_link w" "nt_up (demo_read n w) = nt_up w"
  using demo_links by (simp_all add: demo_accepted_def demo_read_def) (simp add: accepted_def)

lemma demo_step:
  assumes "readable n w" "nt_link w 0 = Some \<lparr>ln_from = 0, ln_to = 1, ln_accepted = True\<rparr>" "nt_up w = {0, 1}" "n \<in> {0, 1}"
  shows "net_step apply_event crashes w (demo_read n w)"
  unfolding demo_read_def using assms by (intro net_step.deliver [OF assms(2)]) (auto simp: readable_def at_end_def)

lemma demo_run: "net_run apply_event crashes (net_start (\<lambda>_. binds) (\<lambda>n. int n + 1) (\<lambda>_. 1) 0 {0, 1}) demo_net"
proof -
  let ?w = "net_start (\<lambda>_. binds) (\<lambda>n. int n + 1) (\<lambda>_. 1) 0 {0, 1}"
  have "net_step apply_event crashes ?w demo_dialed"
    using net_step.dial [of 0 ?w 1 apply_event crashes binds 1] by (simp add: demo_dialed_def net_start_def)
  moreover have "net_step apply_event crashes demo_dialed demo_accepted"
    unfolding demo_accepted_def using net_step.take [OF demo_links(1), of apply_event crashes binds 2] demo_links(2) by simp
  ultimately have "net_run apply_event crashes ?w demo_accepted" by (blast intro: net_run.intros)
  then have "net_run apply_event crashes ?w (demo_read 1 demo_accepted)"
    by (rule net_run.go) (rule demo_step [OF demo_facts(1)], simp_all add: demo_links2)
  then have "net_run apply_event crashes ?w (demo_read 0 (demo_read 1 demo_accepted))"
    by (rule net_run.go) (rule demo_step [OF demo_facts(2)], simp_all add: demo_links2)
  then show ?thesis unfolding demo_net_def by (rule net_run.go) (rule demo_step [OF demo_facts(3)], simp_all add: demo_links2)
qed

lemma demo_joined: "joined demo_net 0 1" "settled demo_end"
  using demo_facts(4,6) by (auto simp: joined_def settled_def demo_end_def demo_net_def demo_links2 intro!: exI [of _ 0])

section \<open>Properties\<close>

text \<open>
  C16. No split brain once the messages are read: in every run of the coordinators, with connections made and lost, timers in
  any order, crashes and restarts, two coordinators joined by a connection on which no message waits are not both primary,
  and do not both serve workers and clients.
\<close>

theorem joined_not_both_primary:
  assumes "net_run apply_event True (net_start envs ids addresses now up) w" and "joined w a b"
  shows "\<not> (pr_role (nt_node w a) = Primary \<and> pr_role (nt_node w b) = Primary)
    \<and> \<not> (pr_serving (nt_node w a) \<and> pr_serving (nt_node w b))"
proof -
  have "net_inv w" using assms(1) net_inv_start by (rule coordinators.net_inv_run)
  moreover have "role_inv (nt_node w n)" for n using roles_run [OF assms(1)] roles_start by blast
  ultimately show ?thesis using joined_not_both [OF _ assms(2)] by (auto simp: primary_def role_inv_def)
qed

theorem joined_not_both_primary_witness:
  "joined demo_net 0 1 \<and> pr_role (nt_node demo_net 0) = Primary \<and> pr_role (nt_node demo_net 1) \<noteq> Primary"
  using joined_not_both_primary [OF demo_run demo_joined(1)] demo_joined(1) demo_facts(5) by simp

text \<open>
  C17. A primary from the end of the grace time on. In every run without crashes of coordinators with different ids, once the
  grace timer has fired at the one with the smallest id there is a primary at every later moment, whatever connections are
  made or lost and whatever elections are held; and when every two coordinators are joined and all messages are read,
  there is exactly one, and no other coordinator serves.
\<close>

theorem primary_from_grace_on:
  assumes "net_run apply_event False (net_start envs ids addresses now up) w"
    and "inj_on ids up" and "n \<in> up" and "\<forall>k \<in> up. ids n \<le> ids k"
    and "net_run apply_event False (act apply_event env t Grace_timer n w) w'"
  shows "(\<exists>p \<in> up. pr_role (nt_node w' p) = Primary)
    \<and> (settled w' \<longrightarrow> (\<exists>!p. p \<in> up \<and> pr_role (nt_node w' p) = Primary)
         \<and> (\<forall>p \<in> up. pr_serving (nt_node w' p) \<longrightarrow> pr_role (nt_node w' p) = Primary))"
proof -
  let ?w0 = "net_start envs ids addresses now up" and ?w1 = "act apply_event env t Grace_timer n w"
  have up: "nt_up w = up" "honest_inv w" "pr_id (nt_node w k) = ids k" for k
    using coordinators.honest_run [OF assms(1) honest_start [OF assms(2)]] by (simp_all add: net_start_def started)
  have step: "net_step apply_event False w ?w1" using up assms(3) by (intro net_step.tick) (auto simp: timer_def)
  have one: "honest_inv ?w1" using coordinators.honest_step [OF step up(2)] by blast
  obtain x where "backed ?w1 x" using coordinators.grace_backed [OF up(2), of n env t] up assms(3,4) by auto
  then have "backed w' x" "nt_up w' = up" using coordinators.honest_run [OF assms(5) one] up(1) by auto
  then have ex: "\<exists>p \<in> up. pr_role (nt_node w' p) = Primary" by (auto simp: backed_def primary_def)
  have "net_inv w" by (rule coordinators.net_inv_run [OF assms(1) net_inv_start])
  then have "net_inv w'" using coordinators.net_inv_run [OF assms(5)] coordinators.net_inv_step [OF step] by blast
  then have "settled w' \<Longrightarrow> \<exists>!p. p \<in> up \<and> pr_role (nt_node w' p) = Primary"
    using ex joined_not_both [of w'] \<open>nt_up w' = up\<close> by (auto simp: settled_def primary_def)
  moreover have "\<forall>k. role_inv (nt_node w k)" using roles_run [OF assms(1)] roles_start by blast
  then have "\<forall>k. role_inv (nt_node w' k)" using roles_step [OF step] roles_run [OF assms(5)] by blast
  ultimately show ?thesis using ex by (auto simp: role_inv_def)
qed

theorem primary_from_grace_on_witness:
  "settled demo_end \<and> (\<exists>!p. p \<in> {0, 1} \<and> pr_role (nt_node demo_end p) = Primary)"
proof -
  have "net_run apply_event False (act apply_event binds 9 Grace_timer 0 demo_net) demo_end" unfolding demo_end_def by (rule net_run.stop)
  then show ?thesis using primary_from_grace_on [OF demo_run, of 0 binds 9 demo_end] demo_joined(2) by (auto simp: inj_on_def)
qed

end
