(* ===== verification/Client.thy ===== *)
theory Client
  imports Server
begin

text \<open>
  The client program and the start of the three programs: \<^verbatim>\<open>src/main.cpp\<close> and \<^verbatim>\<open>src/client.cpp\<close> (options,
  addresses, the request, the loop over the coordinators, the printed result), \<^verbatim>\<open>src/coord_config.cpp\<close> and
  \<^verbatim>\<open>src/worker_config.cpp\<close> (the checks of the options), and the loop in which a worker connects.

  The option parser is a library: \<open>cli_options\<close> holds the variables it has filled. The network is a
  parameter that says what comes back from an address. The theorems say which addresses and options are
  accepted, that the client ends exactly when some coordinator gives it a result, and what becomes of its
  request on the server.
\<close>

section \<open>Addresses\<close>

text \<open>\<open>host:port\<close>, split at the first colon, as every program does it.\<close>

definition split_address :: "string \<Rightarrow> (string \<times> string) option" where
  "split_address addr = map_option (\<lambda>pos. (take pos addr, drop (pos + 1) addr)) (find_char CHR '':'' addr)"

record Endpoint =
  ep_host :: string
  ep_port :: int

definition parse_server :: "string \<Rightarrow> Endpoint res" where
  "parse_server addr =
     (case split_address addr of
        None \<Rightarrow> Inl (Runtime_error ''Server must be host:port'')
      | Some (host, port_str) \<Rightarrow>
          bindR (stoi port_str) (\<lambda>port.
          if port \<le> 0 \<or> 65535 < port then Inl (Runtime_error ''Port must be in range 1..65535'')
          else Inr \<lparr>ep_host = host, ep_port = port\<rparr>))"

section \<open>Options\<close>

record ClientConfig =
  cc_coordinator_addresses :: "string list"
  cc_cipher :: CipherType
  cc_mode :: VigenereMode
  cc_key_length :: int
  cc_noise :: dbl
  cc_encrypted_data :: string
  cc_output_file :: string

record cli_options =
  cl_cipher :: CipherType
  cl_mode :: VigenereMode
  cl_mode_count :: nat
  cl_input_text :: string
  cl_input_file :: string
  cl_output_file :: string
  cl_key_length :: int
  cl_noise :: dbl
  cl_servers :: "string list"

text \<open>A file that can be opened is read whole.\<close>

definition read_file_binary :: "files \<Rightarrow> string \<Rightarrow> string res" where
  "read_file_binary fs path =
     (case fs path of None \<Rightarrow> Inl (Runtime_error (''Cannot open file: '' @ path)) | Some bytes \<Rightarrow> Inr bytes)"

text \<open>\<^verbatim>\<open>ExitCodes::ValidationError\<close> of the option parser.\<close>

definition VALIDATION_ERROR :: int where "VALIDATION_ERROR = 105"

text \<open>\<^verbatim>\<open>run\<close> after the options are parsed. The output file of the options is not handed on.\<close>

definition client_config :: "files \<Rightarrow> cli_options \<Rightarrow> ClientConfig res" where
  "client_config fs opt =
     (if cl_cipher opt = VIGENERE \<and> cl_mode_count opt = 0
      then Inl (Cli_error VALIDATION_ERROR)
      else if cl_key_length opt \<noteq> - 1 \<and> (7 \<le> cl_key_length opt \<or> cl_key_length opt < 0)
      then Inl (Runtime_error ''key-length must be in range 1..6'')
      else bindR (if cl_input_file opt \<noteq> [] then read_file_binary fs (cl_input_file opt) else Inr (cl_input_text opt)) (\<lambda>bytes.
      if cl_servers opt = [] then Inl (Runtime_error ''at least one server address required'')
      else bindR (sequenceR (map parse_server (cl_servers opt))) (\<lambda>eps.
      Inr \<lparr>cc_coordinator_addresses = cl_servers opt, cc_cipher = cl_cipher opt, cc_mode = cl_mode opt,
           cc_key_length = cl_key_length opt, cc_noise = cl_noise opt, cc_encrypted_data = bytes,
           cc_output_file = []\<rparr>)))"

record CoordinatorConfig =
  co_client_port :: int
  co_worker_port :: int
  co_id :: int
  co_peer_port :: int
  co_peer_addresses :: "string list"
  co_checkpoint_path :: string

text \<open>\<^verbatim>\<open>parse_coordinator_config\<close>: the checks on what the options gave.\<close>

definition port_ok :: "int \<Rightarrow> bool" where
  "port_ok p \<longleftrightarrow> \<not> (p < 0 \<or> 65535 < p)"

definition coordinator_config :: "CoordinatorConfig \<Rightarrow> CoordinatorConfig res" where
  "coordinator_config c =
     (if \<not> port_ok (co_client_port c) then Inl (Runtime_error ''client-port must be in range 0..65535'')
      else if \<not> port_ok (co_worker_port c) then Inl (Runtime_error ''coordinator-port must be in range 0..65535'')
      else if \<not> port_ok (co_peer_port c) then Inl (Runtime_error ''peer-port must be in range 0..65535'')
      else if co_id c \<le> 0 then Inl (Runtime_error ''id must be positive'')
      else Inr c)"

text \<open>
  A port on its way from the options (\<^verbatim>\<open>int\<close>) through the server's constructor (\<^verbatim>\<open>short\<close>) to the endpoint
  (\<^verbatim>\<open>unsigned short\<close>).
\<close>

definition to_short :: "int \<Rightarrow> int" where
  "to_short p = (p + 32768) mod 65536 - 32768"

definition endpoint_port :: "int \<Rightarrow> int" where
  "endpoint_port p = to_short p mod 65536"

record WorkerConfig =
  wc_coordinator_addresses :: "string list"
  wc_dict_path :: string
  wc_trigrams_path :: string

definition worker_config :: "WorkerConfig \<Rightarrow> WorkerConfig res" where
  "worker_config c =
     (if wc_coordinator_addresses c = [] then Inl (Runtime_error ''at least one coordinator address required'') else Inr c)"

section \<open>The client\<close>

definition build_request :: "ClientConfig \<Rightarrow> Message" where
  "build_request cfg = create_decrypt_request (PDecrypt
     \<lparr>dp_cipher = cc_cipher cfg, dp_mode = cc_mode cfg, dp_cipher_text = cc_encrypted_data cfg, dp_noise = cc_noise cfg,
      dp_start_key = [char_of (0::nat)], dp_end_key = [char_of (25::nat)], dp_key_length = cc_key_length cfg\<rparr>)"

text \<open>What is written to a stream: strings, integers, doubles in the default and in the fixed format.\<close>

datatype token = Out_str string | Out_int int | Out_dbl dbl | Out_fixed nat dbl

definition time_line :: "int \<Rightarrow> token list res" where
  "time_line duration_ms =
     (let t = dbl_of_int duration_ms / dbl_of_int 1000 in
      bindR (dbl_to_int (t / dbl_of_int 3600)) (\<lambda>hours.
      bindR (chk_int (hours * 3600)) (\<lambda>hs.
      bindR (dbl_to_int ((t - dbl_of_int hs) / dbl_of_int 60)) (\<lambda>minutes.
      bindR (chk_int (minutes * 60)) (\<lambda>ms.
      let secs = t - dbl_of_int hs - dbl_of_int ms
      in Inr (if hours > 0 then [Out_str ''Time:  '', Out_int hours, Out_str ''h '', Out_int minutes, Out_str ''min '', Out_fixed 1 secs, Out_str ''s'']
              else if minutes > 0 then [Out_str ''Time:  '', Out_int minutes, Out_str ''min '', Out_fixed 1 secs, Out_str ''s'']
              else [Out_str ''Time:  '', Out_fixed 2 t, Out_str ''s'']))))))"

text \<open>The lines that show a result; the same go to the output file without their frame.\<close>

definition result_lines :: "StatusPayload \<Rightarrow> token list list" where
  "result_lines p = [[Out_str (st_cipher_text p)], [Out_str ''Key:   '', Out_str (st_key p)], [Out_str ''Score: '', Out_dbl (st_score p)]]"

record printed =
  pd_done :: bool
  pd_lines :: "token list list"
  pd_file :: "(string \<times> token list list) option"

definition print_response :: "(string \<Rightarrow> string) \<Rightarrow> (json \<Rightarrow> string res) \<Rightarrow> Message \<Rightarrow> printed res" where
  "print_response b64 dump m =
     bindR (bindR (message_to_json b64 m) dump) (\<lambda>str.
     Inr \<lparr>pd_done = False, pd_lines = [[Out_str ''Server responded:''], [Out_str str]], pd_file = None\<rparr>)"

definition print_result ::
    "(string \<Rightarrow> string) \<Rightarrow> (json \<Rightarrow> string res) \<Rightarrow> (string \<Rightarrow> bool) \<Rightarrow> Message \<Rightarrow> ClientConfig \<Rightarrow> int \<Rightarrow> printed res" where
  "print_result b64 dump can_open m cfg duration_ms =
     (if msg_type m \<noteq> RESPONSE \<or> msg_action m \<noteq> STATUS then print_response b64 dump m
      else case msg_payload m of
        Some (PStatus p) \<Rightarrow>
          bindR (time_line duration_ms) (\<lambda>tl.
          let opened = (cc_output_file cfg \<noteq> [] \<and> can_open (cc_output_file cfg))
          in Inr \<lparr>pd_done = True,
               pd_lines = [[], [Out_str ''===== BEST RESULT =====''], [Out_str (st_cipher_text p)], [Out_str ''====================''],
                   [Out_str ''Key:   '', Out_str (st_key p)], [Out_str ''Score: '', Out_dbl (st_score p)], tl, [Out_str ''=======================''] ]
                 @ (if opened then [[Out_str ''Result saved to '', Out_str (cc_output_file cfg)]] else []),
               pd_file = (if opened then Some (cc_output_file cfg, result_lines p) else None)\<rparr>)
      | _ \<Rightarrow> print_response b64 dump m)"

text \<open>
  One address in a round. \<open>net\<close> says, for a host, a port and the request, whether the request was sent and
  what happened then: the answer with the time since the start, or an exception.
\<close>

type_synonym network = "string \<Rightarrow> string \<Rightarrow> Message \<Rightarrow> bool \<times> (Message \<times> int) res"

definition attempt ::
    "(string \<Rightarrow> string) \<Rightarrow> (json \<Rightarrow> string res) \<Rightarrow> (string \<Rightarrow> bool) \<Rightarrow> network \<Rightarrow> ClientConfig \<Rightarrow> string
     \<Rightarrow> (bool \<times> printed option) res" where
  "attempt b64 dump can_open net cfg address =
     (case split_address address of
        None \<Rightarrow> Inr (False, None)
      | Some (host, port_str) \<Rightarrow>
          (let (sent, r) = net host port_str (build_request cfg)
           in case bindR r (\<lambda>(m, ms). print_result b64 dump can_open m cfg ms) of
                Inl e \<Rightarrow> if is_exception e then Inr (sent, None) else Inl e
              | Inr pd \<Rightarrow> Inr (sent, if pd_done pd then Some pd else None)))"

text \<open>A round over the addresses; the flag says whether the request was sent in it.\<close>

fun client_round :: "(string \<Rightarrow> (bool \<times> printed option) res) \<Rightarrow> string list \<Rightarrow> bool \<Rightarrow> (bool \<times> printed option) res" where
  "client_round att [] sent_this_round = Inr (sent_this_round, None)"
| "client_round att (a # as) sent_this_round =
     bindR (att a) (\<lambda>(sent, r).
     case r of Some pd \<Rightarrow> Inr (True, Some pd) | None \<Rightarrow> client_round att as (sent_this_round \<or> sent))"

text \<open>\<^verbatim>\<open>run_client\<close>, at most \<open>n\<close> rounds from round \<open>k\<close> on; \<open>None\<close> is still looking.\<close>

fun run_client ::
    "(string \<Rightarrow> string) \<Rightarrow> (json \<Rightarrow> string res) \<Rightarrow> (string \<Rightarrow> bool) \<Rightarrow> (nat \<Rightarrow> network) \<Rightarrow> ClientConfig \<Rightarrow> nat \<Rightarrow> nat
     \<Rightarrow> printed option res" where
  "run_client b64 dump can_open nets cfg 0 k = Inr None"
| "run_client b64 dump can_open nets cfg (Suc n) k =
     bindR (client_round (attempt b64 dump can_open (nets k) cfg) (cc_coordinator_addresses cfg) False) (\<lambda>(sent, r).
     case r of Some pd \<Rightarrow> Inr (Some pd) | None \<Rightarrow> run_client b64 dump can_open nets cfg n (k + 1))"

section \<open>The worker's connection\<close>

text \<open>
  \<^verbatim>\<open>Worker::run\<close> on the messages of a connection, up to its end: the answers in order. Any exception ends
  the connection.
\<close>

fun worker_run ::
    "(Worker \<Rightarrow> Message \<Rightarrow> (Worker \<times> Message option) res) \<Rightarrow> Message list \<Rightarrow> Worker \<Rightarrow> (Worker \<times> Message list) res" where
  "worker_run handle [] wk = Inr (wk, [])"
| "worker_run handle (m # ms) wk =
     (case handle wk m of
        Inl e \<Rightarrow> if is_exception e then Inr (wk, []) else Inl e
      | Inr (wk', a) \<Rightarrow>
          mapR (\<lambda>(wk'', as). (wk'', (case a of None \<Rightarrow> as | Some x \<Rightarrow> x # as))) (worker_run handle ms wk'))"

text \<open>
  One round of \<^verbatim>\<open>Worker::connect\<close>: the first coordinator that accepts is served until the connection ends.
  \<open>net\<close> gives the messages of a connection, \<open>None\<close> if it cannot be made.
\<close>

fun connect_round ::
    "(Worker \<Rightarrow> Message \<Rightarrow> (Worker \<times> Message option) res) \<Rightarrow> (string \<Rightarrow> string \<Rightarrow> Message list option) \<Rightarrow> string list \<Rightarrow> Worker
     \<Rightarrow> (bool \<times> Worker \<times> Message list) res" where
  "connect_round handle net [] wk = Inr (False, wk, [])"
| "connect_round handle net (a # as) wk =
     (case split_address a of
        None \<Rightarrow> connect_round handle net as wk
      | Some (host, port_str) \<Rightarrow>
          (case net host port_str of
             None \<Rightarrow> connect_round handle net as wk
           | Some ms \<Rightarrow> mapR (\<lambda>(wk', answers). (True, wk', answers)) (worker_run handle ms wk)))"

section \<open>Lemmas\<close>

lemma split_address_colon:
  assumes "CHR '':'' \<notin> set host"
  shows "split_address (host @ CHR '':'' # rest) = Some (host, rest)"
proof -
  have "find_char CHR '':'' (host @ CHR '':'' # rest) = Some (length host)"
    using assms by (induction host) auto
  then show ?thesis by (simp add: split_address_def)
qed

lemma split_address_Some:
  assumes "split_address a = Some (host, rest)"
  shows "a = host @ CHR '':'' # rest \<and> CHR '':'' \<notin> set host"
proof -
  obtain n where n: "find_char CHR '':'' a = Some n" "host = take n a" "rest = drop (n + 1) a"
    using assms by (auto simp: split_address_def)
  then show ?thesis using find_char_Some [OF n(1)] id_take_nth_drop [of n a] by auto
qed

lemma parse_server_Inr:
  assumes "parse_server a = Inr ep"
  shows "1 \<le> ep_port ep \<and> ep_port ep \<le> 65535
    \<and> (\<exists>rest. a = ep_host ep @ CHR '':'' # rest \<and> CHR '':'' \<notin> set (ep_host ep) \<and> stoi rest = Inr (ep_port ep))"
proof -
  obtain host rest where hr: "split_address a = Some (host, rest)"
    using assms by (auto simp: parse_server_def split: option.splits)
  then show ?thesis
    using assms split_address_Some [OF hr] by (auto simp: parse_server_def bindR_eq_Inr split: if_splits)
qed

lemma sequenceR_eq_Inr: "sequenceR xs = Inr ys \<longleftrightarrow> list_all2 (\<lambda>x y. x = Inr y) xs ys"
proof (induction xs arbitrary: ys)
  case (Cons x xs)
  then show ?case by (cases ys) (auto simp: bindR_eq_Inr)
qed auto

lemma client_config_Inr:
  assumes "client_config fs opt = Inr cfg"
  shows "cc_cipher cfg = cl_cipher opt" "cc_mode cfg = cl_mode opt" "cc_key_length cfg = cl_key_length opt"
    "cc_coordinator_addresses cfg = cl_servers opt" "cc_output_file cfg = []" "cl_servers opt \<noteq> []"
    "cc_key_length cfg = - 1 \<or> 0 \<le> cc_key_length cfg \<and> cc_key_length cfg \<le> 6"
    "cl_cipher opt = VIGENERE \<Longrightarrow> 0 < cl_mode_count opt"
    "\<exists>eps. list_all2 (\<lambda>a e. parse_server a = Inr e) (cl_servers opt) eps"
  using assms by (auto simp: client_config_def bindR_eq_Inr sequenceR_eq_Inr list.rel_map split: if_splits)

section \<open>Properties\<close>

text \<open>
  C36. A server address is accepted exactly when it has a colon and what follows the first one starts with a
  number between 1 and 65535; the host is the part before it. In particular every address that is written
  as a host without a colon, a colon and a port is read back as that host and port.
\<close>

theorem parse_server_roundtrip:
  "(parse_server a = Inr ep \<longleftrightarrow> 1 \<le> ep_port ep \<and> ep_port ep \<le> 65535
      \<and> (\<exists>rest. a = ep_host ep @ CHR '':'' # rest \<and> CHR '':'' \<notin> set (ep_host ep) \<and> stoi rest = Inr (ep_port ep)))
   \<and> (CHR '':'' \<notin> set host \<longrightarrow> 1 \<le> port \<longrightarrow> port \<le> 65535 \<longrightarrow>
        parse_server (host @ CHR '':'' # to_string port) = Inr \<lparr>ep_host = host, ep_port = port\<rparr>)"
proof -
  have "parse_server a = Inr ep" if "1 \<le> ep_port ep" "ep_port ep \<le> 65535" "a = ep_host ep @ CHR '':'' # rest"
    "CHR '':'' \<notin> set (ep_host ep)" "stoi rest = Inr (ep_port ep)" for rest
    using that by (cases ep) (simp add: parse_server_def split_address_colon)
  moreover have "parse_server (host @ CHR '':'' # to_string port) = Inr \<lparr>ep_host = host, ep_port = port\<rparr>"
    if "CHR '':'' \<notin> set host" "1 \<le> port" "port \<le> 65535"
  proof -
    have "int_ok port" using that by (intro int_okI) auto
    then show ?thesis using that by (simp add: parse_server_def split_address_colon stoi_to_string)
  qed
  ultimately show ?thesis using parse_server_Inr by blast
qed

theorem parse_server_roundtrip_witness:
  "parse_server (''localhost'' @ CHR '':'' # to_string 5001) = Inr \<lparr>ep_host = ''localhost'', ep_port = 5001\<rparr>"
  using parse_server_roundtrip [of "[]" undefined "''localhost''" 5001] by simp

text \<open>
  C37. A Vigenere request that the client program accepts with a given key length reaches the server with that
  key length, and the server searches exactly the 26 to that power keys, which an \<^verbatim>\<open>int\<close> holds; without one
  (the option left out, or 0) the server guesses it.
\<close>

theorem client_key_length_honoured:
  assumes "client_config fs opt = Inr cfg" "cl_cipher opt = VIGENERE"
  shows "\<exists>p. msg_payload (build_request cfg) = Some (PDecrypt p) \<and> dp_cipher p = VIGENERE
    \<and> (if 1 \<le> cl_key_length opt
       then choose_key_length srt (dp_cipher_text p) (dp_key_length p) = Inr (cl_key_length opt)
         \<and> key_space (cl_key_length opt) = Inr (26 ^ nat (cl_key_length opt)) \<and> int_ok (26 ^ nat (cl_key_length opt))
       else choose_key_length srt (dp_cipher_text p) (dp_key_length p)
         = mapR int (guessKeyLength srt (dp_cipher_text p) 2 7))"
proof -
  note c = client_config_Inr [OF assms(1)]
  have "key_space k = Inr (26 ^ nat k) \<and> int_ok (26 ^ nat k)" if "1 \<le> k" "k \<le> 6" for k :: int
  proof -
    have "k \<in> {1, 2, 3, 4, 5, 6}" unfolding insert_iff empty_iff using that by presburger
    then have "int_ok (26 ^ nat k)" by (auto intro!: int_okI)
    then show ?thesis by (simp add: key_space_def dbl_to_int_of_int)
  qed
  then show ?thesis using c assms(2)
    by (auto simp: build_request_def create_decrypt_request_def mk_Message_def choose_key_length_def)
qed

theorem client_key_length_honoured_witness:
  "\<exists>cfg. client_config Map.empty \<lparr>cl_cipher = VIGENERE, cl_mode = FAST, cl_mode_count = 1, cl_input_text = ''LXFOPV'',
      cl_input_file = [], cl_output_file = [], cl_key_length = 5, cl_noise = 0, cl_servers = [''a:1'']\<rparr> = Inr cfg
    \<and> (\<exists>p. msg_payload (build_request cfg) = Some (PDecrypt p) \<and>
        choose_key_length stable_desc (dp_cipher_text p) (dp_key_length p) = Inr 5)"
proof -
  let ?opt = "\<lparr>cl_cipher = VIGENERE, cl_mode = FAST, cl_mode_count = 1, cl_input_text = ''LXFOPV'',
      cl_input_file = [], cl_output_file = [], cl_key_length = 5, cl_noise = 0, cl_servers = [''a:1'']\<rparr>"
  have "parse_server ''a:1'' = Inr \<lparr>ep_host = ''a'', ep_port = 1\<rparr>" by code_simp
  then obtain cfg where cfg: "client_config Map.empty ?opt = Inr cfg" by (auto simp: client_config_def)
  show ?thesis using client_key_length_honoured [OF cfg, of stable_desc] cfg by auto
qed

text \<open>
  A request for the XOR cipher, which the client program offers, is never answered: the server accepts it,
  changes neither its task nor its workers and sends nothing, so the client waits for a result that does not
  come.
\<close>

theorem xor_request_unanswered:
  assumes "client_config fs opt = Inr cfg" "cl_cipher opt = CIPHER_XOR"
  shows "\<exists>s'. client_read srt parse junk (Inr (build_request cfg)) now s = Some (Inr s')
    \<and> sv_sent s' = sv_sent s \<and> sv_coordinator s' = sv_coordinator s \<and> sv_workers s' = sv_workers s"
  using assms client_config_Inr(1) [OF assms(1)]
  by (simp add: client_read_def handle_task_request_def build_request_def create_decrypt_request_def mk_Message_def
    handle_task_def)

theorem xor_request_unanswered_witness:
  "\<exists>cfg s'. client_config Map.empty \<lparr>cl_cipher = CIPHER_XOR, cl_mode = BRUTE, cl_mode_count = 0, cl_input_text = ''abc'',
      cl_input_file = [], cl_output_file = [], cl_key_length = - 1, cl_noise = 0, cl_servers = [''a:1'']\<rparr> = Inr cfg
    \<and> client_read stable_desc (\<lambda>x. Inr JNull) 0 (Inr (build_request cfg)) 0 (new_Server ''cp'' Map.empty) = Some (Inr s')
    \<and> sv_sent s' = []"
proof -
  let ?opt = "\<lparr>cl_cipher = CIPHER_XOR, cl_mode = BRUTE, cl_mode_count = 0, cl_input_text = ''abc'',
      cl_input_file = [], cl_output_file = [], cl_key_length = - 1, cl_noise = 0, cl_servers = [''a:1'']\<rparr>"
  have "parse_server ''a:1'' = Inr \<lparr>ep_host = ''a'', ep_port = 1\<rparr>" by code_simp
  then obtain cfg where cfg: "client_config Map.empty ?opt = Inr cfg" by (auto simp: client_config_def)
  show ?thesis
    using xor_request_unanswered [OF cfg, of stable_desc "\<lambda>x. Inr JNull" 0 0 "new_Server ''cp'' Map.empty"] cfg
    by (auto simp: new_Server_def)
qed

text \<open>The results that a round over the addresses can end with.\<close>

definition answers :: "(string \<Rightarrow> (bool \<times> printed option) res) \<Rightarrow> string list \<Rightarrow> printed set" where
  "answers att as = {pd. \<exists>a\<in>set as. \<exists>sent. att a = Inr (sent, Some pd)}"

lemma client_round_answers:
  assumes "\<forall>a\<in>set as. \<forall>e. att a \<noteq> Inl e"
  shows "\<exists>b r. client_round att as flag = Inr (b, r) \<and> (case r of None \<Rightarrow> answers att as = {} | Some pd \<Rightarrow> pd \<in> answers att as)"
  using assms
proof (induction as arbitrary: flag)
  case Nil
  then show ?case by (simp add: answers_def)
next
  case (Cons a as)
  obtain sent r where a: "att a = Inr (sent, r)" using Cons.prems by (cases "att a") auto
  obtain b r' where r': "client_round att as (flag \<or> sent) = Inr (b, r')"
    "case r' of None \<Rightarrow> answers att as = {} | Some pd \<Rightarrow> pd \<in> answers att as"
    using Cons.IH [of "flag \<or> sent"] Cons.prems by auto
  show ?case
  proof (cases r)
    case None
    then have "answers att (a # as) = answers att as" using a by (auto simp: answers_def)
    then show ?thesis using a None r' by (cases r') simp_all
  next
    case (Some pd)
    then show ?thesis using a by (auto simp: answers_def)
  qed
qed

lemma attempt_answer:
  assumes "attempt b64 dump can_open net cfg a = Inr (sent, Some pd)"
  shows "\<exists>host port p ms s tl. split_address a = Some (host, port)
    \<and> net host port (build_request cfg) = (s, Inr (create_status_response (PStatus p), ms))
    \<and> pd_done pd \<and> [Out_str ''Key:   '', Out_str (st_key p)] \<in> set (pd_lines pd)"
proof -
  obtain host port where hp: "split_address a = Some (host, port)"
    using assms by (auto simp: attempt_def split: option.splits)
  obtain m ms where net: "net host port (build_request cfg) = (sent, Inr (m, ms))"
    and pd: "print_result b64 dump can_open m cfg ms = Inr pd" "pd_done pd"
    using assms hp by (auto simp: attempt_def bindR_eq_Inr split: prod.splits sum.splits if_splits)
  then have "msg_type m = RESPONSE" "msg_action m = STATUS"
    by (auto simp: print_result_def print_response_def bindR_eq_Inr split: if_splits)
  moreover obtain p where p: "msg_payload m = Some (PStatus p)"
    using pd by (auto simp: print_result_def print_response_def bindR_eq_Inr split: if_splits option.splits Payload.splits)
  moreover have "[Out_str ''Key:   '', Out_str (st_key p)] \<in> set (pd_lines pd)"
    using pd p by (auto simp: print_result_def print_response_def bindR_eq_Inr Let_def split: if_splits)
  ultimately show ?thesis using hp net pd(2) by (cases m) (auto simp: create_status_response_def mk_Message_def)
qed

lemma run_client_answers:
  assumes "\<forall>j. k \<le> j \<and> j < k + n \<longrightarrow> (\<forall>a\<in>set (cc_coordinator_addresses cfg). \<forall>e. attempt b64 dump can_open (nets j) cfg a \<noteq> Inl e)"
  shows "\<exists>r. run_client b64 dump can_open nets cfg n k = Inr r
    \<and> (case r of
         None \<Rightarrow> (\<forall>j. k \<le> j \<and> j < k + n \<longrightarrow> answers (attempt b64 dump can_open (nets j) cfg) (cc_coordinator_addresses cfg) = {})
       | Some pd \<Rightarrow> (\<exists>j. k \<le> j \<and> j < k + n \<and> pd \<in> answers (attempt b64 dump can_open (nets j) cfg) (cc_coordinator_addresses cfg)))"
  using assms
proof (induction n arbitrary: k)
  case (Suc n)
  let ?att = "attempt b64 dump can_open (nets k) cfg" and ?as = "cc_coordinator_addresses cfg"
  obtain b r where r: "client_round ?att ?as False = Inr (b, r)"
    "case r of None \<Rightarrow> answers ?att ?as = {} | Some pd \<Rightarrow> pd \<in> answers ?att ?as"
    using client_round_answers [of ?as ?att False] Suc.prems by auto
  show ?case
  proof (cases r)
    case (Some pd)
    then show ?thesis using r by (auto intro!: exI [of _ k])
  next
    case None
    have "\<forall>j. k + 1 \<le> j \<and> j < k + 1 + n \<longrightarrow> (\<forall>a\<in>set ?as. \<forall>e. attempt b64 dump can_open (nets j) cfg a \<noteq> Inl e)"
      using Suc.prems by simp
    from Suc.IH [OF this] obtain q where q: "run_client b64 dump can_open nets cfg n (k + 1) = Inr q"
      "case q of
         None \<Rightarrow> (\<forall>j. k + 1 \<le> j \<and> j < k + 1 + n \<longrightarrow> answers (attempt b64 dump can_open (nets j) cfg) ?as = {})
       | Some pd \<Rightarrow> (\<exists>j. k + 1 \<le> j \<and> j < k + 1 + n \<and> pd \<in> answers (attempt b64 dump can_open (nets j) cfg) ?as)" by blast
    have k: "answers ?att ?as = {}" using None r by simp
    show ?thesis
    proof (cases q)
      case None
      have "k \<le> j \<and> j < k + Suc n \<longleftrightarrow> j = k \<or> k + 1 \<le> j \<and> j < k + 1 + n" for j by auto
      then show ?thesis using None \<open>r = None\<close> r(1) q k by auto
    next
      case (Some pd)
      then obtain j where j: "k + 1 \<le> j \<and> j < k + 1 + n" "pd \<in> answers (attempt b64 dump can_open (nets j) cfg) ?as"
        using q(2) by auto
      then have "k \<le> j \<and> j < k + Suc n" by simp
      then show ?thesis using Some \<open>r = None\<close> r(1) q(1) j(2) by auto
    qed
  qed
qed auto

text \<open>
  As long as no attempt ends the client's process, the client ends within \<open>n\<close> rounds exactly when in one of
  them one of its coordinators answers with a STATUS response; it then shows the result of such an answer.
  Otherwise it is still looking.
\<close>

theorem client_ends_iff_answered:
  fixes cfg nets n b64 dump can_open
  assumes "\<forall>j<n. \<forall>a\<in>set (cc_coordinator_addresses cfg). \<forall>e. attempt b64 dump can_open (nets j) cfg a \<noteq> Inl e"
  defines "found \<equiv> \<lambda>j pd. \<exists>a\<in>set (cc_coordinator_addresses cfg). \<exists>sent. attempt b64 dump can_open (nets j) cfg a = Inr (sent, Some pd)"
  shows "\<exists>r. run_client b64 dump can_open nets cfg n 0 = Inr r
    \<and> (r \<noteq> None \<longleftrightarrow> (\<exists>j<n. \<exists>pd. found j pd))
    \<and> (\<forall>pd. r = Some pd \<longrightarrow> (\<exists>j<n. found j pd
         \<and> (\<exists>host port p ms s. nets j host port (build_request cfg) = (s, Inr (create_status_response (PStatus p), ms))
              \<and> [Out_str ''Key:   '', Out_str (st_key p)] \<in> set (pd_lines pd))))"
proof -
  have f: "found j pd \<longleftrightarrow> pd \<in> answers (attempt b64 dump can_open (nets j) cfg) (cc_coordinator_addresses cfg)" for j pd
    by (simp add: found_def answers_def)
  obtain r where r: "run_client b64 dump can_open nets cfg n 0 = Inr r"
    "case r of None \<Rightarrow> (\<forall>j<n. \<forall>pd. \<not> found j pd) | Some pd \<Rightarrow> (\<exists>j<n. found j pd)"
    using run_client_answers [of 0 n cfg b64 dump can_open nets] assms(1) by (auto simp: f split: option.splits)
  have "\<exists>host port p ms s. nets j host port (build_request cfg) = (s, Inr (create_status_response (PStatus p), ms))
      \<and> [Out_str ''Key:   '', Out_str (st_key p)] \<in> set (pd_lines pd)" if "found j pd" for j pd
    using that attempt_answer unfolding found_def by fast
  then show ?thesis using r by (cases r) fastforce+
qed

text \<open>The first coordinator cannot be reached; the second answers in the second round.\<close>

definition demo_answer :: Message where
  "demo_answer = create_status_response (PStatus (new_StatusPayload 0 CAESAR ''Hello'' ''D'' 1))"

definition demo_net :: "nat \<Rightarrow> network" where
  "demo_net j host port m =
     (if host = ''b'' \<and> 0 < j then (True, Inr (demo_answer, 4000)) else (False, Inl (System_error ''Connection refused'')))"

definition demo_config :: ClientConfig where
  "demo_config = \<lparr>cc_coordinator_addresses = [''a:1'', ''b:2''], cc_cipher = CAESAR, cc_mode = BRUTE, cc_key_length = - 1,
     cc_noise = 0, cc_encrypted_data = ''Khoor'', cc_output_file = []\<rparr>"

lemma demo_attempt:
  "\<exists>pd. attempt id (\<lambda>j. Inr []) (\<lambda>f. True) (demo_net j) demo_config a =
     Inr (if a = ''b:2'' \<and> 0 < j then (True, Some pd) else (False, None))"
  if "a \<in> {''a:1'', ''b:2''}"
proof -
  have "\<not> isl (time_line 4000)" by code_simp
  then obtain tl where "time_line 4000 = Inr tl" by (cases "time_line 4000") auto
  then show ?thesis
    using that by (auto simp: attempt_def split_address_def demo_net_def print_result_def demo_answer_def
      create_status_response_def mk_Message_def Let_def demo_config_def)
qed

theorem client_ends_iff_answered_witness:
  "\<exists>pd. run_client id (\<lambda>j. Inr []) (\<lambda>f. True) demo_net demo_config 2 0 = Inr (Some pd)"
proof -
  have as: "set (cc_coordinator_addresses demo_config) = {''a:1'', ''b:2''}" by (simp add: demo_config_def)
  have "\<exists>pd. attempt id (\<lambda>j. Inr []) (\<lambda>f. True) (demo_net 1) demo_config ''b:2'' = Inr (True, Some pd)"
    using demo_attempt [of "''b:2''" 1] by simp
  moreover have "\<forall>j<2. \<forall>a\<in>set (cc_coordinator_addresses demo_config). \<forall>e.
      attempt id (\<lambda>j. Inr []) (\<lambda>f. True) (demo_net j) demo_config a \<noteq> Inl e"
    using demo_attempt unfolding as by (metis Inl_Inr_False)
  ultimately show ?thesis
    using client_ends_iff_answered [of 2 demo_config id "\<lambda>j. Inr []" "\<lambda>f. True" demo_net] unfolding as by fastforce
qed

text \<open>
  Whatever output file the user names, the configuration has none: the option is read and then dropped, so
  the client writes no file.
\<close>

theorem output_file_dropped:
  assumes "client_config fs opt = Inr cfg" "print_result b64 dump can_open m cfg ms = Inr pd"
  shows "pd_file pd = None"
  using assms client_config_Inr(5) [OF assms(1)]
  by (auto simp: print_result_def print_response_def bindR_eq_Inr Let_def split: if_splits option.splits Payload.splits)

theorem output_file_dropped_witness:
  "\<exists>cfg pd. client_config Map.empty \<lparr>cl_cipher = CAESAR, cl_mode = BRUTE, cl_mode_count = 0, cl_input_text = ''Khoor'',
      cl_input_file = [], cl_output_file = ''out.txt'', cl_key_length = - 1, cl_noise = 0, cl_servers = [''a:1'']\<rparr> = Inr cfg
    \<and> print_result id (\<lambda>j. Inr []) (\<lambda>f. True) demo_answer cfg 4000 = Inr pd \<and> pd_file pd = None"
proof -
  let ?opt = "\<lparr>cl_cipher = CAESAR, cl_mode = BRUTE, cl_mode_count = 0, cl_input_text = ''Khoor'',
      cl_input_file = [], cl_output_file = ''out.txt'', cl_key_length = - 1, cl_noise = 0, cl_servers = [''a:1'']\<rparr>"
  have "parse_server ''a:1'' = Inr \<lparr>ep_host = ''a'', ep_port = 1\<rparr>" by code_simp
  then obtain cfg where cfg: "client_config Map.empty ?opt = Inr cfg" by (auto simp: client_config_def)
  have "\<not> isl (time_line 4000)" by code_simp
  then obtain pd where pd: "print_result id (\<lambda>j. Inr []) (\<lambda>f. True) demo_answer cfg 4000 = Inr pd"
    by (cases "time_line 4000") (auto simp: print_result_def demo_answer_def create_status_response_def mk_Message_def Let_def)
  show ?thesis using cfg pd output_file_dropped [OF cfg pd] by blast
qed

text \<open>
  Every port that the coordinator's options accept is the port it listens on, although it passes through a
  signed 16-bit parameter.
\<close>

theorem ports_survive_short:
  assumes "coordinator_config c = Inr c'"
  shows "endpoint_port (co_worker_port c') = co_worker_port c \<and> endpoint_port (co_client_port c') = co_client_port c
    \<and> endpoint_port (co_peer_port c') = co_peer_port c \<and> 0 < co_id c'"
proof -
  have "endpoint_port p = p" if "port_ok p" for p
  proof -
    have "endpoint_port p = p mod 65536"
      unfolding endpoint_port_def to_short_def by (simp add: mod_diff_left_eq)
    then show ?thesis using that by (simp add: port_ok_def)
  qed
  then show ?thesis using assms by (auto simp: coordinator_config_def split: if_splits)
qed

theorem ports_survive_short_witness:
  "endpoint_port 50001 = 50001"
  using ports_survive_short [of "\<lparr>co_client_port = 50001, co_worker_port = 50002, co_id = 1, co_peer_port = 50003,
    co_peer_addresses = [], co_checkpoint_path = ''c''\<rparr>"] by (simp add: coordinator_config_def port_ok_def)

end
