(* ===== verification/Programs.thy ===== *)
theory Programs
  imports Client Election
begin

text \<open>
  The three programs from their options on: \<^verbatim>\<open>main\<close> of \<^verbatim>\<open>src/main.cpp\<close> (client), \<^verbatim>\<open>src/run_coord.cpp\<close> (coordinator) and
  \<^verbatim>\<open>src/main_worker.cpp\<close> (worker), with the variables of the options before they are parsed. The option parser is a library:
  a parameter that fills the variables or throws \<^verbatim>\<open>CLI::ParseError\<close>. The theorem gives the exit status of the client.
\<close>

section \<open>Ends of a program\<close>

text \<open>A program returns from \<^verbatim>\<open>main\<close>, is ended by the system, or is still running.\<close>

datatype outcome = Exit int | Crash cpp_error | Running

text \<open>The handlers around the body of each \<^verbatim>\<open>main\<close>.\<close>

definition failed :: "cpp_error \<Rightarrow> outcome" where
  "failed e = (case e of Cli_error code \<Rightarrow> Exit code | _ \<Rightarrow> if is_exception e then Exit 1 else Crash e)"

section \<open>The client\<close>

text \<open>The variables of \<^verbatim>\<open>run\<close>; \<^verbatim>\<open>cipher\<close> has no initial value, and the parser requires the option.\<close>

definition client_defaults :: "CipherType \<Rightarrow> cli_options" where
  "client_defaults junk = \<lparr>cl_cipher = junk, cl_mode = BRUTE, cl_mode_count = 0, cl_input_text = [], cl_input_file = [],
     cl_output_file = [], cl_key_length = - 1, cl_noise = dbl_lit 1 2, cl_servers = []\<rparr>"

text \<open>\<^verbatim>\<open>main\<close>, with at most \<open>n\<close> rounds over the coordinators.\<close>

definition client_main ::
    "(cli_options \<Rightarrow> cli_options res) \<Rightarrow> CipherType \<Rightarrow> files \<Rightarrow> (string \<Rightarrow> string) \<Rightarrow> (json \<Rightarrow> string res) \<Rightarrow> (string \<Rightarrow> bool)
     \<Rightarrow> (nat \<Rightarrow> network) \<Rightarrow> nat \<Rightarrow> outcome" where
  "client_main cli junk fs b64 dump can_open nets n =
     (case bindR (cli (client_defaults junk)) (client_config fs) of
        Inl e \<Rightarrow> failed e
      | Inr cfg \<Rightarrow>
          (case run_client b64 dump can_open nets cfg n 0 of
             Inl e \<Rightarrow> Crash e
           | Inr None \<Rightarrow> Running
           | Inr (Some pd) \<Rightarrow> Exit 0))"

section \<open>The coordinator and the worker\<close>

definition coordinator_defaults :: CoordinatorConfig where
  "coordinator_defaults = \<lparr>co_client_port = 0, co_worker_port = 0, co_id = 0, co_peer_port = 0, co_peer_addresses = [],
     co_checkpoint_path = ''coordinator_checkpoint.json''\<rparr>"

text \<open>
  The coordinator up to \<^verbatim>\<open>io.run\<close>: the constructor binds the peer port (\<open>can_bind\<close>, which throws otherwise) and \<^verbatim>\<open>start\<close>
  decides the role if there are no peers.
\<close>

definition coord_main ::
    "(CoordinatorConfig \<Rightarrow> CoordinatorConfig res) \<Rightarrow> (int \<Rightarrow> bool) \<Rightarrow> bind_env \<Rightarrow> int \<Rightarrow> outcome + (Peers \<times> string)" where
  "coord_main cli can_bind env now =
     (case bindR (cli coordinator_defaults) coordinator_config of
        Inl e \<Rightarrow> Inl (failed e)
      | Inr cfg \<Rightarrow>
          if \<not> can_bind (endpoint_port (co_peer_port cfg)) then Inl (failed (System_error ''bind''))
          else Inr (start_server env (new_Peers (co_id cfg) (length (co_peer_addresses cfg)) now), co_checkpoint_path cfg))"

definition worker_defaults :: WorkerConfig where
  "worker_defaults = \<lparr>wc_coordinator_addresses = [], wc_dict_path = [], wc_trigrams_path = []\<rparr>"

text \<open>The worker with the content of its two files at the time they are read; \<open>trigrams\<close> is the second one as it is parsed.\<close>

definition worker_main ::
    "(WorkerConfig \<Rightarrow> WorkerConfig res) \<Rightarrow> files \<Rightarrow> (string \<Rightarrow> (string \<times> dbl) list option) \<Rightarrow> outcome + (Worker \<times> string list)" where
  "worker_main cli fs trigrams =
     (case bindR (cli worker_defaults) worker_config of
        Inl e \<Rightarrow> Inl (failed e)
      | Inr cfg \<Rightarrow> Inr (new_Worker (fs (wc_dict_path cfg)) (trigrams (wc_trigrams_path cfg)), wc_coordinator_addresses cfg))"

section \<open>Lemmas\<close>

lemma failed_simps [simp]: "failed (Cli_error code) = Exit code" "failed (Runtime_error x) = Exit 1" "failed (System_error x) = Exit 1"
  "failed Invalid_argument = Exit 1" "failed Out_of_range = Exit 1"
  by (simp_all add: failed_def)

lemma stoi_error: "stoi s = Inl e \<Longrightarrow> e = Invalid_argument \<or> e = Out_of_range"
  by (auto simp: stoi_def Let_def split: if_splits prod.splits option.splits)

lemma sequenceR_eq_Inl: "sequenceR xs = Inl e \<Longrightarrow> Inl e \<in> set xs"
  by (induction xs) (auto simp: bindR_eq_Inl)

lemma parse_server_error: "parse_server a = Inl e \<Longrightarrow> failed e = Exit 1"
  by (auto simp: parse_server_def bindR_eq_Inl dest!: stoi_error split: option.splits prod.splits if_splits)

lemma config_rejected:
  assumes "client_config fs opt = Inl e"
  shows "failed e = Exit (if cl_cipher opt = VIGENERE \<and> cl_mode_count opt = 0 then VALIDATION_ERROR else 1)"
proof -
  have "failed x = Exit 1" if "sequenceR (map parse_server as) = Inl x" for x as
    using sequenceR_eq_Inl [OF that] parse_server_error by (auto simp: in_set_conv_nth)
  then show ?thesis using assms
    by (auto simp: client_config_def bindR_eq_Inl read_file_binary_def split: if_splits option.splits)
qed

text \<open>A coordinator that starts has the positive id of its options, and without peers it is primary at once.\<close>

lemma coord_started:
  assumes "coord_main cli can_bind env now = Inr (s, path)"
  shows "\<exists>cfg. cli coordinator_defaults = Inr cfg \<and> pr_id s = co_id cfg \<and> 1 \<le> pr_id s \<and> role_inv s
    \<and> (co_peer_addresses cfg = [] \<longrightarrow> pr_role s = Primary)"
proof -
  obtain cfg where cfg: "cli coordinator_defaults = Inr cfg" "1 \<le> co_id cfg"
    and s: "s = start_server env (new_Peers (co_id cfg) (length (co_peer_addresses cfg)) now)"
    using assms by (fastforce simp: coord_main_def bindR_eq_Inr coordinator_config_def split: sum.splits if_splits)
  have "pr_id s = co_id cfg \<and> (co_peer_addresses cfg = [] \<longrightarrow> pr_role s = Primary)"
    unfolding s by (simp add: start_server_def grace_over_def recompute_role_def new_Peers_def known_ids_def map_filter_def
      exists_primary_peer_def announce_coordinator_def peer_simps)
  then show ?thesis using cfg role_inv_start [of env "co_id cfg" "length (co_peer_addresses cfg)" now] unfolding s by auto
qed

section \<open>Properties\<close>

text \<open>
  C26. The exit status of the client program. If the option parser throws, it is the parser's code. If the options are rejected,
  it is that of a validation error for Vigenere without a mode and 1 otherwise, and no coordinator is contacted. With
  accepted options the program ends with 0 exactly when a coordinator answers with a result in one of the rounds, and else is
  still running, as long as no attempt ends the process.
\<close>

theorem client_exit_status:
  assumes "\<forall>cfg. bindR (cli (client_defaults junk)) (client_config fs) = Inr cfg \<longrightarrow>
      (\<forall>j<n. \<forall>a \<in> set (cc_coordinator_addresses cfg). \<not> isl (attempt b64 dump can_open (nets j) cfg a))"
  shows "client_main cli junk fs b64 dump can_open nets n =
    (case cli (client_defaults junk) of
       Inl e \<Rightarrow> failed e
     | Inr opt \<Rightarrow>
         (case client_config fs opt of
            Inl e \<Rightarrow> Exit (if cl_cipher opt = VIGENERE \<and> cl_mode_count opt = 0 then VALIDATION_ERROR else 1)
          | Inr cfg \<Rightarrow>
              if \<exists>j<n. \<exists>a \<in> set (cl_servers opt). \<exists>sent pd. attempt b64 dump can_open (nets j) cfg a = Inr (sent, Some pd)
              then Exit 0 else Running))"
proof -
  have "(case run_client b64 dump can_open nets cfg n 0 of Inl e \<Rightarrow> Crash e | Inr None \<Rightarrow> Running | Inr (Some pd) \<Rightarrow> Exit 0) =
      (if \<exists>j<n. \<exists>a \<in> set (cl_servers opt). \<exists>sent pd. attempt b64 dump can_open (nets j) cfg a = Inr (sent, Some pd)
       then Exit 0 else Running)" if "cli (client_defaults junk) = Inr opt" "client_config fs opt = Inr cfg" for opt cfg
  proof -
    have "\<forall>j<n. \<forall>a \<in> set (cc_coordinator_addresses cfg). \<forall>e. attempt b64 dump can_open (nets j) cfg a \<noteq> Inl e"
    proof -
      have "bindR (cli (client_defaults junk)) (client_config fs) = Inr cfg" using that by simp
      then show ?thesis using assms isl_def by metis
    qed
    note ends = client_ends_iff_answered [OF this]
    obtain r where "run_client b64 dump can_open nets cfg n 0 = Inr r"
      "r \<noteq> None \<longleftrightarrow> (\<exists>j<n. \<exists>pd. \<exists>a \<in> set (cc_coordinator_addresses cfg). \<exists>sent. attempt b64 dump can_open (nets j) cfg a = Inr (sent, Some pd))"
      using ends by (elim exE conjE)
    then show ?thesis using client_config_Inr(4) [OF that(2)] by (cases r) auto
  qed
  note answered = this
  show ?thesis
  proof (cases "cli (client_defaults junk)")
    case (Inr opt)
    show ?thesis
    proof (cases "client_config fs opt")
      case (Inl e)
      then show ?thesis using \<open>cli (client_defaults junk) = Inr opt\<close> config_rejected [OF Inl] by (simp add: client_main_def)
    next
      case (Inr cfg)
      then show ?thesis using answered [OF \<open>cli (client_defaults junk) = Inr opt\<close> Inr] \<open>cli (client_defaults junk) = Inr opt\<close>
        by (simp add: client_main_def)
    qed
  qed (simp add: client_main_def)
qed

text \<open>The first coordinator cannot be reached; the second answers in the second round.\<close>

theorem client_exit_status_witness:
  "client_main (\<lambda>d. Inr (d\<lparr>cl_cipher := CAESAR, cl_input_text := ''Khoor'', cl_noise := 0, cl_servers := [''a:1'', ''b:2'']\<rparr>)) CIPHER_XOR
     Map.empty id (\<lambda>j. Inr []) (\<lambda>f. True) demo_net 2 = Exit 0"
proof -
  let ?cli = "\<lambda>d. Inr (d\<lparr>cl_cipher := CAESAR, cl_input_text := ''Khoor'', cl_noise := 0, cl_servers := [''a:1'', ''b:2'']\<rparr>)"
  have "parse_server ''a:1'' = Inr \<lparr>ep_host = ''a'', ep_port = 1\<rparr>" "parse_server ''b:2'' = Inr \<lparr>ep_host = ''b'', ep_port = 2\<rparr>" by code_simp+
  then have cfg: "client_config Map.empty (projr (?cli (client_defaults CIPHER_XOR))) = Inr demo_config"
    by (simp add: client_config_def client_defaults_def demo_config_def)
  have safe: "\<not> isl (attempt id (\<lambda>j. Inr []) (\<lambda>f. True) (demo_net j) demo_config a)" if "a \<in> {''a:1'', ''b:2''}" for a j
    using demo_attempt [OF that, of j] by (metis isl_def Inl_Inr_False)
  have "set (cc_coordinator_addresses demo_config) = {''a:1'', ''b:2''}" by (simp add: demo_config_def)
  moreover obtain pd where "attempt id (\<lambda>j. Inr []) (\<lambda>f. True) (demo_net 1) demo_config ''b:2'' = Inr (True, Some pd)"
    using demo_attempt [of "''b:2''" 1] by auto
  ultimately show ?thesis
    using client_exit_status [of ?cli CIPHER_XOR Map.empty 2 id "\<lambda>j. Inr []" "\<lambda>f. True" demo_net] cfg safe by (auto split: if_splits)
qed

end
