(* ===== verification/Json_Sound.thy ===== *)
theory Json_Sound
  imports Json_Parser Dbl_Type
begin

text \<open>
  What the parser of \<^verbatim>\<open>include/nlohmann/json.hpp\<close> accepts: every value it builds is one that the types allow, with finite
  doubles and valid UTF-8 in every string and key. So the serializer never throws on a value that was received, and
  what it writes is read as the same value again.
\<close>

section \<open>Strings\<close>

lemma utf8_run_append: "utf8_run st a = Inr () \<Longrightarrow> utf8_run st (a @ b) = utf8_run 0 b"
  by (induction a arbitrary: st) (auto simp: Let_def split: if_splits)

lemma utf8_ok_append: "\<lbrakk>utf8_ok a; utf8_ok b\<rbrakk> \<Longrightarrow> utf8_ok (a @ b)"
  by (simp add: utf8_ok_def utf8_run_append)

lemma next_byte_ranges:
  "next_byte_in_range rs cs = Some (bs, rest) \<Longrightarrow> list_all2 (\<lambda>(lo, hi) d. lo \<le> byte d \<and> byte d \<le> hi) rs bs"
  by (induction rs cs arbitrary: bs rule: next_byte_in_range.induct) (auto split: if_splits)

text \<open>A byte and the bytes in the ranges that the lexer asks for are a sequence of the serializer's automaton.\<close>

lemma sequence_ok:
  assumes rs: "utf8_ranges c = Some rs" and bs: "list_all2 (\<lambda>(lo, hi) d. lo \<le> byte d \<and> byte d \<le> hi) rs bs"
  shows "utf8_ok (c # bs)"
proof -
  let ?b = "byte c"
  have "0 \<le> ?b" using of_char_range [of c] by simp
  consider (ascii) "?b < 128" "rs = []" | (two) "194 \<le> ?b" "?b < 224" "rs = [(0x80, 0xBF)]" | (e0) "?b = 224" "rs = [(0xA0, 0xBF), (0x80, 0xBF)]"
    | (ed) "?b = 237" "rs = [(0x80, 0x9F), (0x80, 0xBF)]" | (three) "225 \<le> ?b" "?b < 240" "?b \<noteq> 237" "rs = [(0x80, 0xBF), (0x80, 0xBF)]"
    | (f0) "?b = 240" "rs = [(0x90, 0xBF), (0x80, 0xBF), (0x80, 0xBF)]" | (four) "241 \<le> ?b" "?b < 244" "rs = [(0x80, 0xBF), (0x80, 0xBF), (0x80, 0xBF)]"
    | (f4) "?b = 244" "rs = [(0x80, 0x8F), (0x80, 0xBF), (0x80, 0xBF)]"
    using rs by (auto simp: utf8_ranges_def Let_def split: if_splits)
  then have "\<exists>st. utf8_decode 0 c = st \<and> (st, rs) \<in> {(0, []), (2, [(0x80, 0xBF)]), (4, [(0xA0, 0xBF), (0x80, 0xBF)]), (5, [(0x80, 0x9F), (0x80, 0xBF)]),
      (3, [(0x80, 0xBF), (0x80, 0xBF)]), (6, [(0x90, 0xBF), (0x80, 0xBF), (0x80, 0xBF)]), (7, [(0x80, 0xBF), (0x80, 0xBF), (0x80, 0xBF)]),
      (8, [(0x80, 0x8F), (0x80, 0xBF), (0x80, 0xBF)])}"
    by cases (simp_all add: utf8_table)
  then show ?thesis using bs by (auto simp: utf8_ok_def Let_def decode_tail list_all2_Cons1)
qed

section \<open>Escapes\<close>

lemma or_disjoint: "\<lbrakk>0 \<le> x; x < 2 ^ n\<rbrakk> \<Longrightarrow> or (push_bit n k) x = push_bit n k + (x :: int)"
proof -
  assume x: "0 \<le> x" "x < 2 ^ n"
  then have "take_bit n x = x" by (simp add: take_bit_int_eq_self)
  then have "\<not> bit (push_bit n k) i \<or> \<not> bit x i" for i by (metis bit_push_bit_iff bit_take_bit_iff linorder_not_le)
  then show ?thesis by (simp add: disjunctive_add)
qed

lemma low_bits: "and x 0x3F = x mod (64 :: int)"
  using take_bit_eq_mask [of 6 x] by (simp add: take_bit_eq_mod mask_eq_exp_minus_1)

lemma digit_split: "0 \<le> k \<Longrightarrow> x div k mod 64 = x div k - 64 * (x div (k * 64 :: int))"
  using minus_mult_div_eq_mod [of "x div k" 64] zdiv_zmult2_eq [of 64 x k] by simp

lemma lead_bytes:
  fixes x :: int
  assumes "0 \<le> x"
  shows "x < 32 \<Longrightarrow> or 0xC0 x = 192 + x" "x < 64 \<Longrightarrow> or 0x80 x = 128 + x" "x < 16 \<Longrightarrow> or 0xE0 x = 224 + x"
    "x < 8 \<Longrightarrow> or 0xF0 x = 240 + x"
  using or_disjoint [of x 5 6] or_disjoint [of x 6 2] or_disjoint [of x 4 14] or_disjoint [of x 3 30] assms by simp_all

lemma mod_64: "0 \<le> x mod 64" "x mod 64 < 64" "x mod 64 \<le> 63" for x :: int
proof -
  show "0 \<le> x mod 64" "x mod 64 < 64" by simp_all
  then show "x mod 64 \<le> 63" by linarith
qed

lemma two_bytes_ok:
  assumes cp: "0x80 \<le> cp" "cp \<le> 0x7FF"
  shows "utf8_ok (codepoint_bytes cp)"
proof -
  let ?c = "to_char (192 + cp div 64)"
  have d: "2 \<le> cp div 64" "cp div 64 < 32" using cp by linarith+
  have "codepoint_bytes cp = [?c, to_char (128 + cp mod 64)]"
    using cp d mod_64 [of cp] by (simp add: codepoint_bytes_def low_bits drop_bit_eq_div lead_bytes)
  moreover have "utf8_ranges ?c = Some [(0x80, 0xBF)]" using d by (simp add: utf8_ranges_def byte_char)
  ultimately show ?thesis using sequence_ok [of ?c "[(0x80, 0xBF)]"] mod_64 [of cp] by (simp add: byte_char)
qed

text \<open>Three bytes: the surrogates are left out.\<close>

lemma three_bytes_ok:
  assumes cp: "0x800 \<le> cp" "cp \<le> 0xFFFF" "\<not> (0xD800 \<le> cp \<and> cp \<le> 0xDFFF)"
  shows "utf8_ok (codepoint_bytes cp)"
proof -
  let ?c = "to_char (224 + cp div 4096)" and ?d = "to_char (128 + cp div 64 mod 64)" and ?e = "to_char (128 + cp mod 64)"
  let ?rs = "[(if cp div 4096 = 0 then 0xA0 else 0x80, if cp div 4096 = 13 then 0x9F else 0xBF), (0x80, 0xBF)] :: (int \<times> int) list"
  have d: "0 \<le> cp div 4096" "cp div 4096 < 16" using cp by linarith+
  have bytes: "codepoint_bytes cp = [?c, ?d, ?e]"
    using cp d mod_64 by (simp add: codepoint_bytes_def low_bits drop_bit_eq_div lead_bytes)
  have rs: "utf8_ranges ?c = Some ?rs" using d by (auto simp: utf8_ranges_def byte_char Let_def)
  have y: "cp div 64 mod 64 = cp div 64 - 64 * (cp div 4096)" using digit_split [of 64 cp] by simp
  have lo: "32 \<le> cp div 64 mod 64" if "cp div 4096 = 0" unfolding y that using cp(1) by linarith
  have hi: "cp div 64 mod 64 < 32" if "cp div 4096 = 13"
  proof -
    have "cp < 0xD800" using that cp by linarith
    then show ?thesis unfolding y that by linarith
  qed
  show ?thesis unfolding bytes by (rule sequence_ok [OF rs]) (use lo hi mod_64(3) in \<open>auto simp: byte_char\<close>)
qed

lemma four_bytes_ok:
  assumes cp: "0x10000 \<le> cp" "cp \<le> 0x10FFFF"
  shows "utf8_ok (codepoint_bytes cp)"
proof -
  let ?c = "to_char (240 + cp div 262144)" and ?d = "to_char (128 + cp div 4096 mod 64)" and ?e = "to_char (128 + cp div 64 mod 64)"
    and ?f = "to_char (128 + cp mod 64)"
  let ?rs = "[(if cp div 262144 = 0 then 0x90 else 0x80, if cp div 262144 = 4 then 0x8F else 0xBF), (0x80, 0xBF), (0x80, 0xBF)] :: (int \<times> int) list"
  have d: "0 \<le> cp div 262144" "cp div 262144 < 5" using cp by linarith+
  have bytes: "codepoint_bytes cp = [?c, ?d, ?e, ?f]"
    using cp d mod_64 by (simp add: codepoint_bytes_def low_bits drop_bit_eq_div lead_bytes)
  have rs: "utf8_ranges ?c = Some ?rs" using d by (auto simp: utf8_ranges_def byte_char Let_def)
  have y: "cp div 4096 mod 64 = cp div 4096 - 64 * (cp div 262144)" using digit_split [of 4096 cp] by simp
  have lo: "16 \<le> cp div 4096 mod 64" if "cp div 262144 = 0" unfolding y that using cp by linarith
  have hi: "cp div 4096 mod 64 < 16" if "cp div 262144 = 4" unfolding y that using cp(2) by linarith
  show ?thesis unfolding bytes by (rule sequence_ok [OF rs]) (use lo hi mod_64(3) in \<open>auto simp: byte_char\<close>)
qed

lemma codepoint_ok:
  assumes cp: "0 \<le> cp" "cp \<le> 0x10FFFF" "\<not> (0xD800 \<le> cp \<and> cp \<le> 0xDFFF)"
  shows "utf8_ok (codepoint_bytes cp)"
proof -
  have "utf8_ok (codepoint_bytes cp)" if "cp < 0x80"
  proof -
    have "ascii (codepoint_bytes cp)" using that cp(1) by (simp add: codepoint_bytes_def ascii_def byte_char)
    then show ?thesis by (rule ascii_utf8_ok)
  qed
  moreover have "cp < 0x80 \<or> 0x80 \<le> cp \<and> cp \<le> 0x7FF \<or> 0x800 \<le> cp \<and> cp \<le> 0xFFFF \<or> 0x10000 \<le> cp" by linarith
  ultimately show ?thesis using two_bytes_ok [of cp] three_bytes_ok [of cp] four_bytes_ok [of cp] cp(2,3) by blast
qed

lemma hex_digit_range: "hex_digit c = Some d \<Longrightarrow> 0 \<le> d \<and> d \<le> 15"
  by (auto simp: hex_digit_def Let_def split: if_splits)

lemma get_codepoint_range:
  assumes "get_codepoint cs = Some (cp, rest)"
  shows "0 \<le> cp \<and> cp \<le> 0xFFFF"
proof -
  have "codepoint_loop fs a cs = Some (cp, rest) \<Longrightarrow> a \<le> cp \<and> cp \<le> a + sum_list (map (\<lambda>f. 15 * 2 ^ f) fs)" for fs a
  proof (induction fs a cs rule: codepoint_loop.induct)
    case (3 f fs a c cs)
    then obtain d where d: "hex_digit c = Some d" "codepoint_loop fs (a + push_bit f d) cs = Some (cp, rest)"
      by (auto split: option.splits)
    have "0 \<le> d * 2 ^ f" "d * 2 ^ f \<le> 15 * 2 ^ f" using hex_digit_range [OF d(1)] by simp_all
    then show ?case using 3(1) [OF d] unfolding push_bit_eq_mult by (simp only: list.map sum_list.Cons) linarith
  qed simp_all
  from this [of "[12, 8, 4, 0]" 0] show ?thesis using assms by (simp add: get_codepoint_def)
qed

lemma scan_unicode_range:
  assumes "scan_unicode cs = Some (cp, rest)"
  shows "0 \<le> cp \<and> cp \<le> 0x10FFFF \<and> \<not> (0xD800 \<le> cp \<and> cp \<le> 0xDFFF)"
  using assms
  by (auto simp: scan_unicode_def push_bit_eq_mult split: option.splits prod.splits if_splits list.splits dest!: get_codepoint_range)

lemma scan_string_ok: "\<lbrakk>scan_string buf cs = Some (s, rest); utf8_ok buf\<rbrakk> \<Longrightarrow> utf8_ok s"
proof (induction buf cs rule: scan_string.induct)
  case (2 buf c cs)
  consider (quote) "c = CHR 0x22" | (unicode) es cp r where "c = CHR 0x5C" "cs = CHR ''u'' # es" "scan_unicode es = Some (cp, r)"
      "scan_string (buf @ codepoint_bytes cp) r = Some (s, rest)"
    | (simple) e es x where "c = CHR 0x5C" "cs = e # es" "e \<noteq> CHR ''u''" "simple_escape e = Some x" "scan_string (buf @ [x]) es = Some (s, rest)"
    | (seq) rs bs r where "c \<noteq> CHR 0x22" "c \<noteq> CHR 0x5C" "\<not> byte c < 0x20" "utf8_ranges c = Some rs" "next_byte_in_range rs cs = Some (bs, r)"
      "scan_string (buf @ c # bs) r = Some (s, rest)"
    using "2.prems"(1) by (subst (asm) scan_string.simps) (auto split: if_splits option.splits list.splits prod.splits)
  then show ?case
  proof cases
    case quote
    then show ?thesis using "2.prems" by (simp add: scan_string.simps)
  next
    case unicode
    have "utf8_ok (buf @ codepoint_bytes cp)" using codepoint_ok scan_unicode_range [OF unicode(3)] "2.prems"(2) utf8_ok_append by blast
    then show ?thesis using "2.IH"(1) unicode by simp
  next
    case simple
    have "ascii [x]" using simple(4) by (auto simp: simple_escape_def ascii_def split: if_splits)
    then have "utf8_ok (buf @ [x])" using "2.prems"(2) utf8_ok_append ascii_utf8_ok by blast
    then show ?thesis using "2.IH"(2) simple by simp
  next
    case seq
    have "utf8_ok (c # bs)" using sequence_ok [OF seq(4) next_byte_ranges [OF seq(5)]] .
    then have "utf8_ok (buf @ c # bs)" using "2.prems"(2) utf8_ok_append by blast
    then show ?thesis using "2.IH"(3) seq by simp
  qed
qed (simp add: scan_string.simps)

section \<open>Numbers\<close>

lemma zero_digit: "isdigit (CHR ''0'')"
  by (simp add: isdigit_def schar_def)

definition number_inv :: "num_state \<Rightarrow> num_type \<Rightarrow> string \<Rightarrow> bool" where
  "number_inv st ty buf \<longleftrightarrow> (st = Minus \<longrightarrow> buf = ''-'') \<and> (st \<in> {Decimal2, Sign, Any2} \<longrightarrow> ty = Num_float)
     \<and> (st \<in> {Zero, Any1} \<longrightarrow> buf \<noteq> [] \<and> (ty = Num_unsigned \<longrightarrow> list_all isdigit buf) \<and> (ty = Num_integer \<longrightarrow> list_all isdigit (tl buf)))"

lemma scan_number_at_inv:
  "\<lbrakk>scan_number_at st ty buf cs = Some (ty', buf', rest); number_inv st ty buf\<rbrakk> \<Longrightarrow>
    (ty' = Num_unsigned \<longrightarrow> list_all isdigit buf') \<and> (ty' = Num_integer \<longrightarrow> list_all isdigit (tl buf'))"
  by (induction st ty buf cs rule: scan_number_at.induct) (auto simp: number_inv_def digit19_def zero_digit tl_append2 split: if_splits)

lemma strtod_wf: "dbl_wf (strtod s)"
proof -
  have "0 \<le> dec_value (takeWhile isdigit a @ takeWhile isdigit b)" "0 \<le> dec_value (takeWhile isdigit a)" for a b
    by (rule dec_value_nonneg, auto simp: list_all_iff dest: set_takeWhileD)+
  then have "dbl_wf (strtod_abs neg t)" for neg t by (simp add: strtod_abs_def Let_def decimal_to_dbl_wf)
  then show ?thesis by (simp add: strtod_def)
qed

section \<open>Tokens\<close>

fun token_ok :: "token \<Rightarrow> bool" where
  "token_ok (Value_string s) \<longleftrightarrow> utf8_ok s"
| "token_ok (Value_unsigned i) \<longleftrightarrow> int64_ok i"
| "token_ok (Value_integer i) \<longleftrightarrow> int64_ok i"
| "token_ok (Value_float d) \<longleftrightarrow> dbl_wf d"
| "token_ok t \<longleftrightarrow> True"

lemma number_token_ok:
  assumes "ty = Num_unsigned \<longrightarrow> list_all isdigit buf" and "ty = Num_integer \<longrightarrow> list_all isdigit (tl buf)"
  shows "token_ok (number_token ty buf)"
  using assms dec_value_nonneg [of buf] dec_value_nonneg [of "tl buf"] strtod_wf [of buf]
  by (cases ty) (auto simp: Let_def int64_ok_def)

lemma scan_number_ok:
  assumes "c = CHR ''-'' \<or> isdigit c"
  shows "token_ok (fst (scan_number c cs))"
proof (cases "scan_number_at (if c = CHR ''-'' then Minus else if c = CHR ''0'' then Zero else Any1) Num_unsigned [c] cs")
  case (Some r)
  then obtain ty buf rest where r: "r = (ty, buf, rest)" by (metis prod_cases3)
  have "number_inv (if c = CHR ''-'' then Minus else if c = CHR ''0'' then Zero else Any1) Num_unsigned [c]"
    using assms by (auto simp: number_inv_def)
  then show ?thesis using Some r scan_number_at_inv [OF Some [unfolded r]] number_token_ok by (simp add: scan_number_def Let_def)
qed (simp add: scan_number_def)

lemma scan_ok: "token_ok (fst (scan cs))"
proof (cases "dropWhile json_space cs")
  case (Cons c rest)
  have "token_ok (fst (scan_at c rest))"
    using scan_number_ok [of c rest] scan_string_ok [of "[]" rest]
    by (auto simp: scan_at_def scan_literal_def utf8_ok_def split: option.splits prod.splits)
  then show ?thesis using Cons by (simp add: scan_def)
next
  case Nil
  then show ?thesis unfolding scan_def Nil by simp
qed

lemma scan_first_ok: "token_ok (fst (scan_first cs))"
  using scan_ok by (simp add: scan_first_def split: option.splits)

section \<open>Values\<close>

definition value_ok :: "json \<Rightarrow> bool" where
  "value_ok j \<longleftrightarrow> json_wf j \<and> json_finite j \<and> dump_ok j"

definition members_ok :: "(string \<times> json) list \<Rightarrow> bool" where
  "members_ok kvs \<longleftrightarrow> sorted_wrt (<) (map fst kvs) \<and> (\<forall>(k, v) \<in> set kvs. utf8_ok k \<and> value_ok v)"

lemma value_ok_simps:
  "value_ok JNull" "value_ok (JBool b)" "value_ok (JStr s) \<longleftrightarrow> utf8_ok s" "value_ok (JInt i) \<longleftrightarrow> int64_ok i"
  "value_ok (JFloat d) \<longleftrightarrow> dbl_wf d \<and> is_finite d" "value_ok (JArr js) \<longleftrightarrow> (\<forall>j \<in> set js. value_ok j)" "value_ok (JObj kvs) \<longleftrightarrow> members_ok kvs"
  by (auto simp: value_ok_def members_ok_def dump_ok_def list_all_iff)

lemma obj_insert_keys: "set (map fst (obj_insert k v kvs)) = insert k (set (map fst kvs))"
  by (induction k v kvs rule: obj_insert.induct) auto

lemma obj_insert_set: "set (obj_insert k v kvs) \<subseteq> insert (k, v) (set kvs)"
  by (induction k v kvs rule: obj_insert.induct) auto

lemma obj_insert_sorted: "sorted_wrt (<) (map fst kvs) \<Longrightarrow> sorted_wrt (<) (map fst (obj_insert k v kvs))"
proof (induction k v kvs rule: obj_insert.induct)
  case (2 k v k' v' kvs)
  have kvs: "\<forall>x \<in> set (map fst kvs). k' < x" "sorted_wrt (<) (map fst kvs)" using "2.prems" by simp_all
  consider "k < k'" | "k = k'" | "k' < k" by (rule linorder_cases)
  then show ?case
  proof cases
    case 1
    then have "\<forall>x \<in> set (map fst kvs). k < x" using kvs(1) by (meson order.strict_trans)
    then show ?thesis using 1 kvs by simp
  next
    case 3
    then have n: "\<not> k < k'" "k \<noteq> k'" by auto
    then have "obj_insert k v ((k', v') # kvs) = (k', v') # obj_insert k v kvs" by simp
    moreover have "\<forall>x \<in> set (map fst (obj_insert k v kvs)). k' < x" unfolding obj_insert_keys using 3 kvs(1) by simp
    moreover have "sorted_wrt (<) (map fst (obj_insert k v kvs))" using "2.IH" n kvs(2) by simp
    ultimately show ?thesis by simp
  qed (use kvs in simp)
qed simp

lemma members_ok_insert: "\<lbrakk>members_ok kvs; utf8_ok k; value_ok v\<rbrakk> \<Longrightarrow> members_ok (obj_insert k v kvs)"
  using obj_insert_set [of k v kvs] obj_insert_sorted [of kvs k v] by (auto simp: members_ok_def)

fun frame_ok :: "frame \<Rightarrow> bool" where
  "frame_ok (Arr_frame js) \<longleftrightarrow> (\<forall>j \<in> set js. value_ok j)"
| "frame_ok (Obj_frame kvs k) \<longleftrightarrow> members_ok kvs \<and> utf8_ok k"

definition dom_ok :: "dom \<Rightarrow> bool" where
  "dom_ok d \<longleftrightarrow> list_all frame_ok (fst d) \<and> value_ok (snd d)"

lemma handle_value_ok: "\<lbrakk>dom_ok d; value_ok v\<rbrakk> \<Longrightarrow> dom_ok (handle_value v d)"
  by (cases "(v, d)" rule: handle_value.cases) (auto simp: dom_ok_def members_ok_insert)

lemma utf8_ok_Nil: "utf8_ok []"
  by (simp add: utf8_ok_def)

lemma start_ok: "dom_ok d \<Longrightarrow> dom_ok (start_object d)" "dom_ok d \<Longrightarrow> dom_ok (start_array d)"
  by (simp_all add: dom_ok_def start_object_def start_array_def members_ok_def utf8_ok_Nil)

lemma set_key_ok: "\<lbrakk>dom_ok d; utf8_ok k\<rbrakk> \<Longrightarrow> dom_ok (set_key k d)"
  by (cases "(k, d)" rule: set_key.cases) (auto simp: dom_ok_def members_ok_insert value_ok_simps)

lemma end_container_ok: "dom_ok d \<Longrightarrow> dom_ok (end_container d)"
  by (cases d rule: end_container.cases) (auto simp: dom_ok_def value_ok_simps intro!: handle_value_ok [unfolded dom_ok_def])

lemma parse_member_ok: "\<lbrakk>parse_member tok cs d = Inr (t, cs', d'); token_ok tok; dom_ok d\<rbrakk> \<Longrightarrow> token_ok t \<and> dom_ok d'"
  using scan_ok by (auto simp: parse_member_def set_key_ok split: token.splits prod.splits if_splits) (metis fst_conv)

lemma sax_parse_ok:
  "\<lbrakk>sax_parse_internal skip tok cs states d = Inr (d', rest); token_ok tok; dom_ok d\<rbrakk> \<Longrightarrow> dom_ok d'"
proof (induction skip tok cs states d arbitrary: d' rest rule: sax_parse_internal.induct)
  case (1 tok cs states d)
  show ?case
  proof (cases states)
    case Nil
    then show ?thesis using "1.prems" by (simp add: sax_parse_internal.simps)
  next
    case (Cons arr sts)
    obtain t cs1 t2 cs2 where scan: "scan cs = (t, cs1)" "scan cs1 = (t2, cs2)" by (metis surj_pair)
    have tok: "token_ok t" "token_ok t2" using scan_ok [of cs] scan_ok [of cs1] scan by simp_all
    consider (elem) "t = Value_separator" "arr" | (member) "t = Value_separator" "\<not> arr" | (close) "t \<noteq> Value_separator" by blast
    then show ?thesis
    proof cases
      case elem
      then show ?thesis using "1.IH"(1) [OF Cons scan(1) [symmetric] elem(1) scan(2) [symmetric] elem(2)] "1.prems" scan tok Cons
        by (simp add: sax_parse_internal.simps(1))
    next
      case member
      then obtain t3 cs3 d3 where m: "parse_member t2 cs2 d = Inr (t3, cs3, d3)" "sax_parse_internal False t3 cs3 states d3 = Inr (d', rest)"
        using "1.prems"(1) scan Cons by (auto simp: sax_parse_internal.simps(1) bindR_eq_Inr)
      show ?thesis
        using "1.IH"(2) [OF Cons scan(1) [symmetric] member(1) scan(2) [symmetric] member(2) m(1) refl refl m(2)]
          parse_member_ok [OF m(1) tok(2) "1.prems"(3)] by blast
    next
      case close
      then show ?thesis using "1.prems" scan Cons "1.IH"(3) [OF Cons scan(1) [symmetric] close] tok end_container_ok
        by (auto simp: sax_parse_internal.simps(1) split: if_splits)
    qed
  qed
next
  case (2 tok cs states d)
  obtain t cs1 where scan: "scan cs = (t, cs1)" by (metis surj_pair)
  have t: "token_ok t" using scan_ok [of cs] scan by simp
  note step = trans [OF sax_parse_internal.simps(2) [symmetric] "2.prems"(1)]
  note dom = "2.prems"(3)
  show ?case
  proof (cases tok)
    case Begin_object
    show ?thesis
    proof (cases "t = End_object")
      case True
      then show ?thesis using "2.IH"(10) [OF Begin_object scan [symmetric] True] step Begin_object scan t dom start_ok end_container_ok by simp
    next
      case False
      then obtain t2 cs2 d2 where m: "parse_member t cs1 (start_object d) = Inr (t2, cs2, d2)"
          "sax_parse_internal False t2 cs2 (False # states) d2 = Inr (d', rest)"
        using step Begin_object scan by (auto simp: bindR_eq_Inr)
      then show ?thesis
        using "2.IH"(11) [OF Begin_object scan [symmetric] False m(1) refl refl m(2)] parse_member_ok [OF m(1) t start_ok(1) [OF dom]] by blast
    qed
  next
    case Begin_array
    then show ?thesis using "2.IH"(8,9) [OF Begin_array scan [symmetric]] step scan t dom start_ok end_container_ok
      by (simp split: if_splits)
  qed (use step "2.IH"(1-7) "2.prems"(2) dom in \<open>simp_all add: handle_value_ok value_ok_simps split: if_splits\<close>)
qed

lemma json_parse_ok: "json_parse strict t = Inr j \<Longrightarrow> value_ok j"
  using sax_parse_ok [of False _ _ "[]" "([], JNull)" _ _] scan_first_ok [of t]
  by (fastforce simp: json_parse_def bindR_eq_Inr dom_ok_def value_ok_simps split: prod.splits if_splits)

text \<open>
  C15. The parser is sound for the types of the library. Whatever text \<^verbatim>\<open>parse\<close> accepts, the value it builds has 64-bit
  integers, well-formed finite doubles, objects with strictly increasing keys and valid UTF-8 in every string and key.
  Hence \<^verbatim>\<open>dump\<close> does not throw on it, compact or with any indentation up to 1024, and parsing that text gives the same
  value.
\<close>

theorem parsed_value_sound:
  assumes "json_parse strict t = Inr j" and "indent_ok ind"
  shows "json_wf j \<and> json_finite j \<and> dump_ok j \<and> (\<exists>t'. json_dump ind j = Inr t' \<and> json_parse strict' t' = Inr j)"
  using json_parse_ok [OF assms(1)] json_roundtrip [of j ind strict'] assms(2) by (simp add: value_ok_def)

text \<open>The example: an escaped surrogate pair, keys out of order with a duplicate, a number that is rounded.\<close>

definition received_text :: string where
  "received_text = ''{'' @ [CHR 0x22] @ ''b'' @ [CHR 0x22] @ '': [0.1, -7], '' @ [CHR 0x22] @ ''a'' @ [CHR 0x22] @ '': '' @ [CHR 0x22]
     @ [CHR 0x5C] @ ''uD83D'' @ [CHR 0x5C] @ ''uDE00'' @ [CHR 0x22] @ '', '' @ [CHR 0x22] @ ''b'' @ [CHR 0x22] @ '': 1e-3}''"

definition received_value :: json where
  "received_value = JObj [(''a'', JStr [CHR 0xF0, CHR 0x9F, CHR 0x98, CHR 0x80]), (''b'', JFloat (dbl_lit 1 1000))]"

theorem parsed_value_sound_witness:
  "json_parse True received_text = Inr received_value \<and> json_wf received_value \<and> json_finite received_value \<and> dump_ok received_value
   \<and> (\<exists>t'. json_dump (-1) received_value = Inr t' \<and> json_parse True t' = Inr received_value)"
proof -
  have parsed: "json_parse True received_text = Inr received_value" by code_simp
  moreover have "indent_ok (-1)" by code_simp
  ultimately show ?thesis using parsed_value_sound [OF parsed, of "-1" True] by blast
qed

end
