(* ===== verification/Spec2Isabelle.thy ===== *)
theory Spec2Isabelle
  imports Recovery Agreement Programs Json_Sound
begin

text \<open>
  KeySpaceBreaker is a distributed breaker of Caesar and Vigenere ciphers. A client program sends a text to a
  coordinator; the coordinator cuts the key space into units, hands them to worker processes, keeps the best
  result they report and sends it to the client with the whole text decrypted. Workers score every key of a
  unit. Unfinished tasks survive in a checkpoint file. Several coordinators watch each other and elect the one
  that serves. The sources are under \<^verbatim>\<open>src/src\<close> and \<^verbatim>\<open>src/include\<close>; what follows gives for each
  part the theory that models it, how its definitions correspond to the code, and what is proved.

  \<^bold>\<open>Shared base.\<close> \<^verbatim>\<open>Prelude\<close>: the ways a C++ call can end (\<open>cpp_error\<close>: exceptions, failed assertions,
  undefined behaviour), the result type that carries them, 32-bit \<^verbatim>\<open>int\<close> with overflow as undefined behaviour.
  \<^verbatim>\<open>Cpp_Double\<close>: IEEE binary64 with rounding to nearest even, executable, as the instance of the arithmetic
  type classes for \<open>dbl\<close>; the locale \<open>score_order\<close> says what a search relies on when it compares doubles.
  \<^verbatim>\<open>Search\<close>: keeping the better of two results, and what the best of a set is. \<^verbatim>\<open>Cpp_String\<close>: characters,
  \<^verbatim>\<open>find\<close>, \<^verbatim>\<open>to_string\<close>, \<^verbatim>\<open>stoi\<close>, word splitting. \<^verbatim>\<open>Json\<close>: JSON values with the access operations of
  \<^verbatim>\<open>nlohmann/json.hpp\<close> and the UTF-8 check of its serializer.

  \<^bold>\<open>JSON text.\<close> \<^verbatim>\<open>Json_Writer\<close> (the serializer), \<^verbatim>\<open>Json_Lexer\<close> (the lexer with its number state machine and string
  scanner), \<^verbatim>\<open>Json_Tokens\<close> (tokens are read back), \<^verbatim>\<open>Json_Parser\<close> (the parser's loop and the construction of the value),
  \<^verbatim>\<open>Json_Sound\<close> (what the parser accepts). Proved: the parser ends on every input; \<^verbatim>\<open>dump\<close> throws exactly on invalid
  UTF-8; parsing what was dumped, compact or indented, gives the value back; every value the parser builds has finite
  doubles, sorted keys and valid UTF-8, so it can be dumped again.

  \<^bold>\<open>Text of doubles.\<close> \<^verbatim>\<open>Grisu\<close> (namespace \<^verbatim>\<open>dtoa_impl\<close> and \<^verbatim>\<open>to_chars\<close>: 64-bit significands, boundaries, the table of cached
  powers, digit generation, formatting). \<^verbatim>\<open>Rounding\<close>: decimals between the midpoints to the neighbours of a double are
  rounded to it. \<^verbatim>\<open>Dbl_Type\<close>: every operation on doubles gives a well-formed one. \<^verbatim>\<open>Grisu_Scale\<close>: the error of the scaled
  boundaries, with every entry of the table checked. \<^verbatim>\<open>Grisu_Digits\<close>: the digits lie between the boundaries and are at most
  17. \<^verbatim>\<open>Grisu_Text\<close>: formatting. Proved: no assertion of the conversion fails for any finite double, and its text, which fits the
  buffer, is read back as the same double.

  \<^bold>\<open>Search of one unit.\<close> \<^verbatim>\<open>Units\<close> (\<^verbatim>\<open>Unit.hpp\<close>, \<^verbatim>\<open>enums.hpp\<close>), \<^verbatim>\<open>Ciphers\<close> (the two message classes),
  \<^verbatim>\<open>Keys\<close> (key strings and indices), \<^verbatim>\<open>Scoring\<close> (frequencies, trigrams, dictionary, and the streams of the
  fast mode), \<^verbatim>\<open>Decryptor\<close> (\<^verbatim>\<open>process_unit\<close>). Proved: decryption inverts encryption (once, in the locale
  \<open>letter_cipher\<close>, which both ciphers interpret) and keeps everything but letters; keys and indices are inverse;
  the fast score of a key is the chi-square of the streams of the decrypted text, and for one-letter keys the
  same double as the slow score; a unit's search ends and returns a best key of exactly its range.

  \<^bold>\<open>Tasks.\<close> \<^verbatim>\<open>Policy\<close> (the interface \<^verbatim>\<open>Policy.hpp\<close> as a locale, \<^verbatim>\<open>StaticPolicy\<close> as its interpretation),
  \<^verbatim>\<open>Coordinator\<close> and \<^verbatim>\<open>Checkpoint\<close> (\<^verbatim>\<open>Coordinator.cpp\<close>). Proved: generating the units ends and they
  partition the key space; leasing and finishing refine an abstract lease table; saving and loading a checkpoint
  gives the task back with leases dropped; at every moment of a save the old or the new checkpoint is on disk;
  what a broken or foreign checkpoint does.

  \<^bold>\<open>Messages.\<close> \<^verbatim>\<open>Protocol\<close> (\<^verbatim>\<open>JSON_Protocol.cpp\<close>, \<^verbatim>\<open>BASE64.hpp\<close>), over any text form of JSON; \<^verbatim>\<open>Wire\<close> puts the serializer
  and the parser above into the protocol and into the checkpoint file. Proved: any sequence of messages written to a stream is
  read back, and a saved checkpoint is restored from the text in the file, where only the Base64 codec of OpenSSL is a
  hypothesis; what happens to messages that are too long, interleaved, or lack their payload.

  \<^bold>\<open>Processes.\<close> \<^verbatim>\<open>Worker\<close> (\<^verbatim>\<open>NetworkWorker.cpp\<close>), \<^verbatim>\<open>Kasiski\<close> (\<^verbatim>\<open>KasiskiAnalyzer.cpp\<close>), \<^verbatim>\<open>Server\<close> (the task
  side of \<^verbatim>\<open>CoordServ.cpp\<close> with the worker and client sessions), \<^verbatim>\<open>Client\<close> (\<^verbatim>\<open>client.cpp\<close>, \<^verbatim>\<open>main.cpp\<close>, the
  configurations, the worker's connection loop), \<^verbatim>\<open>Programs\<close> (the three \<^verbatim>\<open>main\<close> functions). Each handler is a function from the state to the state, its
  failure and the messages it writes. Proved: a worker rebuilds the unit it was sent and answers with a best key;
  bounds on the guessed key length; the last report makes the server send the result; which addresses and
  options are accepted; the client program ends with 0 exactly when a coordinator answers, and its exit status otherwise.

  \<^bold>\<open>Whole system.\<close> \<^verbatim>\<open>Cluster\<close>: server and workers as a step relation with arbitrary interleaving of joins,
  answers, losses and timeouts. The server's side uses the workers only through the locale \<open>worker_contract\<close>,
  which the model of the worker interprets. Proved by rule induction: when all units are done the best result is
  a best one over the whole key space. \<^verbatim>\<open>Progress\<close>: in runs without losses the search never gets stuck, each
  answer finishes one unit, and the last one makes the server send the client the result. \<^verbatim>\<open>Recovery\<close>: the server process
  ends at any moment, also between two writes to the checkpoint file, and is started again with what is on the disk, any
  number of times. It uses the file through the locale \<open>checkpoint_store\<close>, which the models of the JSON serializer and
  parser interpret. Proved: the search is still complete, the restarted server always goes on with the request, and
  in runs without further losses it finishes exactly the units that the checkpoint has not as done. This theory adds
  the way from the client's options.

  \<^bold>\<open>Several coordinators.\<close> \<^verbatim>\<open>Election\<close> (\<^verbatim>\<open>PeerSession.cpp\<close> and the peer side of \<^verbatim>\<open>CoordServ.cpp\<close>): handlers on
  the state of one coordinator, runs as lists of events; invariants through the locale \<open>preserved\<close>. Proved: only
  a primary serves; two primaries that hear of each other agree on the smaller id; who wins an election; which
  of two connections is kept; and that a backup that stepped back does not stand again. \<^verbatim>\<open>Network\<close> joins any number of
  coordinators by connections, as a step relation with every order of timers, deliveries, losses, crashes and restarts; it
  uses a coordinator through the locale \<open>peer_contract\<close>, which \<^verbatim>\<open>Agreement\<close> interprets with the handlers. Proved by rule
  induction: two coordinators joined by a connection on which nothing waits are not both primary; without crashes there is
  a primary from the least coordinator's grace time on, and exactly one when all are joined and all messages are read.

  \<^bold>\<open>Bounds and fuel.\<close> The generation of units is a \<open>partial_function\<close> into \<open>option\<close> and proved to end for
  every valid policy. The client's loop has a number of rounds; its theorem is about every number. Everything
  else is total. Counters that grow with the length of a text are unbounded integers except where the source
  can overflow on texts of a message's size (the index of coincidence), where the overflow is a result.

  \<^bold>\<open>Not modelled.\<close> The network library asio and the option parser CLI11 (vendored; their results are inputs of
  the handlers); OpenSSL (a parameter of \<open>encode\<close> and \<open>decode\<close>); logging; the interleaving inside a broadcast to
  several peers, which the model performs at once. The server is single-threaded, as the source runs it.
\<close>

section \<open>From the client's options to the best key\<close>

text \<open>
  What the user asks for, said of the options alone: the text is the contents of the input file, or the
  one on the command line if no file is named; the fast Vigenere mode looks at its first 1000 letters only;
  a solution is a key of capital letters, as long as the user says (one letter for Caesar), with the text
  that it decrypts to and the score of that text.
\<close>

definition user_text :: "files \<Rightarrow> cli_options \<Rightarrow> string option" where
  "user_text fs opt = (if cl_input_file opt = [] then Some (cl_input_text opt) else fs (cl_input_file opt))"

definition searched_text :: "cli_options \<Rightarrow> string \<Rightarrow> string" where
  "searched_text opt text = (if cl_cipher opt = VIGENERE \<and> cl_mode opt = FAST then crop_text text else text)"

definition user_score ::
    "string option \<Rightarrow> (string \<times> dbl) list option \<Rightarrow> cli_options \<Rightarrow> nat \<Rightarrow> string \<Rightarrow> dbl" where
  "user_score dict trigrams opt n plain =
     (if cl_mode opt = FAST then stream_chi n plain
      else text_score (new_Decryptor None dict trigrams) (cl_noise opt) plain)"

definition user_solutions ::
    "string option \<Rightarrow> (string \<times> dbl) list option \<Rightarrow> cli_options \<Rightarrow> string \<Rightarrow> Result set" where
  "user_solutions dict trigrams opt text =
     (let n = (if cl_cipher opt = CAESAR then 1 else nat (cl_key_length opt))
      in (\<lambda>key. let plain = vigenere_decrypt (searched_text opt text) key
                in \<lparr>res_key = key, res_score = user_score dict trigrams opt n plain, res_text = plain\<rparr>)
         ` {key. length key = n \<and> upper_key key})"

lemma user_solutions_task:
  assumes "dp_cipher p = cl_cipher opt" and "dp_mode p = cl_mode opt" and "dp_cipher_text p = text"
    and "dp_noise p = cl_noise opt" and "dp_key_length p = cl_key_length opt"
  shows "task_solutions dict trigrams p = user_solutions dict trigrams opt text"
proof -
  let ?n = "nat (task_key_length p)"
  let ?u = "new_Unit 0 0 (dp_cipher p) (dp_mode p) (task_key_length p) (dp_noise p)"
  let ?msg = "message_of (dp_cipher p) (task_text p)"
  have n: "?n = (if cl_cipher opt = CAESAR then 1 else nat (cl_key_length opt))"
    using assms by (simp add: task_key_length_def)
  have tx: "get_text (message_of ci (task_text p)) = searched_text opt text" for ci
    using assms by (simp add: message_of_def task_text_def searched_text_def)
  have "key_score (new_Decryptor (Some ?msg) dict trigrams) ?msg ?u key
      = user_score dict trigrams opt (length key) (vigenere_decrypt (searched_text opt text) key)" for key
    using assms by (simp add: key_score_def tx user_score_def text_score_def new_Decryptor_def new_Unit_def Let_def)
  then have "solution (new_Decryptor (Some ?msg) dict trigrams) ?msg ?u i
      = (\<lambda>key. let plain = vigenere_decrypt (searched_text opt text) key
           in \<lparr>res_key = key, res_score = user_score dict trigrams opt ?n plain, res_text = plain\<rparr>) (index_to_key i ?n)" for i
    by (simp add: solution_def tx Let_def) (simp add: new_Unit_def)
  moreover have "{key. length key = ?n \<and> upper_key key} = (\<lambda>i. index_to_key i ?n) ` {0..26 ^ ?n - 1}"
    using index_to_key_enumerates [of ?n] by simp
  ultimately show ?thesis
    unfolding task_solutions_def user_solutions_def Let_def n [symmetric] by (simp add: image_image)
qed

lemma client_text: "client_config fs opt = Inr cfg \<Longrightarrow> user_text fs opt = Some (cc_encrypted_data cfg)"
  by (auto simp: client_config_def user_text_def read_file_binary_def bindR_eq_Inr split: if_splits option.splits)

lemma client_noise: "client_config fs opt = Inr cfg \<Longrightarrow> cc_noise cfg = cl_noise opt"
  by (auto simp: client_config_def bindR_eq_Inr split: if_splits)

text \<open>
  C5. What the user asks for is what is searched. The options of the client program give a request; the
  server, with its workers at rest and no checkpoint file, starts a task from it, if the text is not empty and
  valid UTF-8; and in whatever order workers then connect, answer, are lost or time out, once all units are
  done the best result is a best one of the solutions for the options: over all keys of the length the user
  gave, for the text the user gave (its beginning in the fast mode), by the score of the mode and the noise the user
  gave.
\<close>

theorem client_request_searched:
  assumes "client_config fs opt = Inr cfg" and "user_text fs opt = Some text"
    and "cl_cipher opt = CAESAR \<or> cl_cipher opt = VIGENERE \<and> 1 \<le> cl_key_length opt"
    and "utf8_ok (searched_text opt text)" and "searched_text opt text \<noteq> []"
    and "idle_world (node_ok dict trigrams) wd"
  shows "\<exists>s. client_read srt parse junk0 (Inr (build_request cfg)) now (wd_server wd) = Some (Inr s)
    \<and> (\<forall>wd' c. reaches dump (node_work b64 ser junk) (node_ok dict trigrams) (deliver s wd) wd'
         \<longrightarrow> sv_coordinator (wd_server wd') = Some c \<longrightarrow> all_units_done c
         \<longrightarrow> is_best dbl_less is_nan res_score init_result (user_solutions dict trigrams opt text) (c_best_result c))"
proof -
  note cfg = client_config_Inr [OF assms(1)] client_noise [OF assms(1)]
  have tx: "cc_encrypted_data cfg = text" using client_text [OF assms(1)] assms(2) by simp
  obtain p where p: "msg_payload (build_request cfg) = Some (PDecrypt p)" "dp_cipher p = cl_cipher opt" "dp_mode p = cl_mode opt"
    "dp_cipher_text p = text" "dp_noise p = cl_noise opt" "dp_key_length p = cl_key_length opt"
    using cfg tx by (auto simp: build_request_def create_decrypt_request_def mk_Message_def)
  have "task_ok p" using assms(3) p cfg(3,7) by (auto simp: task_ok_def)
  moreover have "task_text p = searched_text opt text" using p by (simp add: task_text_def searched_text_def)
  moreover have "handle_task_request srt parse junk0 (build_request cfg) now (wd_server wd)
      = handle_task srt parse junk0 p now (wd_server wd)"
    using p(1) by (simp add: handle_task_request_def build_request_def create_decrypt_request_def mk_Message_def)
  ultimately show ?thesis
    using task_search [of p dict trigrams wd srt parse junk0 now dump b64 ser junk] assms(4-6)
      user_solutions_task [OF p(2-6), of dict trigrams]
    by (auto simp: client_read_def)
qed

theorem client_request_searched_witness:
  "\<exists>cfg s. client_config [''in'' \<mapsto> ''Khoor''] \<lparr>cl_cipher = CAESAR, cl_mode = BRUTE, cl_mode_count = 0, cl_input_text = [],
      cl_input_file = ''in'', cl_output_file = [], cl_key_length = - 1, cl_noise = 0, cl_servers = [''a:1'']\<rparr> = Inr cfg
    \<and> client_read stable_desc (\<lambda>x. Inr JNull) 0 (Inr (build_request cfg)) 0 (wd_server demo_world) = Some (Inr s)"
proof -
  let ?opt = "\<lparr>cl_cipher = CAESAR, cl_mode = BRUTE, cl_mode_count = 0, cl_input_text = [],
      cl_input_file = ''in'', cl_output_file = [], cl_key_length = - 1, cl_noise = 0, cl_servers = [''a:1'']\<rparr>"
  have "parse_server ''a:1'' = Inr \<lparr>ep_host = ''a'', ep_port = 1\<rparr>" by code_simp
  then obtain cfg where cfg: "client_config [''in'' \<mapsto> ''Khoor''] ?opt = Inr cfg"
    by (auto simp: client_config_def read_file_binary_def)
  have "utf8_ok (searched_text ?opt ''Khoor'')" unfolding utf8_ok_def by code_simp
  moreover have "idle_world (node_ok None None) demo_world" by (simp add: idle_world_def at_rest_def demo_world_def new_Server_def)
  ultimately show ?thesis
    using client_request_searched [OF cfg, of "''Khoor''" None None demo_world stable_desc "\<lambda>x. Inr JNull" 0 0 "\<lambda>j. Inr []" id "\<lambda>j. []" 0] cfg
    by (auto simp: user_text_def searched_text_def)
qed

end
